(* ===== verification/RtPrelude.thy ===== *)
theory RtPrelude
  imports Main "HOL-Library.Word" "HOL-Library.Monad_Syntax"
begin

unbundle bit_operations_syntax

text \<open>
  Shared vocabulary of the development: the integer types and constants of
  \<^verbatim>\<open>include/rtdef.h\<close> (lines 66 to 83, 258 to 297, 407 to 421, 477 to 496, 573 to 580),
  the configuration of \<^verbatim>\<open>bsp/stm32f40x/rtconfig.h\<close>, and the generic lemmas on lists,
  options and words that the component theories use.

  Fallible kernel code has the type \<open>state \<Rightarrow> (state \<times> 'a) option\<close>. \<open>None\<close> is the system
  stopping: a failed \<^verbatim>\<open>RT_ASSERT\<close> (\<^verbatim>\<open>rt_assert_handler\<close> never returns), the endless loop of
  the stack check, or an access outside an object (undefined behaviour of the C program).
  Error codes that the code returns are ordinary values of type \<open>rt_err\<close>.
\<close>

section \<open>Collections\<close>

named_theorems rt_consts \<open>unfolding of the C constants\<close>
named_theorems rt_ops \<open>definitions of kernel primitives, for evaluation\<close>
named_theorems frame_simps \<open>fields a primitive does not write\<close>
named_theorems inv_intros \<open>preservation of the invariants\<close>

section \<open>Integer types and constants\<close>

type_synonym u8 = "8 word"
type_synonym u16 = "16 word"
type_synonym u32 = "32 word"
type_synonym rt_err = int

abbreviation (input) RT_EOK :: rt_err where "RT_EOK \<equiv> 0"
abbreviation (input) RT_ERROR :: rt_err where "RT_ERROR \<equiv> 1"
abbreviation (input) RT_ETIMEOUT :: rt_err where "RT_ETIMEOUT \<equiv> 2"
abbreviation (input) RT_EFULL :: rt_err where "RT_EFULL \<equiv> 3"
abbreviation (input) RT_EEMPTY :: rt_err where "RT_EEMPTY \<equiv> 4"
abbreviation (input) RT_EINTR :: rt_err where "RT_EINTR \<equiv> 9"

abbreviation (input) RT_ALIGN_SIZE :: nat where "RT_ALIGN_SIZE \<equiv> 4"
abbreviation (input) RT_THREAD_PRIORITY_MAX :: nat where "RT_THREAD_PRIORITY_MAX \<equiv> 32"
abbreviation (input) RT_NAME_MAX :: nat where "RT_NAME_MAX \<equiv> 8"

text \<open>\<^verbatim>\<open>RT_TICK_MAX / 2\<close>, the half window of the wrapping tick comparison.\<close>

abbreviation (input) RT_TICK_HALF :: u32 where "RT_TICK_HALF \<equiv> 0x7FFFFFFF"

abbreviation (input) RT_THREAD_INIT :: u8 where "RT_THREAD_INIT \<equiv> 0x00"
abbreviation (input) RT_THREAD_READY :: u8 where "RT_THREAD_READY \<equiv> 0x01"
abbreviation (input) RT_THREAD_SUSPEND :: u8 where "RT_THREAD_SUSPEND \<equiv> 0x02"
abbreviation (input) RT_THREAD_CLOSE :: u8 where "RT_THREAD_CLOSE \<equiv> 0x04"
abbreviation (input) RT_THREAD_STAT_MASK :: u8 where "RT_THREAD_STAT_MASK \<equiv> 0x0f"

abbreviation (input) RT_TIMER_FLAG_ACTIVATED :: u8 where "RT_TIMER_FLAG_ACTIVATED \<equiv> 0x1"
abbreviation (input) RT_TIMER_FLAG_PERIODIC :: u8 where "RT_TIMER_FLAG_PERIODIC \<equiv> 0x2"

abbreviation (input) RT_IPC_FLAG_FIFO :: u8 where "RT_IPC_FLAG_FIFO \<equiv> 0x00"
abbreviation (input) RT_IPC_FLAG_PRIO :: u8 where "RT_IPC_FLAG_PRIO \<equiv> 0x01"

abbreviation (input) RT_EVENT_FLAG_AND :: u8 where "RT_EVENT_FLAG_AND \<equiv> 0x01"
abbreviation (input) RT_EVENT_FLAG_OR :: u8 where "RT_EVENT_FLAG_OR \<equiv> 0x02"
abbreviation (input) RT_EVENT_FLAG_CLEAR :: u8 where "RT_EVENT_FLAG_CLEAR \<equiv> 0x04"

section \<open>Assertions\<close>

text \<open>\<^verbatim>\<open>RT_ASSERT(b)\<close>: the code goes on when \<open>b\<close> holds and the system stops otherwise.\<close>

definition RT_ASSERT :: "bool \<Rightarrow> unit option" where
  "RT_ASSERT b = (if b then Some () else None)"

lemma RT_ASSERT_True [simp]: "RT_ASSERT True = Some ()"
  by (simp add: RT_ASSERT_def)

lemma RT_ASSERT_False [simp]: "RT_ASSERT False = None"
  by (simp add: RT_ASSERT_def)

lemma RT_ASSERT_eq_Some [simp]: "RT_ASSERT b = Some u \<longleftrightarrow> b"
  by (simp add: RT_ASSERT_def)

lemma bind_RT_ASSERT: "Option.bind (RT_ASSERT b) f = (if b then f () else None)"
  by (simp add: RT_ASSERT_def)

lemma bind_RT_ASSERT_eq_Some [simp]:
  "Option.bind (RT_ASSERT b) f = Some y \<longleftrightarrow> b \<and> f () = Some y"
  by (simp add: RT_ASSERT_def)

section \<open>Lists\<close>

lemma removeAll_distinct_append:
  "distinct (xs @ x # ys) \<Longrightarrow> removeAll x (xs @ x # ys) = xs @ ys"
  by simp

lemma removeAll_Cons_hd: "distinct (x # xs) \<Longrightarrow> removeAll x (x # xs) = xs"
  by simp

lemma distinct_removeAll_snoc: "distinct xs \<Longrightarrow> distinct (removeAll x xs @ [x])"
  by (simp add: distinct_removeAll)

lemma removeAll_eq_Nil_iff: "removeAll x xs = [] \<longleftrightarrow> set xs \<subseteq> {x}"
  by (induction xs) auto

lemma hd_removeAll_other: "xs \<noteq> [] \<Longrightarrow> hd xs \<noteq> x \<Longrightarrow> hd (removeAll x xs) = hd xs"
  by (cases xs) auto

lemma sorted_wrt_removeAll: "sorted_wrt R xs \<Longrightarrow> sorted_wrt R (removeAll x xs)"
  by (simp add: removeAll_filter_not_eq sorted_wrt_filter)

section \<open>Words\<close>

lemma u8_and_mask_or [simp]:
  "((1::u8) OR (x AND NOT 0x0F)) AND 0x0F = 1"
  "((2::u8) OR (x AND NOT 0x0F)) AND 0x0F = 2"
  by (rule bit_word_eqI; auto simp: bit_simps numeral_eq_Suc less_Suc_eq bit_Suc)+

lemma bit_push_one_u32: "bit (push_bit p (1::u32)) q \<longleftrightarrow> p = q \<and> q < 32"
  by (auto simp: bit_simps)

text \<open>\<^verbatim>\<open>1 << p\<close>, the mask of a priority.\<close>

definition prio_mask :: "nat \<Rightarrow> u32" where
  "prio_mask p = push_bit p 1"

lemma bit_prio_mask: "bit (prio_mask p) q \<longleftrightarrow> p = q \<and> q < 32"
  by (simp add: prio_mask_def bit_push_one_u32 del: push_bit_of_1)

text \<open>\<^verbatim>\<open>s | (stat & ~RT_THREAD_STAT_MASK)\<close>, the change of a thread's state under its flags.\<close>

definition set_stat :: "u8 \<Rightarrow> u8 \<Rightarrow> u8" where
  "set_stat s x = s OR (x AND NOT RT_THREAD_STAT_MASK)"

lemma set_stat_mask [simp]:
  "set_stat RT_THREAD_READY x AND RT_THREAD_STAT_MASK = RT_THREAD_READY"
  "set_stat RT_THREAD_SUSPEND x AND RT_THREAD_STAT_MASK = RT_THREAD_SUSPEND"
  unfolding set_stat_def by (rule u8_and_mask_or; simp)+

section \<open>Ordered insertion\<close>

text \<open>
  The kernel keeps its timers by expiry and its waiting threads by priority with the same
  loop: walk the list, stop in front of the first element that the new one comes before, and
  insert there. \<open>before\<close> is the comparison of the loop in a context \<open>c\<close> (the control blocks it
  reads). Where the comparison agrees with a key on the elements at hand, the list stays
  sorted and the new element stands behind all elements of the same key.
\<close>

locale ordered_insert =
  fixes before :: "'c \<Rightarrow> 'a \<Rightarrow> 'a \<Rightarrow> bool"
    and ins :: "'c \<Rightarrow> 'a \<Rightarrow> 'a list \<Rightarrow> 'a list"
  assumes ins_Nil: "ins c x [] = [x]"
    and ins_Cons: "ins c x (y # ys) = (if before c x y then x # y # ys else y # ins c x ys)"
begin

lemma set_ins [simp]: "set (ins c x ys) = Set.insert x (set ys)"
  by (induction ys) (auto simp: ins_Nil ins_Cons)

lemma length_ins [simp]: "length (ins c x ys) = Suc (length ys)"
  by (induction ys) (auto simp: ins_Nil ins_Cons)

lemma distinct_ins: "distinct ys \<Longrightarrow> x \<notin> set ys \<Longrightarrow> distinct (ins c x ys)"
  by (induction ys) (auto simp: ins_Nil ins_Cons)

lemma ins_split:
  "\<exists>us vs. ys = us @ vs \<and> ins c x ys = us @ x # vs \<and> (\<forall>u\<in>set us. \<not> before c x u) \<and>
     (vs = [] \<or> before c x (hd vs))"
proof (induction ys)
  case (Cons y ys)
  then obtain us vs where "ys = us @ vs" "ins c x ys = us @ x # vs"
    "\<forall>u\<in>set us. \<not> before c x u" "vs = [] \<or> before c x (hd vs)" by blast
  note IH = this
  show ?case
  proof (cases "before c x y")
    case True
    then show ?thesis by (intro exI[of _ "[]"] exI[of _ "y # ys"]) (simp add: ins_Cons)
  next
    case False
    then show ?thesis using IH
      by (intro exI[of _ "y # us"] exI[of _ vs]) (simp add: ins_Cons)
  qed
qed (simp add: ins_Nil)

lemma sorted_ins:
  assumes "sorted_wrt (\<lambda>a b. key a \<le> (key b :: nat)) ys"
    and "\<And>y. y \<in> set ys \<Longrightarrow> before c x y \<longleftrightarrow> key x < key y"
  shows "sorted_wrt (\<lambda>a b. key a \<le> key b) (ins c x ys)"
  using assms by (induction ys) (auto simp: ins_Nil ins_Cons)

lemma filter_ins:
  assumes "sorted_wrt (\<lambda>a b. key a \<le> (key b :: nat)) ys"
    and "\<And>y. y \<in> set ys \<Longrightarrow> before c x y \<longleftrightarrow> key x < key y"
  shows "filter (\<lambda>a. key a = n) (ins c x ys) =
    filter (\<lambda>a. key a = n) ys @ (if key x = n then [x] else [])"
  using assms
proof (induction ys)
  case (Cons y ys)
  have "filter (\<lambda>a. key a = key x) ys = []" if "key x < key y"
    using that Cons.prems(1) by (auto simp: filter_empty_conv)
  with Cons show ?case by (auto simp: ins_Cons)
qed (simp add: ins_Nil)

end

end
