(* ===== verification/RtList.thy ===== *)
theory RtList
  imports RtPrelude
begin

text \<open>
  The intrusive doubly linked list of \<^verbatim>\<open>include/rtservice.h\<close> (lines 56 to 132) on an
  explicit store: a node is an address (of any type \<open>'a\<close>), and the store gives its \<^verbatim>\<open>next\<close> and \<^verbatim>\<open>prev\<close>
  pointers. Each operation performs the pointer writes of the source in their order.

  The lemmas show that the pointer code implements operations on HOL lists (\<open>dlist h l xs\<close>:
  the ring through the head \<open>l\<close> holds the nodes \<open>xs\<close>), and that a store of several disjoint
  rings implements \<open>list_store\<close>, the interface through which the kernel theories use lists.
\<close>

section \<open>The pointer operations\<close>

record 'a rt_list_heap =
  nxt :: "'a \<Rightarrow> 'a"
  prv :: "'a \<Rightarrow> 'a"

definition set_next :: "'a \<Rightarrow> 'a \<Rightarrow> 'a rt_list_heap \<Rightarrow> 'a rt_list_heap" where
  "set_next a b h = h\<lparr>nxt := (nxt h)(a := b)\<rparr>"

definition set_prev :: "'a \<Rightarrow> 'a \<Rightarrow> 'a rt_list_heap \<Rightarrow> 'a rt_list_heap" where
  "set_prev a b h = h\<lparr>prv := (prv h)(a := b)\<rparr>"

definition rt_list_init :: "'a \<Rightarrow> 'a rt_list_heap \<Rightarrow> 'a rt_list_heap" where
  "rt_list_init l h = set_next l l (set_prev l l h)"

definition rt_list_insert_after :: "'a \<Rightarrow> 'a \<Rightarrow> 'a rt_list_heap \<Rightarrow> 'a rt_list_heap" where
  "rt_list_insert_after l n h =
     (let h = set_prev (nxt h l) n h;
          h = set_next n (nxt h l) h;
          h = set_next l n h
      in set_prev n l h)"

definition rt_list_insert_before :: "'a \<Rightarrow> 'a \<Rightarrow> 'a rt_list_heap \<Rightarrow> 'a rt_list_heap" where
  "rt_list_insert_before l n h =
     (let h = set_next (prv h l) n h;
          h = set_prev n (prv h l) h;
          h = set_prev l n h
      in set_next n l h)"

definition rt_list_remove :: "'a \<Rightarrow> 'a rt_list_heap \<Rightarrow> 'a rt_list_heap" where
  "rt_list_remove n h =
     (let h = set_prev (nxt h n) (prv h n) h;
          h = set_next (prv h n) (nxt h n) h
      in set_next n n (set_prev n n h))"

definition rt_list_isempty :: "'a rt_list_heap \<Rightarrow> 'a \<Rightarrow> bool" where
  "rt_list_isempty h l \<longleftrightarrow> nxt h l = l"

text \<open>
  \<^verbatim>\<open>rt_list_len\<close> walks from the head until the next node is the head again; on a broken
  ring the C loop does not end, and the model returns \<open>None\<close>.
\<close>

partial_function (option) rt_list_len_loop ::
  "'a rt_list_heap \<Rightarrow> 'a \<Rightarrow> 'a \<Rightarrow> nat \<Rightarrow> nat option" where
  "rt_list_len_loop h l p len =
     (if nxt h p \<noteq> l then rt_list_len_loop h l (nxt h p) (Suc len) else Some len)"

definition rt_list_len :: "'a rt_list_heap \<Rightarrow> 'a \<Rightarrow> nat option" where
  "rt_list_len h l = rt_list_len_loop h l l 0"

section \<open>Rings\<close>

text \<open>\<open>chain h a xs b\<close>: from \<open>a\<close> the next pointers lead through \<open>xs\<close> to \<open>b\<close>, and the prev
  pointers lead back.\<close>

fun chain :: "'a rt_list_heap \<Rightarrow> 'a \<Rightarrow> 'a list \<Rightarrow> 'a \<Rightarrow> bool" where
  "chain h a [] b \<longleftrightarrow> nxt h a = b \<and> prv h b = a"
| "chain h a (x # xs) b \<longleftrightarrow> nxt h a = x \<and> prv h x = a \<and> chain h x xs b"

definition dlist :: "'a rt_list_heap \<Rightarrow> 'a \<Rightarrow> 'a list \<Rightarrow> bool" where
  "dlist h l xs \<longleftrightarrow> chain h l xs l \<and> distinct (l # xs)"

lemma chain_append_Cons:
  "chain h a (xs @ y # ys) b \<longleftrightarrow> chain h a xs y \<and> chain h y ys b"
  by (induction xs arbitrary: a) auto

lemma chain_frame:
  assumes "chain h a xs b"
    and "\<And>x. x \<in> set (a # xs) \<Longrightarrow> nxt h' x = nxt h x"
    and "\<And>x. x \<in> set (xs @ [b]) \<Longrightarrow> prv h' x = prv h x"
  shows "chain h' a xs b"
  using assms by (induction xs arbitrary: a) auto

lemma dlist_frame:
  assumes "dlist h l xs"
    and "\<And>x. x \<in> set (l # xs) \<Longrightarrow> nxt h' x = nxt h x \<and> prv h' x = prv h x"
  shows "dlist h' l xs"
  using assms unfolding dlist_def by (auto intro: chain_frame)

text \<open>Every ring has one reading as a list.\<close>

lemma chain_unique:
  assumes "chain h a xs l" "chain h a ys l" "l \<notin> set xs" "l \<notin> set ys"
  shows "xs = ys"
  using assms
proof (induction xs arbitrary: a ys)
  case Nil
  then show ?case by (cases ys) auto
next
  case (Cons x xs)
  then show ?case by (cases ys) auto
qed

lemma dlist_unique: "dlist h l xs \<Longrightarrow> dlist h l ys \<Longrightarrow> xs = ys"
  unfolding dlist_def by (auto intro: chain_unique)

lemma chain_ends:
  "chain h a xs b \<Longrightarrow> nxt h a = hd (xs @ [b])"
  "chain h a xs b \<Longrightarrow> prv h b = last (a # xs)"
  by (induction xs arbitrary: a) auto

section \<open>The operations on rings\<close>

lemma rt_list_init_dlist: "dlist (rt_list_init l h) l []"
  by (simp add: dlist_def rt_list_init_def set_next_def set_prev_def)

lemma rt_list_isempty_dlist: "dlist h l xs \<Longrightarrow> rt_list_isempty h l \<longleftrightarrow> xs = []"
  by (cases xs) (auto simp: dlist_def rt_list_isempty_def)

lemma insert_before_nxt:
  "n \<noteq> l \<Longrightarrow> prv h l \<noteq> n \<Longrightarrow>
   nxt (rt_list_insert_before l n h) = (nxt h)(prv h l := n, n := l)"
  "n \<noteq> l \<Longrightarrow> prv h l \<noteq> n \<Longrightarrow>
   prv (rt_list_insert_before l n h) = (prv h)(n := prv h l, l := n)"
  by (auto simp: rt_list_insert_before_def set_next_def set_prev_def Let_def)

lemma insert_after_nxt:
  "n \<noteq> l \<Longrightarrow> nxt h l \<noteq> n \<Longrightarrow>
   nxt (rt_list_insert_after l n h) = (nxt h)(n := nxt h l, l := n)"
  "n \<noteq> l \<Longrightarrow> nxt h l \<noteq> n \<Longrightarrow>
   prv (rt_list_insert_after l n h) = (prv h)(nxt h l := n, n := l)"
  by (auto simp: rt_list_insert_after_def set_next_def set_prev_def Let_def)

text \<open>A new node between two neighbours of a ring; both insertions are this change.\<close>

lemma chain_link:
  assumes c: "chain h a (xs @ ys) b" and d: "distinct (a # xs @ ys)"
    and n: "n \<notin> set (a # xs @ ys)" "n \<noteq> b" and b: "b \<notin> set (xs @ ys)"
    and p: "p = last (a # xs)" and q: "q = hd (ys @ [b])"
    and nx: "nxt h' = (nxt h)(p := n, n := q)"
    and pv: "prv h' = (prv h)(n := p, q := n)"
  shows "chain h' a (xs @ n # ys) b"
  using c d n b p q nx pv
proof (induction xs arbitrary: a)
  case Nil
  show ?case
  proof (cases ys)
    case Nil
    with \<open>chain h a ([] @ ys) b\<close> Nil.prems show ?thesis by auto
  next
    case (Cons y zs)
    then have "chain h y zs b" using Nil.prems by simp
    then have "chain h' y zs b"
      by (rule chain_frame) (use Nil.prems Cons in auto)
    then show ?thesis using Nil.prems Cons by auto
  qed
next
  case (Cons x xs)
  have x: "x \<noteq> q"
    using Cons.prems by (cases ys) auto
  have "chain h' x (xs @ n # ys) b"
    using Cons.prems by (intro Cons.IH) auto
  moreover have "nxt h' a = x"
    using Cons.prems by (cases xs) (auto simp: last_ConsR)
  moreover have "prv h' x = a" using Cons.prems x by auto
  ultimately show ?case by simp
qed

lemma rt_list_insert_before_head:
  assumes "dlist h l xs" "n \<notin> set (l # xs)"
  shows "dlist (rt_list_insert_before l n h) l (xs @ [n])"
proof -
  have c: "chain h l xs l" and d: "distinct (l # xs)" using assms by (auto simp: dlist_def)
  have p: "prv h l = last (l # xs)" using chain_ends(2)[OF c] .
  have nl: "n \<noteq> l" "prv h l \<noteq> n" using assms p by (auto simp: last_in_set split: if_splits)
  have "chain (rt_list_insert_before l n h) l (xs @ n # []) l"
    by (rule chain_link[where h = h and p = "prv h l" and q = l])
      (use c d assms p nl in \<open>auto simp: insert_before_nxt\<close>)
  then show ?thesis using d assms by (auto simp: dlist_def)
qed

lemma rt_list_insert_before_node:
  assumes "dlist h l (xs @ y # ys)" "n \<notin> set (l # xs @ y # ys)"
  shows "dlist (rt_list_insert_before y n h) l (xs @ n # y # ys)"
proof -
  have c: "chain h l (xs @ y # ys) l" and d: "distinct (l # xs @ y # ys)"
    using assms by (auto simp: dlist_def)
  have p: "prv h y = last (l # xs)"
    using c chain_ends(2) unfolding chain_append_Cons by fastforce
  have "last (l # xs) \<in> set (l # xs)" by (rule last_in_set) simp
  then have nl: "n \<noteq> y" "prv h y \<noteq> n" using assms(2) p by auto
  have "chain (rt_list_insert_before y n h) l (xs @ n # y # ys) l"
    by (rule chain_link[where h = h and p = "prv h y" and q = y])
      (use c d assms p nl in \<open>auto simp: insert_before_nxt\<close>)
  then show ?thesis using d assms by (auto simp: dlist_def)
qed

lemma rt_list_insert_after_head:
  assumes "dlist h l xs" "n \<notin> set (l # xs)"
  shows "dlist (rt_list_insert_after l n h) l (n # xs)"
proof -
  have c: "chain h l xs l" and d: "distinct (l # xs)" using assms by (auto simp: dlist_def)
  have q: "nxt h l = hd (xs @ [l])" using chain_ends(1)[OF c] .
  have "hd (xs @ [l]) \<in> set (l # xs)" by (cases xs) auto
  then have nl: "n \<noteq> l" "nxt h l \<noteq> n" using assms q by auto
  have "chain (rt_list_insert_after l n h) l ([] @ n # xs) l"
    by (rule chain_link[where h = h and p = l and q = "nxt h l"])
      (use c d assms q nl in \<open>auto simp: insert_after_nxt\<close>)
  then show ?thesis using d assms by (auto simp: dlist_def)
qed

lemma rt_list_insert_after_node:
  assumes "dlist h l (xs @ y # ys)" "n \<notin> set (l # xs @ y # ys)"
  shows "dlist (rt_list_insert_after y n h) l (xs @ y # n # ys)"
proof -
  have c: "chain h l ((xs @ [y]) @ ys) l" and d: "distinct (l # xs @ y # ys)"
    using assms by (auto simp: dlist_def)
  have q: "nxt h y = hd (ys @ [l])"
    using c chain_ends(1) unfolding append_assoc append_Cons append_Nil chain_append_Cons by metis
  have "hd (ys @ [l]) \<in> set (l # ys)" by (cases ys) auto
  then have nl: "n \<noteq> y" "nxt h y \<noteq> n" using assms q by auto
  have "chain (rt_list_insert_after y n h) l ((xs @ [y]) @ n # ys) l"
    by (rule chain_link[where h = h and p = y and q = "nxt h y"])
      (use c d assms q nl in \<open>auto simp: insert_after_nxt\<close>)
  then show ?thesis using d assms by (auto simp: dlist_def)
qed

text \<open>Removal closes the ring over the node and leaves the node linked to itself.\<close>

lemma remove_nxt:
  "nxt h n \<noteq> n \<Longrightarrow> prv h n \<noteq> n \<Longrightarrow>
   nxt (rt_list_remove n h) = (nxt h)(prv h n := nxt h n, n := n)"
  "nxt h n \<noteq> n \<Longrightarrow> prv h n \<noteq> n \<Longrightarrow>
   prv (rt_list_remove n h) = (prv h)(nxt h n := prv h n, n := n)"
  by (auto simp: rt_list_remove_def set_next_def set_prev_def Let_def)

lemma rt_list_remove_self:
  "nxt h n = n \<Longrightarrow> prv h n = n \<Longrightarrow> rt_list_remove n h = h"
  by (cases h) (auto simp: rt_list_remove_def set_next_def set_prev_def Let_def)

lemma chain_unlink:
  assumes c: "chain h a (xs @ n # ys) b" and d: "distinct (a # xs @ n # ys)"
    and b: "b \<notin> set (xs @ n # ys)"
    and nx: "nxt h' = (nxt h)(last (a # xs) := hd (ys @ [b]), n := n)"
    and pv: "prv h' = (prv h)(hd (ys @ [b]) := last (a # xs), n := n)"
  shows "chain h' a (xs @ ys) b"
  using c d b nx pv
proof (induction xs arbitrary: a)
  case Nil
  show ?case
  proof (cases ys)
    case Nil
    then show ?thesis using Nil.prems by auto
  next
    case (Cons y zs)
    then have "chain h y zs b" using Nil.prems by simp
    then have "chain h' y zs b"
      by (rule chain_frame) (use Nil.prems Cons in auto)
    then show ?thesis using Nil.prems Cons by auto
  qed
next
  case (Cons x xs)
  have x: "x \<noteq> hd (ys @ [b])"
    using Cons.prems by (cases ys) auto
  have "chain h' x (xs @ ys) b"
    using Cons.prems by (intro Cons.IH) auto
  moreover have "nxt h' a = x"
    using Cons.prems by (cases xs) (auto simp: last_ConsR)
  moreover have "prv h' x = a" using Cons.prems x by auto
  ultimately show ?case by simp
qed

lemma ring_neighbours:
  assumes "dlist h l (xs @ n # ys)"
  shows "prv h n = last (l # xs)" "nxt h n = hd (ys @ [l])" "prv h n \<noteq> n" "nxt h n \<noteq> n"
proof -
  have c: "chain h l xs n" "chain h n ys l" and d: "distinct (l # xs @ n # ys)"
    using assms by (auto simp: dlist_def chain_append_Cons)
  show p: "prv h n = last (l # xs)" using chain_ends(2)[OF c(1)] .
  show q: "nxt h n = hd (ys @ [l])" using chain_ends(1)[OF c(2)] .
  show "prv h n \<noteq> n" using p d last_in_set[of "l # xs"] by auto
  show "nxt h n \<noteq> n" using q d by (cases ys) auto
qed

lemma rt_list_remove_dlist:
  assumes "dlist h l (xs @ n # ys)"
  shows "dlist (rt_list_remove n h) l (xs @ ys)"
    and "dlist (rt_list_remove n h) n []"
proof -
  have c: "chain h l (xs @ n # ys) l" and d: "distinct (l # xs @ n # ys)"
    using assms by (auto simp: dlist_def)
  note r = ring_neighbours[OF assms]
  have "chain (rt_list_remove n h) l (xs @ ys) l"
    by (rule chain_unlink[OF c]) (use d r in \<open>auto simp: remove_nxt\<close>)
  then show "dlist (rt_list_remove n h) l (xs @ ys)" using d by (auto simp: dlist_def)
  show "dlist (rt_list_remove n h) n []" using r by (auto simp: dlist_def remove_nxt)
qed

section \<open>The length\<close>

lemma rt_list_len_loop_chain:
  assumes "chain h p xs l" "l \<notin> set xs"
  shows "rt_list_len_loop h l p len = Some (len + length xs)"
  using assms
  by (induction xs arbitrary: p len) (auto simp: rt_list_len_loop.simps)

lemma rt_list_len_dlist: "dlist h l xs \<Longrightarrow> rt_list_len h l = Some (length xs)"
  unfolding rt_list_len_def dlist_def by (auto simp: rt_list_len_loop_chain)

section \<open>A store of thread queues\<close>

text \<open>
  The kernel keeps every thread in at most one queue through its single node \<^verbatim>\<open>tlist\<close>: a
  ready queue, the suspend queue of one object, or the defunct queue. The interface
  \<open>list_store\<close> is what the kernel relies on: a state represents an assignment of lists to
  queue heads, \<open>push\<close> is \<^verbatim>\<open>rt_list_insert_before(&head, &tlist)\<close>, \<open>insert\<close> is the same call
  with a node instead of a head, and \<open>unlink\<close> is \<^verbatim>\<open>rt_list_remove(&tlist)\<close>.
\<close>

definition queues_disjoint :: "('h \<Rightarrow> nat list) \<Rightarrow> bool" where
  "queues_disjoint L \<longleftrightarrow>
     (\<forall>q. distinct (L q)) \<and> (\<forall>q r. q \<noteq> r \<longrightarrow> set (L q) \<inter> set (L r) = {})"

definition unqueued :: "nat \<Rightarrow> ('h \<Rightarrow> nat list) \<Rightarrow> bool" where
  "unqueued t L \<longleftrightarrow> (\<forall>q. t \<notin> set (L q))"

lemma queues_disjoint_push:
  "queues_disjoint L \<Longrightarrow> unqueued t L \<Longrightarrow> queues_disjoint (L(q := L q @ [t]))"
  by (auto simp: queues_disjoint_def unqueued_def)

lemma queues_disjoint_insert:
  "queues_disjoint L \<Longrightarrow> unqueued t L \<Longrightarrow> L q = xs @ y # ys \<Longrightarrow>
   queues_disjoint (L(q := xs @ t # y # ys))"
  unfolding queues_disjoint_def unqueued_def
  by (auto 4 4 dest: spec[of _ q])

lemma queues_disjoint_unlink:
  "queues_disjoint L \<Longrightarrow> queues_disjoint (\<lambda>q. removeAll t (L q))"
  by (auto simp: queues_disjoint_def distinct_removeAll)

lemma unqueued_unlink: "unqueued t (\<lambda>q. removeAll t (L q))"
  by (simp add: unqueued_def)

lemma unlink_unqueued: "unqueued t L \<Longrightarrow> (\<lambda>q. removeAll t (L q)) = L"
  by (auto simp: unqueued_def)

lemma queues_disjoint_same:
  "queues_disjoint L \<Longrightarrow> t \<in> set (L q) \<Longrightarrow> t \<in> set (L r) \<Longrightarrow> q = r"
  by (auto simp: queues_disjoint_def)

locale list_store =
  fixes rep :: "'s \<Rightarrow> ('h \<Rightarrow> nat list) \<Rightarrow> bool"
    and push :: "'h \<Rightarrow> nat \<Rightarrow> 's \<Rightarrow> 's"
    and insert :: "nat \<Rightarrow> nat \<Rightarrow> 's \<Rightarrow> 's"
    and unlink :: "nat \<Rightarrow> 's \<Rightarrow> 's"
  assumes rep_disjoint: "rep s L \<Longrightarrow> queues_disjoint L"
    and rep_push: "rep s L \<Longrightarrow> unqueued t L \<Longrightarrow> rep (push q t s) (L(q := L q @ [t]))"
    and rep_insert: "rep s L \<Longrightarrow> unqueued t L \<Longrightarrow> L q = xs @ y # ys \<Longrightarrow>
      rep (insert y t s) (L(q := xs @ t # y # ys))"
    and rep_unlink: "rep s L \<Longrightarrow> rep (unlink t s) (\<lambda>q. removeAll t (L q))"
begin

text \<open>Moving a thread: it leaves its queue and becomes the last of the target queue.\<close>

lemma rep_move:
  "rep s L \<Longrightarrow>
   rep (push q t (unlink t s)) (\<lambda>r. removeAll t (L r) @ (if r = q then [t] else []))"
  by (drule rep_unlink[where t = t], drule rep_push[OF _ unqueued_unlink, where q = q])
    (simp add: fun_upd_def if_distrib cong: if_cong)

text \<open>The rotation of a ready queue by \<^verbatim>\<open>rt_thread_yield\<close>.\<close>

lemma rep_rotate:
  assumes "rep s L" "L q = t # ts"
  shows "rep (push q t (unlink t s)) (L(q := ts @ [t]))"
proof -
  have d: "queues_disjoint L" using assms(1) by (rule rep_disjoint)
  have "(\<lambda>r. removeAll t (L r) @ (if r = q then [t] else [])) = L(q := ts @ [t])"
  proof
    fix r
    show "removeAll t (L r) @ (if r = q then [t] else []) = (L(q := ts @ [t])) r"
      using d assms(2) queues_disjoint_same[OF d, of t q r]
      by (cases "r = q") (auto simp: queues_disjoint_def removeAll_id dest: spec[of _ q])
  qed
  with rep_move[OF assms(1), of q t] show ?thesis by simp
qed

end

text \<open>
  The pointer representation: an address is the head of a queue or the \<^verbatim>\<open>tlist\<close> node of a
  thread; a thread in no queue has its node linked to itself.
\<close>

datatype 'h list_addr = Head 'h | Tlist nat

definition ptr_rep :: "'h list_addr rt_list_heap \<Rightarrow> ('h \<Rightarrow> nat list) \<Rightarrow> bool" where
  "ptr_rep h L \<longleftrightarrow>
     queues_disjoint L \<and> (\<forall>q. dlist h (Head q) (map Tlist (L q))) \<and>
     (\<forall>t. unqueued t L \<longrightarrow> nxt h (Tlist t) = Tlist t \<and> prv h (Tlist t) = Tlist t)"

definition ptr_push :: "'h \<Rightarrow> nat \<Rightarrow> 'h list_addr rt_list_heap \<Rightarrow> 'h list_addr rt_list_heap" where
  "ptr_push q t = rt_list_insert_before (Head q) (Tlist t)"

definition ptr_insert :: "nat \<Rightarrow> nat \<Rightarrow> 'h list_addr rt_list_heap \<Rightarrow> 'h list_addr rt_list_heap" where
  "ptr_insert y t = rt_list_insert_before (Tlist y) (Tlist t)"

definition ptr_unlink :: "nat \<Rightarrow> 'h list_addr rt_list_heap \<Rightarrow> 'h list_addr rt_list_heap" where
  "ptr_unlink t = rt_list_remove (Tlist t)"

lemma insert_before_other:
  "x \<noteq> l \<Longrightarrow> x \<noteq> n \<Longrightarrow> x \<noteq> prv h l \<Longrightarrow> n \<noteq> l \<Longrightarrow> prv h l \<noteq> n \<Longrightarrow>
   nxt (rt_list_insert_before l n h) x = nxt h x \<and>
   prv (rt_list_insert_before l n h) x = prv h x"
  by (simp add: insert_before_nxt)

lemma remove_other:
  "x \<noteq> n \<Longrightarrow> x \<noteq> prv h n \<Longrightarrow> x \<noteq> nxt h n \<Longrightarrow> nxt h n \<noteq> n \<Longrightarrow> prv h n \<noteq> n \<Longrightarrow>
   nxt (rt_list_remove n h) x = nxt h x \<and> prv (rt_list_remove n h) x = prv h x"
  by (simp add: remove_nxt)

lemma ptr_repD:
  assumes "ptr_rep h L"
  shows "queues_disjoint L" "dlist h (Head q) (map Tlist (L q))"
    "unqueued t L \<Longrightarrow> nxt h (Tlist t) = Tlist t \<and> prv h (Tlist t) = Tlist t"
  using assms by (auto simp: ptr_rep_def)

text \<open>A change inside one ring: the other rings and the unqueued nodes keep their pointers.\<close>

lemma ptr_rep_update:
  assumes r: "ptr_rep h L" and d: "queues_disjoint (L(q := xs))"
    and new: "dlist h' (Head q) (map Tlist xs)"
    and other: "\<And>x. x \<notin> Set.insert (Head q) (Tlist ` (set (L q) \<union> set xs)) \<Longrightarrow>
      nxt h' x = nxt h x \<and> prv h' x = prv h x"
    and gone: "\<And>t. t \<in> set (L q) \<Longrightarrow> t \<notin> set xs \<Longrightarrow>
      nxt h' (Tlist t) = Tlist t \<and> prv h' (Tlist t) = Tlist t"
  shows "ptr_rep h' (L(q := xs))"
  unfolding ptr_rep_def
proof (intro conjI allI impI)
  show "queues_disjoint (L(q := xs))" by (rule d)
next
  fix r
  show "dlist h' (Head r) (map Tlist ((L(q := xs)) r))"
  proof (cases "r = q")
    case False
    have old: "dlist h (Head r) (map Tlist (L r))" by (rule ptr_repD(2)[OF assms(1)])
    have dj: "set (L r) \<inter> set (L q) = {}" "set (L r) \<inter> set xs = {}"
      using False d ptr_repD(1)[OF assms(1)]
        queues_disjoint_same[OF d, of _ q r] by (auto simp: queues_disjoint_def)
    have "dlist h' (Head r) (map Tlist (L r))"
      by (rule dlist_frame[OF old], rule other) (use False dj in auto)
    then show ?thesis using False by simp
  qed (use new in simp)
next
  fix t assume u: "unqueued t (L(q := xs))"
  show "nxt h' (Tlist t) = Tlist t" "prv h' (Tlist t) = Tlist t"
  proof -
    have x: "t \<notin> set xs" using u by (auto simp: unqueued_def dest: spec[of _ q])
    have "nxt h' (Tlist t) = Tlist t \<and> prv h' (Tlist t) = Tlist t"
    proof (cases "t \<in> set (L q)")
      case True then show ?thesis using gone x by simp
    next
      case False
      then have "unqueued t L" using u by (auto simp: unqueued_def split: if_splits)
      then show ?thesis using ptr_repD(3)[OF r] other[of "Tlist t"] False x by auto
    qed
    then show "nxt h' (Tlist t) = Tlist t" "prv h' (Tlist t) = Tlist t" by auto
  qed
qed

lemma ptr_rep_push:
  assumes r: "ptr_rep h L" and u: "unqueued t L"
  shows "ptr_rep (ptr_push q t h) (L(q := L q @ [t]))"
proof (rule ptr_rep_update[OF r])
  note dl = ptr_repD(2)[OF r, of q]
  have tq: "t \<notin> set (L q)" using u by (simp add: unqueued_def)
  have p: "prv h (Head q) = last (Head q # map Tlist (L q))"
    using dl chain_ends(2) by (fastforce simp: dlist_def)
  have pin: "prv h (Head q) \<in> Set.insert (Head q) (Tlist ` set (L q))"
    using last_in_set[of "Head q # map Tlist (L q)"] unfolding p by auto
  show "queues_disjoint (L(q := L q @ [t]))"
    by (rule queues_disjoint_push[OF ptr_repD(1)[OF r] u])
  show "dlist (ptr_push q t h) (Head q) (map Tlist (L q @ [t]))"
    using rt_list_insert_before_head[OF dl, of "Tlist t"] tq by (auto simp: ptr_push_def)
  show "nxt (ptr_push q t h) x = nxt h x \<and> prv (ptr_push q t h) x = prv h x"
    if "x \<notin> Set.insert (Head q) (Tlist ` (set (L q) \<union> set (L q @ [t])))" for x
    unfolding ptr_push_def using that pin tq by (intro insert_before_other) auto
qed auto

lemma ptr_rep_insert:
  assumes r: "ptr_rep h L" and u: "unqueued t L" and y: "L q = xs @ y # ys"
  shows "ptr_rep (ptr_insert y t h) (L(q := xs @ t # y # ys))"
proof (rule ptr_rep_update[OF r])
  have dl: "dlist h (Head q) (map Tlist xs @ Tlist y # map Tlist ys)"
    using ptr_repD(2)[OF r, of q] y by simp
  have tq: "t \<notin> set (L q)" using u by (simp add: unqueued_def)
  have pin: "prv h (Tlist y) \<in> Set.insert (Head q) (Tlist ` set xs)"
    using last_in_set[of "Head q # map Tlist xs"] unfolding ring_neighbours(1)[OF dl] by auto
  show "queues_disjoint (L(q := xs @ t # y # ys))"
    by (rule queues_disjoint_insert[OF ptr_repD(1)[OF r] u y])
  show "dlist (ptr_insert y t h) (Head q) (map Tlist (xs @ t # y # ys))"
    using rt_list_insert_before_node[OF dl, of "Tlist t"] tq y by (auto simp: ptr_insert_def)
  show "nxt (ptr_insert y t h) x = nxt h x \<and> prv (ptr_insert y t h) x = prv h x"
    if "x \<notin> Set.insert (Head q) (Tlist ` (set (L q) \<union> set (xs @ t # y # ys)))" for x
    unfolding ptr_insert_def using that pin tq y by (intro insert_before_other) auto
qed (use y in auto)

lemma ptr_rep_unlink:
  assumes r: "ptr_rep h L"
  shows "ptr_rep (ptr_unlink t h) (\<lambda>q. removeAll t (L q))"
proof (cases "unqueued t L")
  case True
  then show ?thesis
    using r ptr_repD(3)[OF r] by (simp add: unlink_unqueued ptr_unlink_def rt_list_remove_self)
next
  case False
  then obtain q xs ys where s: "L q = xs @ t # ys"
    by (auto simp: unqueued_def dest: split_list)
  have dj: "queues_disjoint L" by (rule ptr_repD(1)[OF r])
  then have t: "t \<notin> set xs" "t \<notin> set ys" using s by (auto simp: queues_disjoint_def dest!: spec[of _ q])
  have upd: "(\<lambda>q. removeAll t (L q)) = L(q := xs @ ys)"
    by (rule ext) (use s t queues_disjoint_same[OF dj, of t q] in \<open>auto intro!: removeAll_id\<close>)
  have dl: "dlist h (Head q) (map Tlist xs @ Tlist t # map Tlist ys)"
    using ptr_repD(2)[OF r, of q] s by simp
  have pin: "prv h (Tlist t) \<in> Set.insert (Head q) (Tlist ` set xs)"
    using last_in_set[of "Head q # map Tlist xs"] unfolding ring_neighbours(1)[OF dl] by auto
  have nin: "nxt h (Tlist t) \<in> Set.insert (Head q) (Tlist ` set ys)"
    unfolding ring_neighbours(2)[OF dl] by (cases ys) auto
  show ?thesis unfolding upd
  proof (rule ptr_rep_update[OF r])
    show "queues_disjoint (L(q := xs @ ys))"
      using queues_disjoint_unlink[OF dj, of t] unfolding upd .
    show "dlist (ptr_unlink t h) (Head q) (map Tlist (xs @ ys))"
      using rt_list_remove_dlist(1)[OF dl] by (simp add: ptr_unlink_def)
    show "nxt (ptr_unlink t h) x = nxt h x \<and> prv (ptr_unlink t h) x = prv h x"
      if "x \<notin> Set.insert (Head q) (Tlist ` (set (L q) \<union> set (xs @ ys)))" for x
      unfolding ptr_unlink_def using that pin nin s ring_neighbours(3,4)[OF dl]
      by (intro remove_other) auto
    show "nxt (ptr_unlink t h) (Tlist t') = Tlist t' \<and> prv (ptr_unlink t h) (Tlist t') = Tlist t'"
      if "t' \<in> set (L q)" "t' \<notin> set (xs @ ys)" for t'
      using that s rt_list_remove_dlist(2)[OF dl] by (auto simp: ptr_unlink_def dlist_def)
  qed
qed

interpretation ptr_queues: list_store ptr_rep ptr_push ptr_insert ptr_unlink
  by unfold_locales
    (auto intro: ptr_repD ptr_rep_push ptr_rep_insert ptr_rep_unlink)

end
