(* ===== verification/KService.thy ===== *)
theory KService
  imports RtPrelude
begin

text \<open>
  The memory and string services of \<^verbatim>\<open>src/kservice.c\<close>. The memory routines work on a byte
  store \<open>cmem\<close>; the read-only string routines take the bytes from the pointer on as a list
  (the terminator included), and reading beyond the bytes the caller provides is \<open>None\<close>.
  Plain \<^verbatim>\<open>char\<close> is unsigned, as the ARM ABI has it.

  The word-at-a-time routines are shown equal to their bytewise specifications, and the
  bitmap search \<^verbatim>\<open>__rt_ffs\<close> to find the lowest set bit.
\<close>

section \<open>Byte memory\<close>

type_synonym cmem = "nat \<Rightarrow> u8"

definition load32 :: "nat \<Rightarrow> cmem \<Rightarrow> u32" where
  "load32 a m = word_cat (m (a + 3)) (word_cat (m (a + 2)) (word_cat (m (a + 1)) (m a) :: u16) :: 24 word)"

definition store32 :: "nat \<Rightarrow> u32 \<Rightarrow> cmem \<Rightarrow> cmem" where
  "store32 a w m = m(a := ucast w, a + 1 := ucast (drop_bit 8 w), a + 2 := ucast (drop_bit 16 w),
     a + 3 := ucast (drop_bit 24 w))"

definition byte_fill :: "nat \<Rightarrow> nat \<Rightarrow> u8 \<Rightarrow> cmem \<Rightarrow> cmem" where
  "byte_fill a n d m = (\<lambda>x. if a \<le> x \<and> x < a + n then d else m x)"

definition byte_copy :: "nat \<Rightarrow> nat \<Rightarrow> nat \<Rightarrow> cmem \<Rightarrow> cmem" where
  "byte_copy dst src n m = (\<lambda>x. if dst \<le> x \<and> x < dst + n then m (src + (x - dst)) else m x)"

subsection \<open>\<^verbatim>\<open>rt_memset\<close>\<close>

fun memset_big :: "nat \<Rightarrow> u32 \<Rightarrow> nat \<Rightarrow> cmem \<Rightarrow> nat \<times> nat \<times> cmem" where
  "memset_big p buffer count m =
     (if 16 \<le> count
      then memset_big (p + 16) buffer (count - 16)
             (store32 (p + 12) buffer (store32 (p + 8) buffer
               (store32 (p + 4) buffer (store32 p buffer m))))
      else (p, count, m))"

fun memset_little :: "nat \<Rightarrow> u32 \<Rightarrow> nat \<Rightarrow> cmem \<Rightarrow> nat \<times> nat \<times> cmem" where
  "memset_little p buffer count m =
     (if 4 \<le> count then memset_little (p + 4) buffer (count - 4) (store32 p buffer m)
      else (p, count, m))"

fun memset_bytes :: "nat \<Rightarrow> u8 \<Rightarrow> nat \<Rightarrow> cmem \<Rightarrow> cmem" where
  "memset_bytes p d count m =
     (if count = 0 then m else memset_bytes (p + 1) d (count - 1) (m(p := d)))"

declare memset_big.simps [simp del] memset_little.simps [simp del] memset_bytes.simps [simp del]

definition rt_memset :: "nat \<Rightarrow> u32 \<Rightarrow> nat \<Rightarrow> cmem \<Rightarrow> cmem" where
  "rt_memset s c count m =
     (let d = c AND 0xFF in
      if \<not> count < 4 \<and> s mod 4 = 0 then
        let buffer = push_bit 8 d OR d;
            buffer = buffer OR push_bit 16 buffer;
            (p, count, m) = memset_big s buffer count m;
            (p, count, m) = memset_little p buffer count m
        in memset_bytes p (ucast d) count m
      else memset_bytes s (ucast d) count m)"

subsection \<open>\<^verbatim>\<open>rt_memcpy\<close> and \<^verbatim>\<open>rt_memmove\<close>\<close>

definition copy_word :: "nat \<Rightarrow> nat \<Rightarrow> cmem \<Rightarrow> cmem" where
  "copy_word d s m = store32 d (load32 s m) m"

fun memcpy_big :: "nat \<Rightarrow> nat \<Rightarrow> nat \<Rightarrow> cmem \<Rightarrow> nat \<times> nat \<times> nat \<times> cmem" where
  "memcpy_big d s len m =
     (if 16 \<le> len
      then memcpy_big (d + 16) (s + 16) (len - 16)
             (copy_word (d + 12) (s + 12) (copy_word (d + 8) (s + 8)
               (copy_word (d + 4) (s + 4) (copy_word d s m))))
      else (d, s, len, m))"

fun memcpy_little :: "nat \<Rightarrow> nat \<Rightarrow> nat \<Rightarrow> cmem \<Rightarrow> nat \<times> nat \<times> nat \<times> cmem" where
  "memcpy_little d s len m =
     (if 4 \<le> len then memcpy_little (d + 4) (s + 4) (len - 4) (copy_word d s m)
      else (d, s, len, m))"

fun copy_up :: "nat \<Rightarrow> nat \<Rightarrow> nat \<Rightarrow> cmem \<Rightarrow> cmem" where
  "copy_up d s n m = (if n = 0 then m else copy_up (d + 1) (s + 1) (n - 1) (m(d := m s)))"

fun copy_down :: "nat \<Rightarrow> nat \<Rightarrow> nat \<Rightarrow> cmem \<Rightarrow> cmem" where
  "copy_down d s n m =
     (if n = 0 then m else copy_down (d - 1) (s - 1) (n - 1) (m(d - 1 := m (s - 1))))"

declare memcpy_big.simps [simp del] memcpy_little.simps [simp del]
  copy_up.simps [simp del] copy_down.simps [simp del]

definition rt_memcpy :: "nat \<Rightarrow> nat \<Rightarrow> nat \<Rightarrow> cmem \<Rightarrow> cmem" where
  "rt_memcpy dst src count m =
     (if \<not> count < 16 \<and> src mod 4 = 0 \<and> dst mod 4 = 0 then
        let (d, s, len, m) = memcpy_big dst src count m;
            (d, s, len, m) = memcpy_little d s len m
        in copy_up d s len m
      else copy_up dst src count m)"

definition rt_memmove :: "nat \<Rightarrow> nat \<Rightarrow> nat \<Rightarrow> cmem \<Rightarrow> cmem" where
  "rt_memmove dst src n m =
     (if src < dst \<and> dst < src + n then copy_down (dst + n) (src + n) n m
      else copy_up dst src n m)"

section \<open>Strings\<close>

fun rt_memcmp :: "u8 list \<Rightarrow> u8 list \<Rightarrow> nat \<Rightarrow> int option" where
  "rt_memcmp cs ct count =
     (if count = 0 then Some 0
      else case (cs, ct) of
        (a # cs, b # ct) \<Rightarrow>
          (let res = uint a - uint b in if res \<noteq> 0 then Some res else rt_memcmp cs ct (count - 1))
      | _ \<Rightarrow> None)"

fun rt_strlen :: "u8 list \<Rightarrow> nat option" where
  "rt_strlen [] = None"
| "rt_strlen (c # s) = (if c = 0 then Some 0 else map_option Suc (rt_strlen s))"

text \<open>The loop test of \<^verbatim>\<open>rt_strnlen\<close> reads the character before it compares the length.\<close>

fun rt_strnlen :: "u8 list \<Rightarrow> nat \<Rightarrow> nat option" where
  "rt_strnlen [] maxlen = None"
| "rt_strnlen (c # s) maxlen =
     (if c \<noteq> 0 \<and> 0 < maxlen then map_option Suc (rt_strnlen s (maxlen - 1)) else Some 0)"

fun strstr_loop :: "u8 list \<Rightarrow> u8 list \<Rightarrow> nat \<Rightarrow> nat \<Rightarrow> nat \<Rightarrow> nat option option" where
  "strstr_loop s1 s2 l1 l2 pos =
     (if l2 \<le> l1 then
        (case rt_memcmp s1 s2 l2 of
           None \<Rightarrow> None
         | Some r \<Rightarrow>
             if r = 0 then Some (Some pos)
             else if l1 = 0 then Some None
             else strstr_loop (tl s1) s2 (l1 - 1) l2 (pos + 1))
      else Some None)"

definition rt_strstr :: "u8 list \<Rightarrow> u8 list \<Rightarrow> nat option option" where
  "rt_strstr s1 s2 = do {
     l2 \<leftarrow> rt_strlen s2;
     if l2 = 0 then Some (Some 0)
     else do {
       l1 \<leftarrow> rt_strlen s1;
       strstr_loop s1 s2 l1 l2 0
     }
   }"

definition to_lower :: "u8 \<Rightarrow> int" where
  "to_lower c = (if 65 \<le> uint c \<and> uint c \<le> 90 then uint c + 32 else uint c)"

fun rt_strcasecmp :: "u8 list \<Rightarrow> u8 list \<Rightarrow> u32 option" where
  "rt_strcasecmp (a # as) (b # bs) =
     (let ca = to_lower a; cb = to_lower b in
      if ca = cb \<and> ca \<noteq> 0 then rt_strcasecmp as bs else Some (word_of_int (ca - cb)))"
| "rt_strcasecmp _ _ = None"

text \<open>\<^verbatim>\<open>rt_strncpy\<close> on the destination bytes from the pointer on.\<close>

fun strncpy_loop :: "u8 list \<Rightarrow> u8 list \<Rightarrow> nat \<Rightarrow> u8 list option" where
  "strncpy_loop (d # dst) (c # src) (Suc n) =
     (if c = 0 then
        (if n \<le> length dst then Some (0 # replicate n 0 @ drop n dst) else None)
      else if n = 0 then Some (c # dst)
      else map_option ((#) c) (strncpy_loop dst src n))"
| "strncpy_loop _ _ _ = None"

definition rt_strncpy :: "u8 list \<Rightarrow> u8 list \<Rightarrow> nat \<Rightarrow> u8 list option" where
  "rt_strncpy dst src n = (if n \<noteq> 0 then strncpy_loop dst src n else Some dst)"

text \<open>The result of \<^verbatim>\<open>rt_strncmp\<close> is the difference cut to a \<^verbatim>\<open>signed char\<close>.\<close>

definition signed_char :: "int \<Rightarrow> int" where
  "signed_char x = sint (word_of_int x :: u8)"

fun rt_strncmp :: "u8 list \<Rightarrow> u8 list \<Rightarrow> nat \<Rightarrow> int option" where
  "rt_strncmp cs ct count =
     (if count = 0 then Some 0
      else case (cs, ct) of
        (a # cs, b # ct) \<Rightarrow>
          (let res = signed_char (uint a - uint b) in
           if res \<noteq> 0 \<or> a = 0 then Some res else rt_strncmp cs ct (count - 1))
      | _ \<Rightarrow> None)"

fun rt_strcmp :: "u8 list \<Rightarrow> u8 list \<Rightarrow> int option" where
  "rt_strcmp (a # cs) (b # ct) =
     (if a \<noteq> 0 \<and> a = b then rt_strcmp cs ct else Some (uint a - uint b))"
| "rt_strcmp _ _ = None"

declare rt_memcmp.simps [simp del] strstr_loop.simps [simp del] rt_strncmp.simps [simp del]

section \<open>Find first set\<close>

definition lowest_bit_row :: "nat \<Rightarrow> nat list" where
  "lowest_bit_row n = [n, 0, 1, 0, 2, 0, 1, 0, 3, 0, 1, 0, 2, 0, 1, 0]"

definition lowest_bit_bitmap :: "nat list" where
  "lowest_bit_bitmap =
     concat (map lowest_bit_row [0, 4, 5, 4, 6, 4, 5, 4, 7, 4, 5, 4, 6, 4, 5, 4])"

definition rt_ffs :: "u32 \<Rightarrow> nat" where
  "rt_ffs v =
     (if v = 0 then 0
      else if v AND 0xFF \<noteq> 0 then lowest_bit_bitmap ! unat (v AND 0xFF) + 1
      else if v AND 0xFF00 \<noteq> 0 then lowest_bit_bitmap ! unat (drop_bit 8 (v AND 0xFF00)) + 9
      else if v AND 0xFF0000 \<noteq> 0 then lowest_bit_bitmap ! unat (drop_bit 16 (v AND 0xFF0000)) + 17
      else lowest_bit_bitmap ! unat (drop_bit 24 (v AND 0xFF000000)) + 25)"

text \<open>Every byte of the table gives the lowest set bit of its index.\<close>

lemma nth_concat_rows:
  assumes "\<And>x. length (f x) = n" "i < length xs" "j < n"
  shows "concat (map f xs) ! (n * i + j) = f (xs ! i) ! j"
  using assms(2)
proof (induction xs arbitrary: i)
  case (Cons x xs)
  then show ?case using assms(1,3)
    by (cases i) (auto simp: nth_append algebra_simps)
qed simp

lemma lowest_bit_row_low:
  "\<forall>j\<in>set [1..<16]. let k = lowest_bit_row x ! j in
     k < 4 \<and> bit j k \<and> (\<forall>i\<in>set [0..<k]. \<not> bit j i)"
  by code_simp

lemma lowest_bit_row_high:
  "\<forall>j\<in>set [1..<16]. let k = [0, 4, 5, 4, 6, 4, 5, 4, 7, 4, 5, 4, 6, 4, 5, 4] ! j - 4 in
     4 \<le> [0, 4, 5, 4, 6, 4, 5, 4, 7, 4, 5, 4, 6, 4, 5, 4 :: nat] ! j \<and>
     k < 4 \<and> bit j k \<and> (\<forall>i\<in>set [0..<k]. \<not> bit j i)"
  by code_simp

lemma bit_mod16: "bit (b mod 16 :: nat) i \<longleftrightarrow> i < 4 \<and> bit b i"
  using bit_take_bit_iff[of 4 b i] by (simp add: take_bit_eq_mod)

lemma bit_div16: "bit (b div 16 :: nat) i \<longleftrightarrow> bit b (4 + i)"
  using bit_drop_bit_eq[of 4 b] by (simp add: drop_bit_eq_div)

lemma lowest_bit_bitmap_nth:
  assumes "0 < b" "b < 256"
  shows "lowest_bit_bitmap ! b < 8" "bit b (lowest_bit_bitmap ! b)"
    "i < lowest_bit_bitmap ! b \<Longrightarrow> \<not> bit b i"
proof -
  let ?tops = "[0, 4, 5, 4, 6, 4, 5, 4, 7, 4, 5, 4, 6, 4, 5, 4 :: nat]"
  have n: "lowest_bit_bitmap ! b = lowest_bit_row (?tops ! (b div 16)) ! (b mod 16)"
    using nth_concat_rows[of lowest_bit_row 16 "b div 16" ?tops "b mod 16"] assms(2)
    by (simp add: lowest_bit_bitmap_def lowest_bit_row_def)
  have "lowest_bit_bitmap ! b < 8 \<and> bit b (lowest_bit_bitmap ! b) \<and>
    (\<forall>i<lowest_bit_bitmap ! b. \<not> bit b i)"
  proof (cases "b mod 16 = 0")
    case False
    then have "b mod 16 \<in> set [1..<16]" by simp
    from bspec[OF lowest_bit_row_low this, of "?tops ! (b div 16)"] show ?thesis
      unfolding n by (auto simp: Let_def bit_mod16)
  next
    case True
    then have d: "b div 16 \<in> set [1..<16]" using assms by auto
    have low: "i < 4 \<Longrightarrow> \<not> bit b i" for i using bit_mod16[of b i] True by simp
    let ?t = "?tops ! (b div 16)"
    have t: "4 \<le> ?t" "?t - 4 < 4" "bit (b div 16) (?t - 4)"
      "\<And>i. i < ?t - 4 \<Longrightarrow> \<not> bit (b div 16) i"
      using bspec[OF lowest_bit_row_high d] by (auto simp: Let_def)
    have "bit b ?t" using t(1,3) by (simp add: bit_div16)
    moreover have "\<not> bit b i" if "i < ?t" for i
    proof (cases "i < 4")
      case False
      then show ?thesis using t(4)[of "i - 4"] that by (simp add: bit_div16)
    qed (use low in simp)
    ultimately show ?thesis unfolding n using t True by (simp add: lowest_bit_row_def)
  qed
  then show "lowest_bit_bitmap ! b < 8" "bit b (lowest_bit_bitmap ! b)"
    "i < lowest_bit_bitmap ! b \<Longrightarrow> \<not> bit b i" by auto
qed

lemma byte_masks:
  "(0xFF :: u32) = mask 8" "(0xFF00 :: u32) = push_bit 8 (mask 8)"
  "(0xFF0000 :: u32) = push_bit 16 (mask 8)" "(0xFF000000 :: u32) = push_bit 24 (mask 8)"
  by (simp_all add: mask_eq_exp_minus_1 push_bit_eq_mult)

lemma bit_byte_slice:
  fixes v :: u32
  assumes "s \<le> 24"
  shows "bit (drop_bit s (v AND push_bit s (mask 8))) i \<longleftrightarrow> i < 8 \<and> bit v (s + i)"
  using assms by (auto simp: bit_drop_bit_eq bit_and_iff bit_push_bit_iff bit_mask_iff)

lemma byte_slice_lowest:
  fixes v :: u32
  assumes s: "s \<le> 24" and b: "b = unat (drop_bit s (v AND push_bit s (mask 8)))"
    and nz: "v AND push_bit s (mask 8) \<noteq> 0"
  shows "lowest_bit_bitmap ! b < 8" "bit v (s + lowest_bit_bitmap ! b)"
    "i < lowest_bit_bitmap ! b \<Longrightarrow> \<not> bit v (s + i)"
proof -
  let ?w = "drop_bit s (v AND push_bit s (mask 8))"
  have w: "bit ?w j \<longleftrightarrow> j < 8 \<and> bit v (s + j)" for j using bit_byte_slice[OF s] .
  have bb: "bit b j \<longleftrightarrow> j < 8 \<and> bit v (s + j)" for j
    using w by (simp add: b bit_unsigned_iff)
  obtain k where k: "bit (v AND push_bit s (mask 8)) k"
    using nz by (auto simp: bit_eq_iff)
  then have "s \<le> k" "k - s < 8" "bit v k"
    by (auto simp: bit_and_iff bit_push_bit_iff bit_mask_iff)
  then have "bit b (k - s)" by (simp add: bb)
  then have pos: "0 < b" by (cases b) auto
  have "take_bit 8 b = b" by (rule bit_eqI) (auto simp: bit_take_bit_iff bb)
  then have lt: "b < 256" using take_bit_nat_less_exp[of 8 b] by simp
  note t = lowest_bit_bitmap_nth[OF pos lt]
  show l: "lowest_bit_bitmap ! b < 8" by (rule t)
  show "bit v (s + lowest_bit_bitmap ! b)" using t(2) by (simp add: bb)
  show "\<not> bit v (s + i)" if "i < lowest_bit_bitmap ! b"
    using t(3)[OF that] that l by (simp add: bb)
qed

lemma byte_zero_bits:
  fixes v :: u32
  assumes "v AND push_bit s (mask 8) = 0" "s \<le> i" "i < s + 8"
  shows "\<not> bit v i"
proof
  assume "bit v i"
  then have "bit (v AND push_bit s (mask 8)) i"
    using assms(2,3) bit_imp_le_length[of v i]
    by (auto simp: bit_and_iff bit_push_bit_iff bit_mask_iff)
  then show False using assms(1) by simp
qed

definition lowest_set :: "u32 \<Rightarrow> nat \<Rightarrow> bool" where
  "lowest_set v k \<longleftrightarrow> k < 32 \<and> bit v k \<and> (\<forall>i<k. \<not> bit v i)"

lemma lowest_set_slice:
  fixes v :: u32
  assumes s: "s \<le> 24" and nz: "v AND push_bit s (mask 8) \<noteq> 0"
    and low: "\<And>i. i < s \<Longrightarrow> \<not> bit v i"
  shows "lowest_set v (s + lowest_bit_bitmap ! unat (drop_bit s (v AND push_bit s (mask 8))))"
proof -
  note t = byte_slice_lowest[OF s refl nz]
  show ?thesis
    unfolding lowest_set_def
  proof (intro conjI allI impI)
    fix i assume i: "i < s + lowest_bit_bitmap ! unat (drop_bit s (v AND push_bit s (mask 8)))"
    show "\<not> bit v i"
    proof (cases "i < s")
      case False
      then show ?thesis using t(3)[of "i - s"] i by auto
    qed (use low in simp)
  qed (use t s in auto)
qed

lemma rt_ffs_lowest_set:
  assumes "v \<noteq> 0"
  shows "0 < rt_ffs v" "lowest_set v (rt_ffs v - 1)"
proof -
  have z0: "v AND 0xFF = 0 \<Longrightarrow> i < 8 \<Longrightarrow> \<not> bit v i" for i
    using byte_zero_bits[of v 0 i] by (simp add: byte_masks)
  have z1: "v AND 0xFF00 = 0 \<Longrightarrow> 8 \<le> i \<Longrightarrow> i < 16 \<Longrightarrow> \<not> bit v i" for i
    using byte_zero_bits[of v 8 i] by (simp add: byte_masks)
  have z2: "v AND 0xFF0000 = 0 \<Longrightarrow> 16 \<le> i \<Longrightarrow> i < 24 \<Longrightarrow> \<not> bit v i" for i
    using byte_zero_bits[of v 16 i] by (simp add: byte_masks)
  have z3: "v AND 0xFF000000 = 0 \<Longrightarrow> 24 \<le> i \<Longrightarrow> \<not> bit v i" for i
    using byte_zero_bits[of v 24 i] bit_imp_le_length[of v i]
    by (cases "i < 32") (auto simp: byte_masks)
  consider (b0) "v AND 0xFF \<noteq> 0"
    | (b1) "v AND 0xFF = 0" "v AND 0xFF00 \<noteq> 0"
    | (b2) "v AND 0xFF = 0" "v AND 0xFF00 = 0" "v AND 0xFF0000 \<noteq> 0"
    | (b3) "v AND 0xFF = 0" "v AND 0xFF00 = 0" "v AND 0xFF0000 = 0" "v AND 0xFF000000 \<noteq> 0"
  proof -
    have "v = 0" if "v AND 0xFF = 0" "v AND 0xFF00 = 0" "v AND 0xFF0000 = 0" "v AND 0xFF000000 = 0"
    proof (rule bit_eqI)
      fix i show "bit v i = bit 0 i"
        using z0[OF that(1), of i] z1[OF that(2), of i] z2[OF that(3), of i] z3[OF that(4), of i]
        by (cases "i < 8"; cases "i < 16"; cases "i < 24") auto
    qed
    then show ?thesis using assms that by blast
  qed
  then have "0 < rt_ffs v \<and> lowest_set v (rt_ffs v - 1)"
  proof cases
    case b0
    then show ?thesis using assms lowest_set_slice[of 0 v] by (simp add: rt_ffs_def byte_masks)
  next
    case b1
    then show ?thesis using assms lowest_set_slice[of 8 v] z0
      by (simp add: rt_ffs_def byte_masks add.commute)
  next
    case b2
    then have "\<not> bit v i" if "i < 16" for i using z0[of i] z1[of i] that by (cases "i < 8") auto
    then show ?thesis using b2 assms lowest_set_slice[of 16 v]
      by (simp add: rt_ffs_def byte_masks add.commute)
  next
    case b3
    then have "\<not> bit v i" if "i < 24" for i
      using z0[of i] z1[of i] z2[of i] that by (cases "i < 8"; cases "i < 16") auto
    then show ?thesis using b3 assms lowest_set_slice[of 24 v]
      by (simp add: rt_ffs_def byte_masks add.commute)
  qed
  then show "0 < rt_ffs v" "lowest_set v (rt_ffs v - 1)" by auto
qed

lemma lowest_set_unique: "lowest_set v j \<Longrightarrow> lowest_set v k \<Longrightarrow> j = k"
  unfolding lowest_set_def by (metis linorder_neqE_nat)

lemma rt_ffs_zero [simp]: "rt_ffs 0 = 0"
  by (simp add: rt_ffs_def)

lemma rt_ffs_eq_Suc: "lowest_set v k \<Longrightarrow> rt_ffs v = Suc k"
  using rt_ffs_lowest_set[of v] lowest_set_unique[of v k "rt_ffs v - 1"]
  by (cases "v = 0") (auto simp: lowest_set_def)

section \<open>The memory routines meet their bytewise specifications\<close>

lemma byte_fill_0 [simp]: "byte_fill a 0 d m = m"
  by (auto simp: byte_fill_def fun_eq_iff)

lemma byte_fill_add: "byte_fill (a + k) n d (byte_fill a k d m) = byte_fill a (k + n) d m"
  by (auto simp: byte_fill_def fun_eq_iff)

lemma byte_fill_upd: "byte_fill (Suc a) n d (m(a := d)) = byte_fill a (Suc n) d m"
  by (auto simp: byte_fill_def fun_eq_iff)

definition splat :: "u8 \<Rightarrow> u32 \<Rightarrow> bool" where
  "splat d w \<longleftrightarrow> ucast w = d \<and> ucast (drop_bit 8 w) = d \<and> ucast (drop_bit 16 w) = d \<and>
     ucast (drop_bit 24 w) = d"

lemma store32_splat: "splat d w \<Longrightarrow> store32 a w m = byte_fill a 4 d m"
  by (auto simp: splat_def store32_def byte_fill_def fun_eq_iff)

lemma splat_buffer:
  fixes c :: u32
  defines "d \<equiv> c AND 0xFF"
  defines "b \<equiv> push_bit 8 d OR d"
  shows "splat (ucast d) (b OR push_bit 16 b)"
  unfolding splat_def b_def d_def byte_masks
  by (intro conjI; rule bit_word_eqI)
    (auto simp: bit_simps)

lemma memset_little_fill:
  "splat d w \<Longrightarrow>
   memset_little p w n m = (p + 4 * (n div 4), n mod 4, byte_fill p (4 * (n div 4)) d m)"
proof (induction p w n m rule: memset_little.induct)
  case (1 p w n m)
  show ?case
  proof (cases "4 \<le> n")
    case True
    then have n: "n div 4 = Suc ((n - 4) div 4)" "n mod 4 = (n - 4) mod 4"
      by (simp_all add: le_div_geq le_mod_geq)
    show ?thesis
      using 1(1)[OF True 1(2)] True 1(2)
      by (subst memset_little.simps) (simp add: store32_splat byte_fill_add n)
  qed (subst memset_little.simps, simp)
qed

lemma memset_big_fill:
  "splat d w \<Longrightarrow>
   memset_big p w n m = (p + 16 * (n div 16), n mod 16, byte_fill p (16 * (n div 16)) d m)"
proof (induction p w n m rule: memset_big.induct)
  case (1 p w n m)
  have block: "store32 (p + 12) w (store32 (p + 8) w (store32 (p + 4) w (store32 p w m))) =
    byte_fill p 16 d m"
    using byte_fill_add[of p 4 4 d m] byte_fill_add[of p 8 4 d m] byte_fill_add[of p 12 4 d m]
    by (simp add: store32_splat[OF 1(2)])
  show ?case
  proof (cases "16 \<le> n")
    case True
    then have n: "n div 16 = Suc ((n - 16) div 16)" "n mod 16 = (n - 16) mod 16"
      by (simp_all add: le_div_geq le_mod_geq)
    show ?thesis
      using 1(1)[OF True 1(2)] True
      by (subst memset_big.simps) (simp add: block byte_fill_add n)
  qed (subst memset_big.simps, simp)
qed

lemma memset_bytes_fill: "memset_bytes p d n m = byte_fill p n d m"
proof (induction n arbitrary: p m)
  case 0
  then show ?case by (subst memset_bytes.simps) simp
next
  case (Suc n)
  then show ?case
    using byte_fill_upd[of p n d m] by (subst memset_bytes.simps) (simp add: fun_upd_def)
qed

lemma rt_memset_fill: "rt_memset s c n m = byte_fill s n (ucast (c AND 0xFF)) m"
proof -
  define d where "d = c AND 0xFF"
  note sp = splat_buffer[of c, folded d_def]
  have n16: "16 * (n div 16) + (4 * (n mod 16 div 4) + n mod 16 mod 4) = n"
    by (metis mult_div_mod_eq)
  show ?thesis
    unfolding rt_memset_def Let_def d_def[symmetric]
    by (simp only: memset_big_fill[OF sp] memset_little_fill[OF sp] memset_bytes_fill
        byte_fill_add n16 add.assoc prod.case if_cancel)
qed

lemma ucast_load32:
  "ucast (load32 a m) = m a" "ucast (drop_bit 8 (load32 a m)) = m (a + 1)"
  "ucast (drop_bit 16 (load32 a m)) = m (a + 2)" "ucast (drop_bit 24 (load32 a m)) = m (a + 3)"
  unfolding load32_def
  by (rule bit_word_eqI; auto simp: bit_simps bit_word_cat_iff)+

lemma copy_word_byte_copy: "copy_word d s m = byte_copy d s 4 m"
proof
  fix x
  have "x = d \<or> x = d + 1 \<or> x = d + 2 \<or> x = d + 3 \<or> x < d \<or> d + 4 \<le> x" by linarith
  then show "copy_word d s m x = byte_copy d s 4 m x"
    by (elim disjE) (simp_all add: copy_word_def store32_def ucast_load32 byte_copy_def)
qed

text \<open>Copying upwards in pieces is one copy when the destination does not lie inside the
  source above its start.\<close>

lemma byte_copy_0 [simp]: "byte_copy d s 0 m = m"
  by (auto simp: byte_copy_def fun_eq_iff)

lemma byte_copy_add:
  "d \<le> s \<or> s + (k + n) \<le> d \<Longrightarrow>
   byte_copy (d + k) (s + k) n (byte_copy d s k m) = byte_copy d s (k + n) m"
  by (auto simp: byte_copy_def fun_eq_iff intro!: arg_cong[of _ _ m])

lemma copy_up_byte_copy:
  "d \<le> s \<or> s + n \<le> d \<Longrightarrow> copy_up d s n m = byte_copy d s n m"
proof (induction n arbitrary: d s m)
  case 0
  then show ?case by (subst copy_up.simps) simp
next
  case (Suc n)
  have one: "m(d := m s) = byte_copy d s 1 m" by (auto simp: byte_copy_def fun_eq_iff)
  show ?case
    using Suc.prems Suc.IH[of "d + 1" "s + 1" "byte_copy d s 1 m"] byte_copy_add[of d s 1 n m]
    by (subst copy_up.simps) (simp add: one, linarith)
qed

lemma copy_down_byte_copy:
  assumes "s \<le> d"
  shows "copy_down (d + n) (s + n) n m = byte_copy d s n m"
proof (induction n arbitrary: m)
  case 0
  then show ?case by (subst copy_down.simps) simp
next
  case (Suc n)
  have "copy_down (d + Suc n) (s + Suc n) (Suc n) m =
    copy_down (d + n) (s + n) n (m(d + n := m (s + n)))"
    by (subst copy_down.simps) simp
  also have "\<dots> = byte_copy d s n (m(d + n := m (s + n)))" by (rule Suc)
  also have "\<dots> = byte_copy d s (Suc n) m"
    using assms by (auto simp: byte_copy_def fun_eq_iff less_Suc_eq)
  finally show ?case .
qed

lemma memcpy_little_copy:
  "d \<le> s \<or> s + n \<le> d \<Longrightarrow>
   memcpy_little d s n m =
     (d + 4 * (n div 4), s + 4 * (n div 4), n mod 4, byte_copy d s (4 * (n div 4)) m)"
proof (induction d s n m rule: memcpy_little.induct)
  case (1 d s n m)
  show ?case
  proof (cases "4 \<le> n")
    case True
    then have n: "n div 4 = Suc ((n - 4) div 4)" "n mod 4 = (n - 4) mod 4"
      by (simp_all add: le_div_geq le_mod_geq)
    have "4 + 4 * ((n - 4) div 4) \<le> n" using True by simp
    then have "d \<le> s \<or> s + (4 + 4 * ((n - 4) div 4)) \<le> d" using 1(2) by linarith
    moreover have "d + 4 \<le> s + 4 \<or> s + 4 + (n - 4) \<le> d + 4" using 1(2) True by linarith
    ultimately show ?thesis
      using 1(1)[OF True] True
      by (subst memcpy_little.simps) (simp add: copy_word_byte_copy byte_copy_add n)
  qed (subst memcpy_little.simps, simp)
qed

lemma memcpy_big_copy:
  "d \<le> s \<or> s + n \<le> d \<Longrightarrow>
   memcpy_big d s n m =
     (d + 16 * (n div 16), s + 16 * (n div 16), n mod 16, byte_copy d s (16 * (n div 16)) m)"
proof (induction d s n m rule: memcpy_big.induct)
  case (1 d s n m)
  show ?case
  proof (cases "16 \<le> n")
    case True
    then have n: "n div 16 = Suc ((n - 16) div 16)" "n mod 16 = (n - 16) mod 16"
      by (simp_all add: le_div_geq le_mod_geq)
    have safe: "d \<le> s \<or> s + (4 + 4) \<le> d" "d \<le> s \<or> s + (8 + 4) \<le> d" "d \<le> s \<or> s + (12 + 4) \<le> d"
      using 1(2) True by linarith+
    have block: "copy_word (d + 12) (s + 12) (copy_word (d + 8) (s + 8)
        (copy_word (d + 4) (s + 4) (copy_word d s m))) = byte_copy d s 16 m"
      using byte_copy_add[of d s 4 4 m] byte_copy_add[of d s 8 4 m] byte_copy_add[of d s 12 4 m]
        safe by (simp add: copy_word_byte_copy)
    have "16 + 16 * ((n - 16) div 16) \<le> n" using True by simp
    then have "d \<le> s \<or> s + (16 + 16 * ((n - 16) div 16)) \<le> d" using 1(2) by linarith
    moreover have "d + 16 \<le> s + 16 \<or> s + 16 + (n - 16) \<le> d + 16" using 1(2) True by linarith
    ultimately show ?thesis
      using 1(1)[OF True] True
      by (subst memcpy_big.simps) (simp add: block byte_copy_add n)
  qed (subst memcpy_big.simps, simp)
qed

lemma rt_memcpy_byte_copy:
  assumes "dst \<le> src \<or> src + n \<le> dst"
  shows "rt_memcpy dst src n m = byte_copy dst src n m"
proof -
  let ?k = "16 * (n div 16)" and ?l = "4 * (n mod 16 div 4)"
  have n16: "?k + (?l + n mod 16 mod 4) = n" "?k + n mod 16 = n" "?l + n mod 16 mod 4 = n mod 16"
    by (metis mult_div_mod_eq)+
  have a: "dst + ?k \<le> src + ?k \<or> src + ?k + n mod 16 \<le> dst + ?k"
    using assms n16(2) by linarith
  have b: "dst + ?k + ?l \<le> src + ?k + ?l \<or> src + ?k + ?l + n mod 16 mod 4 \<le> dst + ?k + ?l"
    using assms n16 by linarith
  have "byte_copy (dst + ?k) (src + ?k) (?l + n mod 16 mod 4) (byte_copy dst src ?k m) =
    byte_copy dst src n m"
    using byte_copy_add[of dst src ?k "?l + n mod 16 mod 4" m] assms n16 by simp
  moreover have "byte_copy (dst + ?k + ?l) (src + ?k + ?l) (n mod 16 mod 4)
      (byte_copy (dst + ?k) (src + ?k) ?l m') =
    byte_copy (dst + ?k) (src + ?k) (?l + n mod 16 mod 4) m'" for m'
    by (rule byte_copy_add) (use a n16 in linarith)
  ultimately show ?thesis
    unfolding rt_memcpy_def
    by (simp only: memcpy_big_copy[OF assms] memcpy_little_copy[OF a] copy_up_byte_copy[OF b]
        copy_up_byte_copy[OF assms] prod.case Let_def if_cancel)
qed

lemma rt_memmove_byte_copy: "rt_memmove dst src n m = byte_copy dst src n m"
  by (auto simp: rt_memmove_def copy_down_byte_copy intro!: copy_up_byte_copy)

section \<open>The string routines\<close>

text \<open>A C string in a buffer: the characters before the first terminator.\<close>

definition cstr :: "u8 list \<Rightarrow> u8 list" where
  "cstr s = takeWhile (\<lambda>c. c \<noteq> 0) s"

lemma cstr_simps [simp]: "cstr [] = []" "cstr (0 # s) = []" "c \<noteq> 0 \<Longrightarrow> cstr (c # s) = c # cstr s"
  by (auto simp: cstr_def)

lemma rt_strlen_cstr: "0 \<in> set s \<Longrightarrow> rt_strlen s = Some (length (cstr s))"
  by (induction s) auto

lemma rt_strlen_unterminated: "0 \<notin> set s \<Longrightarrow> rt_strlen s = None"
  by (induction s) auto

lemma rt_strnlen_cstr:
  "0 \<in> set s \<Longrightarrow> rt_strnlen s n = Some (min n (length (cstr s)))"
  by (induction s arbitrary: n) (auto simp: min_def)

lemma rt_strcmp_cstr:
  "0 \<in> set s \<Longrightarrow> 0 \<in> set t \<Longrightarrow> \<exists>r. rt_strcmp s t = Some r \<and> (r = 0 \<longleftrightarrow> cstr s = cstr t)"
proof (induction s t rule: rt_strcmp.induct)
  case (1 a cs b ct)
  then show ?case
    by (cases "a = 0"; cases "b = 0") (auto simp: cstr_def word_uint_eq_iff)
qed auto

lemma signed_char_diff_0: "signed_char (uint (a :: u8) - uint b) = 0 \<longleftrightarrow> a = b"
proof -
  have "(word_of_int (uint a - uint b) :: u8) = a - b" by simp
  then show ?thesis by (metis signed_char_def signed_0 signed_eq_0_iff right_minus_eq)
qed

text \<open>\<^verbatim>\<open>rt_strncmp\<close> decides equality of the first \<open>n\<close> characters; a buffer of at least \<open>n\<close> bytes
  needs no terminator.\<close>

lemma rt_strncmp_cstr:
  "0 \<in> set s \<or> n \<le> length s \<Longrightarrow> 0 \<in> set t \<or> n \<le> length t \<Longrightarrow>
   \<exists>r. rt_strncmp s t n = Some r \<and> (r = 0 \<longleftrightarrow> take n (cstr s) = take n (cstr t))"
proof (induction n arbitrary: s t)
  case 0
  then show ?case by (subst rt_strncmp.simps) simp
next
  case (Suc n)
  obtain a s' b t' where st: "s = a # s'" "t = b # t'"
    using Suc.prems by (cases s; cases t) auto
  show ?case
  proof (cases "a = b \<and> a \<noteq> 0")
    case True
    then have "0 \<in> set s' \<or> n \<le> length s'" "0 \<in> set t' \<or> n \<le> length t'"
      using Suc.prems st by auto
    from Suc.IH[OF this] show ?thesis
      using True st by (subst rt_strncmp.simps) (auto simp: signed_char_def)
  next
    case False
    then show ?thesis
      using st signed_char_diff_0[of a b]
      by (subst rt_strncmp.simps) (cases "a = 0"; cases "b = 0"; auto simp: signed_char_diff_0)
  qed
qed

text \<open>\<^verbatim>\<open>rt_strncpy\<close> writes exactly \<open>n\<close> bytes: the string cut to \<open>n\<close> and zero padding.\<close>

lemma strncpy_loop_cstr:
  "0 \<in> set src \<Longrightarrow> 0 < n \<Longrightarrow> n \<le> length dst \<Longrightarrow>
   strncpy_loop dst src n =
     Some (take n (cstr src) @ replicate (n - length (cstr src)) 0 @ drop n dst)"
proof (induction dst src n rule: strncpy_loop.induct)
  case (1 d dst c src n)
  then show ?case by (cases n) auto
qed auto

lemma rt_strncpy_cstr:
  "0 \<in> set src \<Longrightarrow> n \<le> length dst \<Longrightarrow>
   rt_strncpy dst src n =
     Some (take n (cstr src) @ replicate (n - length (cstr src)) 0 @ drop n dst)"
  by (simp add: rt_strncpy_def strncpy_loop_cstr)

lemma cstr_append_nonzero: "0 \<notin> set a \<Longrightarrow> cstr (a @ b) = a @ cstr b"
  by (induction a) auto

lemma cstr_nonzero: "0 \<notin> set (cstr s)"
  by (induction s) (auto simp: cstr_def)

lemma cstr_replicate_0 [simp]: "cstr (replicate n 0) = []"
  by (cases n) auto

lemma length_rt_strncpy:
  "rt_strncpy dst src n = Some d \<Longrightarrow> length d = length dst"
proof -
  have "strncpy_loop dst src n = Some d \<Longrightarrow> length d = length dst" for d
    by (induction dst src n arbitrary: d rule: strncpy_loop.induct) (auto split: if_splits)
  then show "rt_strncpy dst src n = Some d \<Longrightarrow> length d = length dst"
    by (auto simp: rt_strncpy_def split: if_splits)
qed

text \<open>A copied name compares equal to its source.\<close>

lemma strncpy_strncmp:
  assumes src: "0 \<in> set src" and n: "length dst = n"
  shows "\<exists>d. rt_strncpy dst src n = Some d \<and> rt_strncmp d src n = Some 0"
proof -
  let ?d = "take n (cstr src) @ replicate (n - length (cstr src)) 0"
  have c: "rt_strncpy dst src n = Some ?d" using rt_strncpy_cstr[OF src, of n dst] n by simp
  have "0 \<notin> set (take n (cstr src))" using cstr_nonzero[of src] by (meson in_set_takeD)
  then have "cstr ?d = take n (cstr src)" by (simp add: cstr_append_nonzero)
  then have "take n (cstr ?d) = take n (cstr src)" by simp
  then show ?thesis using c rt_strncmp_cstr[of ?d n src] src by auto
qed

text \<open>\<^verbatim>\<open>rt_memcmp\<close> decides equality of two buffers of \<open>n\<close> bytes.\<close>

lemma rt_memcmp_take:
  "n \<le> length s \<Longrightarrow> n \<le> length t \<Longrightarrow>
   \<exists>r. rt_memcmp s t n = Some r \<and> (r = 0 \<longleftrightarrow> take n s = take n t)"
proof (induction n arbitrary: s t)
  case 0
  then show ?case by (subst rt_memcmp.simps) simp
next
  case (Suc n)
  obtain a s' b t' where st: "s = a # s'" "t = b # t'"
    using Suc.prems by (cases s; cases t) auto
  then obtain r where "rt_memcmp s' t' n = Some r" "r = 0 \<longleftrightarrow> take n s' = take n t'"
    using Suc.IH[of s' t'] Suc.prems by auto
  then show ?case
    using st by (subst rt_memcmp.simps) (auto simp: word_uint_eq_iff)
qed

end
