(* ===== verification/Mem.thy ===== *)
theory Mem
  imports KService
begin

text \<open>
  The small memory manager of \<^verbatim>\<open>src/mem.c\<close>: a heap of blocks, each behind a header
  \<^verbatim>\<open>struct heap_mem\<close> that holds the offsets of its neighbours. A header is found by its
  offset from \<^verbatim>\<open>heap_ptr\<close>; payload bytes live in \<open>ram\<close> under their absolute address. The headers
  are kept apart from \<open>ram\<close>, although in C they are bytes of the same memory: what is stated of \<open>ram\<close>
  is stated of payload bytes. The
  pointers \<^verbatim>\<open>heap_end\<close> and \<^verbatim>\<open>lfree\<close> are offsets too. Sizes are 32 bits wide: \<open>add32\<close> and
  \<open>sub32\<close> wrap as the C arithmetic does.

  The functions are the bodies of the calls on the heap alone. The check that a call is not made in
  an interrupt is in the functions \<open>k_malloc\<close>, \<open>k_realloc\<close>, \<open>k_calloc\<close>, \<open>k_free\<close> and \<open>k_system_heap_init\<close> of
  \<open>KObject\<close>, which apply them to the heap of the kernel. The heap semaphore is no part of the state:
  its initialisation is left out, and each call is one atomic step. A call releases the semaphore as
  often as it takes it; a growing \<^verbatim>\<open>rt_realloc\<close> releases it before it calls \<^verbatim>\<open>rt_malloc\<close> and \<^verbatim>\<open>rt_free\<close>, each of
  which takes it again, so that calls of other threads could come in between there. A failed
  \<^verbatim>\<open>RT_ASSERT\<close>, and a search that does not end on a corrupted heap, is \<open>None\<close>.
\<close>

definition add32 :: "nat \<Rightarrow> nat \<Rightarrow> nat" where
  "add32 a b = (a + b) mod 2 ^ 32"

definition sub32 :: "nat \<Rightarrow> nat \<Rightarrow> nat" where
  "sub32 a b = (a + (2 ^ 32 - b mod 2 ^ 32)) mod 2 ^ 32"

definition mul32 :: "nat \<Rightarrow> nat \<Rightarrow> nat" where
  "mul32 a b = (a * b) mod 2 ^ 32"

definition align_down4 :: "nat \<Rightarrow> nat" where
  "align_down4 x = x - x mod 4"

definition align4 :: "nat \<Rightarrow> nat" where
  "align4 x = align_down4 (add32 x 3)"

abbreviation (input) HEAP_MAGIC :: u16 where "HEAP_MAGIC \<equiv> 0x1ea0"
abbreviation (input) MIN_SIZE_ALIGNED :: nat where "MIN_SIZE_ALIGNED \<equiv> 12"
abbreviation (input) SIZEOF_STRUCT_MEM :: nat where "SIZEOF_STRUCT_MEM \<equiv> 12"

record heap_mem =
  magic :: u16
  used :: u16
  hnext :: nat
  hprev :: nat

record heap =
  heap_ptr :: nat
  heap_end :: nat
  lfree :: nat
  mem_size_aligned :: nat
  used_mem :: nat
  max_mem :: nat
  blk :: "nat \<Rightarrow> heap_mem"
  ram :: cmem

definition upd_blk :: "nat \<Rightarrow> (heap_mem \<Rightarrow> heap_mem) \<Rightarrow> heap \<Rightarrow> heap" where
  "upd_blk p f h = h\<lparr>blk := (blk h)(p := f (blk h p))\<rparr>"

definition add_used :: "nat \<Rightarrow> heap \<Rightarrow> heap" where
  "add_used n h =
     (let h = h\<lparr>used_mem := add32 (used_mem h) n\<rparr>
      in if max_mem h < used_mem h then h\<lparr>max_mem := used_mem h\<rparr> else h)"

definition plug_forward :: "nat \<Rightarrow> heap \<Rightarrow> heap" where
  "plug_forward mem h =
     (let nmem = hnext (blk h mem) in
      if mem \<noteq> nmem \<and> used (blk h nmem) = 0 \<and> nmem \<noteq> heap_end h then
        let h = (if lfree h = nmem then h\<lparr>lfree := mem\<rparr> else h);
            h = upd_blk mem (\<lambda>b. b\<lparr>hnext := hnext (blk h nmem)\<rparr>) h
        in upd_blk (hnext (blk h nmem)) (\<lambda>b. b\<lparr>hprev := mem\<rparr>) h
      else h)"

definition plug_backward :: "nat \<Rightarrow> heap \<Rightarrow> heap" where
  "plug_backward mem h =
     (let pmem = hprev (blk h mem) in
      if pmem \<noteq> mem \<and> used (blk h pmem) = 0 then
        let h = (if lfree h = mem then h\<lparr>lfree := pmem\<rparr> else h);
            h = upd_blk pmem (\<lambda>b. b\<lparr>hnext := hnext (blk h mem)\<rparr>) h
        in upd_blk (hnext (blk h mem)) (\<lambda>b. b\<lparr>hprev := pmem\<rparr>) h
      else h)"

definition plug_holes :: "nat \<Rightarrow> heap \<Rightarrow> heap option" where
  "plug_holes mem h = do {
     RT_ASSERT (mem < heap_end h);
     RT_ASSERT (used (blk h mem) = 0);
     Some (plug_backward mem (plug_forward mem h))
   }"

definition rt_system_heap_init :: "nat \<Rightarrow> nat \<Rightarrow> heap \<Rightarrow> heap" where
  "rt_system_heap_init begin_addr end_addr h =
     (let begin_align = align4 begin_addr;
          end_align = align_down4 end_addr
      in if 2 * SIZEOF_STRUCT_MEM < end_align \<and> begin_align \<le> end_align - 2 * SIZEOF_STRUCT_MEM then
           let sz = end_align - begin_align - 2 * SIZEOF_STRUCT_MEM;
               last = sz + SIZEOF_STRUCT_MEM;
               h = h\<lparr>mem_size_aligned := sz, heap_ptr := begin_align\<rparr>;
               h = upd_blk 0 (\<lambda>b. \<lparr>magic = HEAP_MAGIC, used = 0, hnext = last, hprev = 0\<rparr>) h;
               h = h\<lparr>heap_end := last\<rparr>;
               h = upd_blk last (\<lambda>b. \<lparr>magic = HEAP_MAGIC, used = 1, hnext = last, hprev = last\<rparr>) h
           in h\<lparr>lfree := 0\<rparr>
         else h)"

text \<open>The first-fit search of \<^verbatim>\<open>rt_malloc\<close> and the walk that moves \<^verbatim>\<open>lfree\<close> up.\<close>

partial_function (option) malloc_find :: "heap \<Rightarrow> nat \<Rightarrow> nat \<Rightarrow> nat option option" where
  "malloc_find h sz ptr =
     (if ptr < sub32 (mem_size_aligned h) sz then
        (if used (blk h ptr) = 0 \<and>
            sz \<le> sub32 (hnext (blk h ptr)) (add32 ptr SIZEOF_STRUCT_MEM)
         then Some (Some ptr)
         else malloc_find h sz (hnext (blk h ptr)))
      else Some None)"

partial_function (option) lfree_up :: "heap \<Rightarrow> nat \<Rightarrow> nat option" where
  "lfree_up h p =
     (if used (blk h p) \<noteq> 0 \<and> p \<noteq> heap_end h then lfree_up h (hnext (blk h p)) else Some p)"

definition malloc_split :: "nat \<Rightarrow> nat \<Rightarrow> heap \<Rightarrow> heap" where
  "malloc_split sz ptr h =
     (let mnext = hnext (blk h ptr) in
      if add32 (add32 sz SIZEOF_STRUCT_MEM) MIN_SIZE_ALIGNED
         \<le> sub32 mnext (add32 ptr SIZEOF_STRUCT_MEM) then
        let ptr2 = add32 (add32 ptr SIZEOF_STRUCT_MEM) sz;
            h = upd_blk ptr2 (\<lambda>b. \<lparr>magic = HEAP_MAGIC, used = 0, hnext = mnext, hprev = ptr\<rparr>) h;
            h = upd_blk ptr (\<lambda>b. b\<lparr>hnext := ptr2, used := 1\<rparr>) h;
            h = (if mnext \<noteq> add32 (mem_size_aligned h) SIZEOF_STRUCT_MEM
                 then upd_blk mnext (\<lambda>b. b\<lparr>hprev := ptr2\<rparr>) h else h)
        in add_used (add32 sz SIZEOF_STRUCT_MEM) h
      else
        add_used (sub32 mnext ptr) (upd_blk ptr (\<lambda>b. b\<lparr>used := 1\<rparr>) h))"

definition malloc_take :: "nat \<Rightarrow> nat \<Rightarrow> heap \<Rightarrow> (nat \<times> heap) option" where
  "malloc_take sz ptr h = do {
     let h = malloc_split sz ptr h;
     let h = upd_blk ptr (\<lambda>b. b\<lparr>magic := HEAP_MAGIC\<rparr>) h;
     h \<leftarrow> (if ptr = lfree h then do {
             p \<leftarrow> lfree_up h (lfree h);
             let h = h\<lparr>lfree := p\<rparr>;
             RT_ASSERT (p = heap_end h \<or> used (blk h p) = 0);
             Some h
           } else Some h);
     RT_ASSERT (add32 (add32 (add32 (heap_ptr h) ptr) SIZEOF_STRUCT_MEM) sz
       \<le> add32 (heap_ptr h) (heap_end h));
     RT_ASSERT (add32 (add32 (heap_ptr h) ptr) SIZEOF_STRUCT_MEM mod RT_ALIGN_SIZE = 0);
     RT_ASSERT (add32 (heap_ptr h) ptr mod RT_ALIGN_SIZE = 0);
     Some (heap_ptr h + ptr + SIZEOF_STRUCT_MEM, h)
   }"

definition rt_malloc :: "nat \<Rightarrow> heap \<Rightarrow> (nat \<times> heap) option" where
  "rt_malloc sz h =
     (if sz = 0 then Some (0, h)
      else let sz = align4 sz in
        if mem_size_aligned h < sz then Some (0, h)
        else let sz = (if sz < MIN_SIZE_ALIGNED then MIN_SIZE_ALIGNED else sz) in do {
          found \<leftarrow> malloc_find h sz (lfree h);
          case found of
            None \<Rightarrow> Some (0, h)
          | Some ptr \<Rightarrow> malloc_take sz ptr h
        })"

definition rt_free :: "nat \<Rightarrow> heap \<Rightarrow> heap option" where
  "rt_free rmem h =
     (if rmem = 0 then Some h
      else do {
        RT_ASSERT (rmem mod RT_ALIGN_SIZE = 0);
        RT_ASSERT (heap_ptr h \<le> rmem \<and> rmem < heap_ptr h + heap_end h);
        let mem = sub32 (sub32 rmem (heap_ptr h)) SIZEOF_STRUCT_MEM;
        RT_ASSERT (used (blk h mem) \<noteq> 0);
        RT_ASSERT (magic (blk h mem) = HEAP_MAGIC);
        let h = upd_blk mem (\<lambda>b. b\<lparr>used := 0, magic := HEAP_MAGIC\<rparr>) h;
        let h = (if mem < lfree h then h\<lparr>lfree := mem\<rparr> else h);
        let h = h\<lparr>used_mem := sub32 (used_mem h) (sub32 (hnext (blk h mem)) mem)\<rparr>;
        plug_holes mem h
      })"

definition rt_realloc :: "nat \<Rightarrow> nat \<Rightarrow> heap \<Rightarrow> (nat \<times> heap) option" where
  "rt_realloc rmem newsize h =
     (let newsize = align4 newsize in
      if mem_size_aligned h < newsize then Some (0, h)
      else if newsize = 0 then map_option (Pair 0) (rt_free rmem h)
      else if rmem = 0 then rt_malloc newsize h
      else if rmem < heap_ptr h \<or> heap_ptr h + heap_end h \<le> rmem then Some (rmem, h)
      else
        let ptr = sub32 (sub32 rmem (heap_ptr h)) SIZEOF_STRUCT_MEM;
            mnext = hnext (blk h ptr);
            sz = sub32 (sub32 mnext ptr) SIZEOF_STRUCT_MEM
        in if sz = newsize then Some (rmem, h)
           else if add32 (add32 newsize SIZEOF_STRUCT_MEM) 12 < sz then
             let h = h\<lparr>used_mem := sub32 (used_mem h) (sz - newsize)\<rparr>;
                 ptr2 = add32 (add32 ptr SIZEOF_STRUCT_MEM) newsize;
                 h = upd_blk ptr2 (\<lambda>b. \<lparr>magic = HEAP_MAGIC, used = 0, hnext = mnext, hprev = ptr\<rparr>) h;
                 h = upd_blk ptr (\<lambda>b. b\<lparr>hnext := ptr2\<rparr>) h;
                 h = (if mnext \<noteq> add32 (mem_size_aligned h) SIZEOF_STRUCT_MEM
                      then upd_blk mnext (\<lambda>b. b\<lparr>hprev := ptr2\<rparr>) h else h)
             in map_option (Pair rmem) (plug_holes ptr2 h)
           else do {
             (nmem, h) \<leftarrow> rt_malloc newsize h;
             if nmem \<noteq> 0 then do {
               let h = h\<lparr>ram := rt_memcpy nmem rmem (min sz newsize) (ram h)\<rparr>;
               h \<leftarrow> rt_free rmem h;
               Some (nmem, h)
             } else Some (nmem, h)
           })"

definition rt_calloc :: "nat \<Rightarrow> nat \<Rightarrow> heap \<Rightarrow> (nat \<times> heap) option" where
  "rt_calloc count sz h = do {
     (p, h) \<leftarrow> rt_malloc (mul32 count sz) h;
     Some (p, if p \<noteq> 0 then h\<lparr>ram := rt_memset p 0 (mul32 count sz) (ram h)\<rparr> else h)
   }"

definition rt_memory_info :: "heap \<Rightarrow> nat \<times> nat \<times> nat" where
  "rt_memory_info h = (mem_size_aligned h, used_mem h, max_mem h)"

text \<open>\<^verbatim>\<open>rt_malloc_align\<close> and \<^verbatim>\<open>rt_free_align\<close> of \<^verbatim>\<open>src/kservice.c\<close>, which keep the block's own
  address in the word before the aligned address.\<close>

definition rt_malloc_align :: "nat \<Rightarrow> nat \<Rightarrow> heap \<Rightarrow> (nat \<times> heap) option" where
  "rt_malloc_align sz align h =
     (let align = align4 align;
          align_size = add32 (align4 sz) align
      in do {
        (ptr, h) \<leftarrow> rt_malloc align_size h;
        if ptr \<noteq> 0 then
          let w = of_nat ptr :: u32;
              am = of_nat align - 1 :: u32;
              align_ptr = (if w AND am = 0 then w + of_nat align else (w + am) AND NOT am);
              h = h\<lparr>ram := store32 (unat (align_ptr - 4)) w (ram h)\<rparr>
          in Some (unat align_ptr, h)
        else Some (ptr, h)
      })"

definition rt_free_align :: "nat \<Rightarrow> heap \<Rightarrow> heap option" where
  "rt_free_align ptr h = rt_free (unat (load32 (sub32 ptr 4) (ram h))) h"

end
