(* ===== verification/KernelState.thy ===== *)
theory KernelState
  imports RtList Mem
begin

text \<open>
  The state of the kernel: the control blocks of \<^verbatim>\<open>include/rtdef.h\<close> and the static variables
  of the kernel sources, in one record. An object is named by its address; the timer inside a
  thread control block is \<open>TimerOf t\<close>. A thread's queue node \<^verbatim>\<open>tlist\<close> is the queue it is linked
  in (\<open>None\<close>: linked to itself), and \<open>lists\<close> gives the threads of each queue in order; theory
  \<open>RtList\<close> shows that the pointer rings implement this. Linking a node that is already in a
  ring corrupts it: the model stops there.
\<close>

section \<open>Queues and object names\<close>

datatype list_head =
    Ready nat            \<comment> \<open>\<^verbatim>\<open>rt_thread_priority_table[p]\<close>\<close>
  | Defunct              \<comment> \<open>\<^verbatim>\<open>rt_thread_defunct\<close>\<close>
  | Susp nat             \<comment> \<open>\<^verbatim>\<open>suspend_thread\<close> of the object at this address\<close>
  | SuspSender nat       \<comment> \<open>\<^verbatim>\<open>suspend_sender_thread\<close> of the mailbox at this address\<close>

datatype obj_id =
    Obj nat              \<comment> \<open>the object at this address\<close>
  | TimerOf nat          \<comment> \<open>\<^verbatim>\<open>thread->thread_timer\<close>\<close>

datatype timeout_fn =
    Thread_timeout       \<comment> \<open>\<^verbatim>\<open>rt_thread_timeout\<close>\<close>
  | User_timeout u32     \<comment> \<open>a function of the application, by address\<close>

section \<open>Control blocks\<close>

record rt_object =
  obj_name :: "u8 list"
  obj_type :: u8
  obj_flag :: u8

record rt_thread =
  tlist :: "list_head option"
  sp :: u32
  entry :: u32
  parameter :: u32
  stack_addr :: u32
  stack_size :: u32
  error :: rt_err
  stat :: u8
  current_priority :: u8
  init_priority :: u8
  number_mask :: u32
  event_set :: u32
  event_info :: u8
  init_tick :: u32
  remaining_tick :: u32
  cleanup :: u32
  user_data :: u32

record rt_timer =
  timeout_func :: timeout_fn
  tm_parameter :: nat
  tm_init_tick :: u32
  timeout_tick :: u32

record rt_semaphore =
  sem_value :: u16

record rt_mutex =
  mutex_value :: u16
  original_priority :: u8
  hold :: u8
  owner :: "nat option"

record rt_event =
  ev_set :: u32

record rt_mailbox =
  mb_pool :: nat
  mb_size :: u16
  mb_entry :: u16
  in_offset :: u16
  out_offset :: u16

record rt_messagequeue =
  mq_pool :: nat
  mq_msg_size :: u16
  max_msgs :: u16
  mq_entry :: u16
  msg_queue_head :: nat
  msg_queue_tail :: nat
  msg_queue_free :: nat

record rt_mempool =
  start_address :: nat
  mp_size :: nat
  block_size :: nat
  block_list :: nat
  block_total_count :: nat
  block_free_count :: nat
  suspend_thread_count :: nat

record kernel =
  thread :: "nat \<Rightarrow> rt_thread"
  lists :: "list_head \<Rightarrow> nat list"
  ready_group :: u32
  current :: "nat option"
  sched_priority :: u8
  lock_nest :: "16 word"
  interrupt_nest :: u8
  tick :: u32
  timers :: "obj_id \<Rightarrow> rt_timer"
  timer_list :: "obj_id list"
  random_nr :: u32
  objects :: "obj_id \<Rightarrow> rt_object"
  containers :: "u8 \<Rightarrow> obj_id list"
  sems :: "nat \<Rightarrow> rt_semaphore"
  mutexes :: "nat \<Rightarrow> rt_mutex"
  events :: "nat \<Rightarrow> rt_event"
  mailboxes :: "nat \<Rightarrow> rt_mailbox"
  mqueues :: "nat \<Rightarrow> rt_messagequeue"
  mempools :: "nat \<Rightarrow> rt_mempool"
  kheap :: heap
  rt_errno :: rt_err

section \<open>Access\<close>

definition upd_thread :: "nat \<Rightarrow> (rt_thread \<Rightarrow> rt_thread) \<Rightarrow> kernel \<Rightarrow> kernel" where
  "upd_thread t f k = k\<lparr>thread := (thread k)(t := f (thread k t))\<rparr>"

definition upd_timer :: "obj_id \<Rightarrow> (rt_timer \<Rightarrow> rt_timer) \<Rightarrow> kernel \<Rightarrow> kernel" where
  "upd_timer i f k = k\<lparr>timers := (timers k)(i := f (timers k i))\<rparr>"

definition upd_object :: "obj_id \<Rightarrow> (rt_object \<Rightarrow> rt_object) \<Rightarrow> kernel \<Rightarrow> kernel" where
  "upd_object i f k = k\<lparr>objects := (objects k)(i := f (objects k i))\<rparr>"

definition upd_sem :: "nat \<Rightarrow> (rt_semaphore \<Rightarrow> rt_semaphore) \<Rightarrow> kernel \<Rightarrow> kernel" where
  "upd_sem a f k = k\<lparr>sems := (sems k)(a := f (sems k a))\<rparr>"

definition upd_mutex :: "nat \<Rightarrow> (rt_mutex \<Rightarrow> rt_mutex) \<Rightarrow> kernel \<Rightarrow> kernel" where
  "upd_mutex a f k = k\<lparr>mutexes := (mutexes k)(a := f (mutexes k a))\<rparr>"

definition upd_event :: "nat \<Rightarrow> (rt_event \<Rightarrow> rt_event) \<Rightarrow> kernel \<Rightarrow> kernel" where
  "upd_event a f k = k\<lparr>events := (events k)(a := f (events k a))\<rparr>"

definition upd_mb :: "nat \<Rightarrow> (rt_mailbox \<Rightarrow> rt_mailbox) \<Rightarrow> kernel \<Rightarrow> kernel" where
  "upd_mb a f k = k\<lparr>mailboxes := (mailboxes k)(a := f (mailboxes k a))\<rparr>"

definition upd_mq :: "nat \<Rightarrow> (rt_messagequeue \<Rightarrow> rt_messagequeue) \<Rightarrow> kernel \<Rightarrow> kernel" where
  "upd_mq a f k = k\<lparr>mqueues := (mqueues k)(a := f (mqueues k a))\<rparr>"

definition upd_mp :: "nat \<Rightarrow> (rt_mempool \<Rightarrow> rt_mempool) \<Rightarrow> kernel \<Rightarrow> kernel" where
  "upd_mp a f k = k\<lparr>mempools := (mempools k)(a := f (mempools k a))\<rparr>"

definition kram :: "kernel \<Rightarrow> cmem" where
  "kram k = ram (kheap k)"

definition upd_ram :: "(cmem \<Rightarrow> cmem) \<Rightarrow> kernel \<Rightarrow> kernel" where
  "upd_ram f k = k\<lparr>kheap := (kheap k)\<lparr>ram := f (ram (kheap k))\<rparr>\<rparr>"

lemmas upd_defs = upd_thread_def upd_timer_def upd_object_def upd_sem_def upd_mutex_def
  upd_event_def upd_mb_def upd_mq_def upd_mp_def upd_ram_def kram_def

definition tstat :: "kernel \<Rightarrow> nat \<Rightarrow> u8" where
  "tstat k t = stat (thread k t) AND RT_THREAD_STAT_MASK"

definition tprio :: "kernel \<Rightarrow> nat \<Rightarrow> nat" where
  "tprio k t = unat (current_priority (thread k t))"

text \<open>The context checks of \<^verbatim>\<open>include/rtdebug.h\<close> (lines 113 to 145).\<close>

definition rt_thread_self :: "kernel \<Rightarrow> nat option" where
  "rt_thread_self k = current k"

definition rt_interrupt_get_nest :: "kernel \<Rightarrow> u8" where
  "rt_interrupt_get_nest k = interrupt_nest k"

definition RT_DEBUG_NOT_IN_INTERRUPT :: "kernel \<Rightarrow> unit option" where
  "RT_DEBUG_NOT_IN_INTERRUPT k = RT_ASSERT (rt_interrupt_get_nest k = 0)"

definition RT_DEBUG_IN_THREAD_CONTEXT :: "kernel \<Rightarrow> unit option" where
  "RT_DEBUG_IN_THREAD_CONTEXT k = do {
     RT_ASSERT (rt_thread_self k \<noteq> None);
     RT_DEBUG_NOT_IN_INTERRUPT k
   }"

section \<open>Queue operations on \<^verbatim>\<open>tlist\<close>\<close>

definition tl_set :: "list_head \<Rightarrow> nat list \<Rightarrow> nat \<Rightarrow> kernel \<Rightarrow> kernel" where
  "tl_set q xs t k = upd_thread t (\<lambda>th. th\<lparr>tlist := Some q\<rparr>) (k\<lparr>lists := (lists k)(q := xs)\<rparr>)"

definition tl_unlink :: "nat \<Rightarrow> kernel \<Rightarrow> kernel" where
  "tl_unlink t k =
     (case tlist (thread k t) of
        None \<Rightarrow> k
      | Some q \<Rightarrow> upd_thread t (\<lambda>th. th\<lparr>tlist := None\<rparr>)
                   (k\<lparr>lists := (lists k)(q := removeAll t (lists k q))\<rparr>))"

definition tl_push :: "list_head \<Rightarrow> nat \<Rightarrow> kernel \<Rightarrow> kernel" where
  "tl_push q t k = tl_set q (lists k q @ [t]) t k"

definition tl_insert_before :: "list_head \<Rightarrow> nat \<Rightarrow> kernel \<Rightarrow> kernel option" where
  "tl_insert_before q t k = do {
     RT_ASSERT (tlist (thread k t) = None);
     Some (tl_push q t k)
   }"

definition tl_insert_after :: "list_head \<Rightarrow> nat \<Rightarrow> kernel \<Rightarrow> kernel option" where
  "tl_insert_after q t k = do {
     RT_ASSERT (tlist (thread k t) = None);
     Some (tl_set q (t # lists k q) t k)
   }"

fun insert_at :: "nat \<Rightarrow> nat \<Rightarrow> nat list \<Rightarrow> nat list" where
  "insert_at y t [] = []"
| "insert_at y t (x # xs) = (if x = y then t # x # xs else x # insert_at y t xs)"

definition tl_insert :: "nat \<Rightarrow> nat \<Rightarrow> kernel \<Rightarrow> kernel" where
  "tl_insert y t k =
     (case tlist (thread k y) of
        None \<Rightarrow> k
      | Some q \<Rightarrow> tl_set q (insert_at y t (lists k q)) t k)"

end
