(* ===== verification/Scheduler.thy ===== *)
theory Scheduler
  imports KernelState
begin

text \<open>
  \<^verbatim>\<open>src/scheduler.c\<close> and \<^verbatim>\<open>src/irq.c\<close>: the ready table with its bitmap, the choice of the next
  thread, and the scheduler lock. The first part of the theory is the code, the second the
  invariant \<open>wf_sched\<close> of the queues, and the third what the operations do.

  \<^verbatim>\<open>rt_hw_context_switch\<close> and its interrupt variant save the registers of the old thread and
  load those of the new one; what remains of them in this state is the new
  \<^verbatim>\<open>rt_current_thread\<close>. A switch away from no thread at all, an empty ready table and an index
  outside the table are accesses outside an object.
\<close>

section \<open>The operations\<close>

definition rt_system_scheduler_init :: "kernel \<Rightarrow> kernel" where
  "rt_system_scheduler_init k =
     k\<lparr>lock_nest := 0,
       lists := (\<lambda>q. case q of Ready p \<Rightarrow> if p < RT_THREAD_PRIORITY_MAX then [] else lists k q
                            | Defunct \<Rightarrow> [] | _ \<Rightarrow> lists k q),
       sched_priority := of_nat (RT_THREAD_PRIORITY_MAX - 1),
       current := None,
       ready_group := 0\<rparr>"

definition highest_ready :: "kernel \<Rightarrow> nat option" where
  "highest_ready k =
     (let n = rt_ffs (ready_group k) in
      if n = 0 then None
      else case lists k (Ready (n - 1)) of [] \<Rightarrow> None | t # _ \<Rightarrow> Some t)"

text \<open>\<^verbatim>\<open>_rt_scheduler_stack_check\<close>: an overflowed stack ends in an endless loop.\<close>

definition stack_ok :: "kernel \<Rightarrow> nat \<Rightarrow> bool" where
  "stack_ok k t =
     (let th = thread k t in
      \<not> (kram k (unat (stack_addr th)) \<noteq> 0x23 \<or>
         sp th \<le> stack_addr th \<or>
         sp th > stack_addr th + stack_size th))"

definition rt_scheduler_stack_check :: "nat \<Rightarrow> kernel \<Rightarrow> unit option" where
  "rt_scheduler_stack_check t k = (if stack_ok k t then Some () else None)"

definition rt_system_scheduler_start :: "kernel \<Rightarrow> kernel option" where
  "rt_system_scheduler_start k = do {
     to_thread \<leftarrow> highest_ready k;
     Some (k\<lparr>current := Some to_thread\<rparr>)
   }"

definition rt_schedule :: "kernel \<Rightarrow> kernel option" where
  "rt_schedule k =
     (if lock_nest k = 0 then do {
        to_thread \<leftarrow> highest_ready k;
        if current k \<noteq> Some to_thread then do {
          RT_ASSERT (current k \<noteq> None);
          let k = k\<lparr>sched_priority := of_nat (rt_ffs (ready_group k) - 1),
                    current := Some to_thread\<rparr>;
          rt_scheduler_stack_check to_thread k;
          Some k
        } else Some k
      } else Some k)"

definition rt_schedule_insert_thread :: "nat \<Rightarrow> kernel \<Rightarrow> kernel option" where
  "rt_schedule_insert_thread t k = do {
     let k = upd_thread t (\<lambda>th. th\<lparr>stat := set_stat RT_THREAD_READY (stat th)\<rparr>) k;
     RT_ASSERT (tprio k t < RT_THREAD_PRIORITY_MAX);
     k \<leftarrow> tl_insert_before (Ready (tprio k t)) t k;
     Some (k\<lparr>ready_group := ready_group k OR number_mask (thread k t)\<rparr>)
   }"

definition rt_schedule_remove_thread :: "nat \<Rightarrow> kernel \<Rightarrow> kernel option" where
  "rt_schedule_remove_thread t k = do {
     let k = tl_unlink t k;
     RT_ASSERT (tprio k t < RT_THREAD_PRIORITY_MAX);
     Some (if lists k (Ready (tprio k t)) = []
           then k\<lparr>ready_group := ready_group k AND NOT (number_mask (thread k t))\<rparr> else k)
   }"

definition rt_enter_critical :: "kernel \<Rightarrow> kernel" where
  "rt_enter_critical k = k\<lparr>lock_nest := lock_nest k + 1\<rparr>"

definition rt_exit_critical :: "kernel \<Rightarrow> kernel option" where
  "rt_exit_critical k =
     (let k = k\<lparr>lock_nest := lock_nest k - 1\<rparr> in
      if sint (lock_nest k) \<le> 0 then rt_schedule (k\<lparr>lock_nest := 0\<rparr>) else Some k)"

definition rt_critical_level :: "kernel \<Rightarrow> u16" where
  "rt_critical_level k = lock_nest k"

definition rt_interrupt_enter :: "kernel \<Rightarrow> kernel" where
  "rt_interrupt_enter k = k\<lparr>interrupt_nest := interrupt_nest k + 1\<rparr>"

definition rt_interrupt_leave :: "kernel \<Rightarrow> kernel" where
  "rt_interrupt_leave k = k\<lparr>interrupt_nest := interrupt_nest k - 1\<rparr>"

section \<open>The invariant of the queues\<close>

text \<open>Every queue agrees with the \<^verbatim>\<open>tlist\<close> nodes of the threads.\<close>

definition wf_queues :: "kernel \<Rightarrow> bool" where
  "wf_queues k \<longleftrightarrow>
     (\<forall>q. distinct (lists k q)) \<and> (\<forall>q t. t \<in> set (lists k q) \<longleftrightarrow> tlist (thread k t) = Some q)"

text \<open>Bit \<open>p\<close> of the ready group is set exactly when some thread of priority \<open>p\<close> is ready.\<close>

definition wf_group :: "kernel \<Rightarrow> bool" where
  "wf_group k \<longleftrightarrow> (\<forall>p<32. bit (ready_group k) p \<longleftrightarrow> lists k (Ready p) \<noteq> [])"

text \<open>What a thread's own fields satisfy: it is in the ready queue of its priority exactly when
  its state is ready; a thread in a wait queue is suspended, one in the defunct queue closed;
  the priority mask belongs to the priority, or is still zero in a thread that never started.\<close>

definition thread_ok :: "rt_thread \<Rightarrow> bool" where
  "thread_ok th \<longleftrightarrow>
     (let s = stat th AND RT_THREAD_STAT_MASK; p = unat (current_priority th) in
       (\<forall>r. tlist th = Some (Ready r) \<longleftrightarrow> s = RT_THREAD_READY \<and> r = p) \<and>
       p < 32 \<and>
       (number_mask th = prio_mask p \<or>
        number_mask th = 0 \<and> s \<noteq> RT_THREAD_READY \<and> s \<noteq> RT_THREAD_SUSPEND) \<and>
       (tlist th = Some Defunct \<longrightarrow> s = RT_THREAD_CLOSE) \<and>
       (\<forall>a. tlist th = Some (Susp a) \<or> tlist th = Some (SuspSender a) \<longrightarrow> s = RT_THREAD_SUSPEND))"

definition wf_sched :: "kernel \<Rightarrow> bool" where
  "wf_sched k \<longleftrightarrow> wf_queues k \<and> wf_group k \<and> (\<forall>t. thread_ok (thread k t))"

lemma wf_schedD [dest]:
  assumes "wf_sched k"
  shows "wf_queues k" "wf_group k" "thread_ok (thread k t)"
  using assms by (auto simp: wf_sched_def)

lemma wf_queuesD:
  assumes "wf_queues k"
  shows "distinct (lists k q)" "t \<in> set (lists k q) \<longleftrightarrow> tlist (thread k t) = Some q"
  using assms by (auto simp: wf_queues_def)

lemma wf_queues_disjoint: "wf_queues k \<Longrightarrow> queues_disjoint (lists k)"
  by (auto simp: wf_queues_def queues_disjoint_def)

lemma wf_queues_unqueued: "wf_queues k \<Longrightarrow> unqueued t (lists k) \<longleftrightarrow> tlist (thread k t) = None"
  by (cases "tlist (thread k t)") (auto simp: wf_queues_def unqueued_def)

section \<open>Frame facts of the queue operations\<close>

lemma thread_upd_thread [simp]:
  "thread (upd_thread t f k) = (thread k)(t := f (thread k t))"
  by (simp add: upd_thread_def)

lemma upd_thread_frame [simp]:
  "lists (upd_thread t f k) = lists k" "ready_group (upd_thread t f k) = ready_group k"
  "current (upd_thread t f k) = current k" "lock_nest (upd_thread t f k) = lock_nest k"
  "interrupt_nest (upd_thread t f k) = interrupt_nest k" "tick (upd_thread t f k) = tick k"
  "timers (upd_thread t f k) = timers k" "timer_list (upd_thread t f k) = timer_list k"
  "objects (upd_thread t f k) = objects k" "containers (upd_thread t f k) = containers k"
  "sems (upd_thread t f k) = sems k" "mutexes (upd_thread t f k) = mutexes k"
  "events (upd_thread t f k) = events k" "mailboxes (upd_thread t f k) = mailboxes k"
  "mqueues (upd_thread t f k) = mqueues k" "mempools (upd_thread t f k) = mempools k"
  "kheap (upd_thread t f k) = kheap k" "sched_priority (upd_thread t f k) = sched_priority k"
  "random_nr (upd_thread t f k) = random_nr k" "rt_errno (upd_thread t f k) = rt_errno k"
  by (simp_all add: upd_thread_def)

text \<open>Closed forms of the queue operations, from which the untouched fields are read off.\<close>

lemma tlist_None_upd: "tlist th = None \<Longrightarrow> th\<lparr>tlist := None\<rparr> = th"
  by (cases th) simp

lemma kernel_thread_id [simp]: "k\<lparr>thread := thread k\<rparr> = k"
  by (cases k) simp

lemma tl_unlink_eq:
  "tl_unlink t k = k\<lparr>thread := (thread k)(t := (thread k t)\<lparr>tlist := None\<rparr>),
     lists := (case tlist (thread k t) of None \<Rightarrow> lists k
               | Some q \<Rightarrow> (lists k)(q := removeAll t (lists k q)))\<rparr>"
  by (auto simp: tl_unlink_def upd_thread_def tlist_None_upd split: option.splits)

lemma tl_set_eq:
  "tl_set q xs t k = k\<lparr>thread := (thread k)(t := (thread k t)\<lparr>tlist := Some q\<rparr>),
     lists := (lists k)(q := xs)\<rparr>"
  by (simp add: tl_set_def upd_thread_def)

section \<open>The queue operations keep the queues consistent\<close>

lemma wf_queues_unlink [intro]: "wf_queues k \<Longrightarrow> wf_queues (tl_unlink t k)"
  unfolding wf_queues_def tl_unlink_eq
  by (auto simp: distinct_removeAll split: option.splits)

lemma lists_unlink:
  "wf_queues k \<Longrightarrow> lists (tl_unlink t k) q = removeAll t (lists k q)"
  by (auto simp: tl_unlink_eq wf_queues_def removeAll_id split: option.splits)

lemma wf_queues_set:
  assumes "wf_queues k" "tlist (thread k t) = None"
    and "distinct xs" "set xs = Set.insert t (set (lists k q))"
  shows "wf_queues (tl_set q xs t k)"
  using assms unfolding wf_queues_def tl_set_eq by auto

lemma wf_queues_push [intro]:
  "wf_queues k \<Longrightarrow> tlist (thread k t) = None \<Longrightarrow> wf_queues (tl_push q t k)"
  unfolding tl_push_def by (rule wf_queues_set) (auto simp: wf_queues_def)

lemma set_insert_at: "y \<in> set xs \<Longrightarrow> set (insert_at y t xs) = Set.insert t (set xs)"
  by (induction xs) auto

lemma distinct_insert_at: "distinct xs \<Longrightarrow> t \<notin> set xs \<Longrightarrow> distinct (insert_at y t xs)"
proof (induction xs)
  case (Cons x xs)
  have "set (insert_at y t xs) \<subseteq> Set.insert t (set xs)" by (induction xs) auto
  with Cons show ?case by auto
qed simp

lemma insert_at_split:
  "y \<notin> set xs \<Longrightarrow> insert_at y t (xs @ y # ys) = xs @ t # y # ys"
  by (induction xs) auto

lemma wf_queues_insert:
  assumes "wf_queues k" "tlist (thread k t) = None" "tlist (thread k y) = Some q"
  shows "wf_queues (tl_insert y t k)"
proof -
  have "wf_queues (tl_set q (insert_at y t (lists k q)) t k)"
    by (rule wf_queues_set) (use assms in \<open>auto simp: distinct_insert_at set_insert_at wf_queuesD\<close>)
  then show ?thesis using assms(3) by (simp add: tl_insert_def)
qed

text \<open>The kernel's queues are a \<open>list_store\<close>.\<close>

definition k_rep :: "kernel \<Rightarrow> (list_head \<Rightarrow> nat list) \<Rightarrow> bool" where
  "k_rep k L \<longleftrightarrow> wf_queues k \<and> lists k = L"

interpretation kq: list_store k_rep tl_push tl_insert tl_unlink
proof unfold_locales
  fix k L t q xs y ys
  assume k: "k_rep k L"
  then show "queues_disjoint L" by (auto simp: k_rep_def dest: wf_queues_disjoint)
  show "k_rep (tl_unlink t k) (\<lambda>q. removeAll t (L q))"
    using k lists_unlink by (fastforce simp: k_rep_def)
  assume u: "unqueued t L"
  then have n: "tlist (thread k t) = None" using k wf_queues_unqueued by (auto simp: k_rep_def)
  show "k_rep (tl_push q t k) (L(q := L q @ [t]))"
    using k n by (auto simp: k_rep_def) (simp add: tl_push_def tl_set_eq)
  assume y: "L q = xs @ y # ys"
  then have ty: "tlist (thread k y) = Some q"
    using k wf_queuesD(2)[of k y q] by (auto simp: k_rep_def)
  have "y \<notin> set xs" using y k wf_queuesD(1)[of k q] by (auto simp: k_rep_def)
  then have "lists (tl_insert y t k) = L(q := xs @ t # y # ys)"
    using k y ty by (simp add: k_rep_def tl_insert_def tl_set_eq insert_at_split)
  then show "k_rep (tl_insert y t k) (L(q := xs @ t # y # ys))"
    using k n ty wf_queues_insert by (auto simp: k_rep_def)
qed

section \<open>The ready table\<close>

lemma wf_queues_cong:
  assumes "wf_queues k" "lists k' = lists k"
    and "\<And>t. tlist (thread k' t) = tlist (thread k t)"
  shows "wf_queues k'"
  using assms by (simp add: wf_queues_def)

lemma wf_group_cong:
  "wf_group k \<Longrightarrow> lists k' = lists k \<Longrightarrow> ready_group k' = ready_group k \<Longrightarrow> wf_group k'"
  by (simp add: wf_group_def)

lemma wf_sched_cong:
  assumes "wf_sched k" "lists k' = lists k" "ready_group k' = ready_group k" "thread k' = thread k"
  shows "wf_sched k'"
  using assms by (simp add: wf_sched_def wf_queues_def wf_group_def)

lemma wf_sched_upd_thread:
  assumes "wf_sched k" "tlist (f (thread k t)) = tlist (thread k t)" "thread_ok (f (thread k t))"
  shows "wf_sched (upd_thread t f k)"
  using assms by (auto simp: wf_sched_def wf_group_def wf_queues_def)

lemma wf_group_insert:
  assumes "wf_group k" "p < 32" "ts \<noteq> []"
    and "lists k' = (lists k)(Ready p := ts)" "ready_group k' = ready_group k OR prio_mask p"
  shows "wf_group k'"
  using assms by (auto simp: wf_group_def bit_or_iff bit_prio_mask)

lemma wf_group_remove:
  assumes "wf_group k" "p < 32" "m = prio_mask p \<or> m = 0 \<and> lists k' (Ready p) = lists k (Ready p)"
    and "\<And>r. r \<noteq> p \<Longrightarrow> lists k' (Ready r) = lists k (Ready r)"
    and "ready_group k' =
      (if lists k' (Ready p) = [] then ready_group k AND NOT m else ready_group k)"
    and "lists k' (Ready p) \<noteq> [] \<Longrightarrow> lists k (Ready p) \<noteq> []"
  shows "wf_group k'"
  unfolding wf_group_def
proof (intro allI impI)
  fix r :: nat assume r: "r < 32"
  show "bit (ready_group k') r \<longleftrightarrow> lists k' (Ready r) \<noteq> []"
    using assms r unfolding wf_group_def
    by (cases "r = p") (auto simp: bit_and_iff bit_not_iff bit_prio_mask)
qed

text \<open>The invariant with one thread left out, for the middle of an operation on that thread.\<close>

definition wf_but :: "nat \<Rightarrow> kernel \<Rightarrow> bool" where
  "wf_but t k \<longleftrightarrow> wf_queues k \<and> wf_group k \<and> (\<forall>u. u \<noteq> t \<longrightarrow> thread_ok (thread k u))"

lemma wf_sched_but: "wf_sched k \<Longrightarrow> wf_but t k"
  by (simp add: wf_sched_def wf_but_def)

lemma wf_but_sched: "wf_but t k \<Longrightarrow> thread_ok (thread k t) \<Longrightarrow> wf_sched k"
  by (auto simp: wf_sched_def wf_but_def)

lemma wf_but_upd_thread:
  "wf_but t k \<Longrightarrow> tlist (f (thread k t)) = tlist (thread k t) \<Longrightarrow> wf_but t (upd_thread t f k)"
  by (auto simp: wf_but_def wf_group_def wf_queues_def)

lemma wf_but_cong:
  assumes "wf_but t k" "lists k' = lists k" "ready_group k' = ready_group k" "thread k' = thread k"
  shows "wf_but t k'"
  using assms by (simp add: wf_but_def wf_queues_def wf_group_def)

lemma thread_ok_prio: "thread_ok th \<Longrightarrow> unat (current_priority th) < 32"
  by (simp add: thread_ok_def Let_def)

text \<open>\<^verbatim>\<open>rt_schedule_insert_thread\<close> on a thread in no queue.\<close>

definition sched_inserted :: "nat \<Rightarrow> kernel \<Rightarrow> kernel" where
  "sched_inserted t k =
     k\<lparr>thread := (thread k)(t := (thread k t)\<lparr>
         stat := set_stat RT_THREAD_READY (stat (thread k t)),
         tlist := Some (Ready (tprio k t))\<rparr>),
       lists := (lists k)(Ready (tprio k t) := lists k (Ready (tprio k t)) @ [t]),
       ready_group := ready_group k OR number_mask (thread k t)\<rparr>"

lemma rt_schedule_insert_thread_eq:
  "tlist (thread k t) = None \<Longrightarrow> tprio k t < 32 \<Longrightarrow>
   rt_schedule_insert_thread t k = Some (sched_inserted t k)"
  by (simp add: rt_schedule_insert_thread_def tl_insert_before_def tl_push_def tl_set_eq tprio_def
      sched_inserted_def upd_thread_def Let_def)

lemma thread_ok_inserted:
  "tprio k t < 32 \<Longrightarrow> number_mask (thread k t) = prio_mask (tprio k t) \<Longrightarrow>
   thread_ok (thread (sched_inserted t k) t)"
  by (auto simp: thread_ok_def sched_inserted_def tprio_def Let_def)

lemma wf_sched_inserted:
  assumes "wf_but t k" "tlist (thread k t) = None" "tprio k t < 32"
    "number_mask (thread k t) = prio_mask (tprio k t)"
  shows "wf_sched (sched_inserted t k)"
proof (rule wf_but_sched)
  show "thread_ok (thread (sched_inserted t k) t)" using assms by (intro thread_ok_inserted)
  have g: "wf_group (sched_inserted t k)"
    by (rule wf_group_insert[of k "tprio k t" "lists k (Ready (tprio k t)) @ [t]"])
      (use assms in \<open>auto simp: wf_but_def sched_inserted_def\<close>)
  moreover have "wf_queues (sched_inserted t k)"
    using assms by (auto simp: wf_but_def wf_queues_def sched_inserted_def)
  ultimately show "wf_but t (sched_inserted t k)"
    using assms(1) by (auto simp: wf_but_def sched_inserted_def)
qed

text \<open>\<^verbatim>\<open>rt_schedule_remove_thread\<close>: the thread leaves its queue, whichever it is.\<close>

definition sched_removed :: "nat \<Rightarrow> kernel \<Rightarrow> kernel" where
  "sched_removed t k =
     k\<lparr>thread := (thread k)(t := (thread k t)\<lparr>tlist := None\<rparr>),
       lists := (\<lambda>q. removeAll t (lists k q)),
       ready_group := (if removeAll t (lists k (Ready (tprio k t))) = []
                       then ready_group k AND NOT (number_mask (thread k t)) else ready_group k)\<rparr>"

lemma tl_unlink_removed:
  "wf_queues k \<Longrightarrow>
   tl_unlink t k = k\<lparr>thread := (thread k)(t := (thread k t)\<lparr>tlist := None\<rparr>),
     lists := (\<lambda>q. removeAll t (lists k q))\<rparr>"
proof -
  assume "wf_queues k"
  then have "lists (tl_unlink t k) = (\<lambda>q. removeAll t (lists k q))"
    by (simp add: lists_unlink fun_eq_iff)
  then show ?thesis by (simp add: tl_unlink_eq)
qed

lemma rt_schedule_remove_thread_eq:
  "wf_queues k \<Longrightarrow> tprio k t < 32 \<Longrightarrow>
   rt_schedule_remove_thread t k = Some (sched_removed t k)"
  by (simp add: rt_schedule_remove_thread_def tl_unlink_removed sched_removed_def tprio_def Let_def)

lemma wf_but_removed:
  assumes w: "wf_but t k" and p: "tprio k t < 32"
    and r: "\<And>r. tlist (thread k t) = Some (Ready r) \<Longrightarrow> r = tprio k t"
    and m: "number_mask (thread k t) = prio_mask (tprio k t) \<or>
      number_mask (thread k t) = 0 \<and> tlist (thread k t) \<noteq> Some (Ready (tprio k t))"
  shows "wf_but t (sched_removed t k)"
proof -
  have q: "wf_queues k" using w by (simp add: wf_but_def)
  have other: "removeAll t (lists k (Ready s)) = lists k (Ready s)"
    if "tlist (thread k t) \<noteq> Some (Ready s)" for s
    using that wf_queuesD(2)[OF q] by (simp add: removeAll_id)
  have "wf_group (sched_removed t k)"
    by (rule wf_group_remove[of k "tprio k t" "number_mask (thread k t)"])
      (use w p r m other in \<open>auto simp: wf_but_def sched_removed_def\<close>)
  moreover have "wf_queues (sched_removed t k)"
    using q by (auto simp: wf_queues_def sched_removed_def distinct_removeAll)
  ultimately show ?thesis using w by (auto simp: wf_but_def sched_removed_def)
qed

section \<open>The choice of the scheduler\<close>

lemma ready_in_list:
  "wf_sched k \<Longrightarrow> tstat k t = RT_THREAD_READY \<longleftrightarrow> t \<in> set (lists k (Ready (tprio k t)))"
  using wf_queuesD(2)[of k t "Ready (tprio k t)"] wf_schedD(3)[of k t]
  by (auto simp: wf_sched_def thread_ok_def tstat_def tprio_def Let_def)

lemma in_ready_list:
  "wf_sched k \<Longrightarrow> t \<in> set (lists k (Ready p)) \<Longrightarrow>
   tstat k t = RT_THREAD_READY \<and> tprio k t = p \<and> p < 32"
  using wf_queuesD(2)[of k t "Ready p"] wf_schedD(3)[of k t]
  by (auto simp: wf_sched_def thread_ok_def tstat_def tprio_def Let_def)

text \<open>The thread that has to run: ready, no ready thread is more urgent (a smaller number), and
  it is the one that waits longest in the queue of its priority.\<close>

definition must_run :: "kernel \<Rightarrow> nat \<Rightarrow> bool" where
  "must_run k t \<longleftrightarrow>
     tstat k t = RT_THREAD_READY \<and>
     (\<forall>u. tstat k u = RT_THREAD_READY \<longrightarrow> tprio k t \<le> tprio k u) \<and>
     (\<exists>ts. lists k (Ready (tprio k t)) = t # ts)"

lemma highest_ready_must_run:
  assumes w: "wf_sched k" and h: "highest_ready k = Some t"
  shows "must_run k t" "tprio k t = rt_ffs (ready_group k) - 1"
proof -
  let ?p = "rt_ffs (ready_group k) - 1"
  have nz: "ready_group k \<noteq> 0" using h by (auto simp: highest_ready_def Let_def)
  obtain ts where ts: "lists k (Ready ?p) = t # ts"
    using h by (auto simp: highest_ready_def Let_def split: if_splits list.splits)
  have low: "lowest_set (ready_group k) ?p" using rt_ffs_lowest_set[OF nz] by simp
  have t: "tstat k t = RT_THREAD_READY" "tprio k t = ?p"
    using in_ready_list[OF w, of t ?p] ts by auto
  have "?p \<le> tprio k u" if "tstat k u = RT_THREAD_READY" for u
  proof -
    have u: "u \<in> set (lists k (Ready (tprio k u)))" using that ready_in_list[OF w] by simp
    then have "tprio k u < 32" using in_ready_list[OF w] by blast
    then have "bit (ready_group k) (tprio k u)"
      using u wf_schedD(2)[OF w] by (auto simp: wf_group_def)
    then show ?thesis using low by (meson lowest_set_def not_le)
  qed
  then show "must_run k t" using t ts by (auto simp: must_run_def)
  show "tprio k t = ?p" by (rule t(2))
qed

lemma highest_ready_some:
  assumes w: "wf_sched k" and r: "tstat k u = RT_THREAD_READY"
  shows "\<exists>t. highest_ready k = Some t"
proof -
  have u: "u \<in> set (lists k (Ready (tprio k u)))" using r ready_in_list[OF w] by simp
  then have "tprio k u < 32" using in_ready_list[OF w] by blast
  then have "bit (ready_group k) (tprio k u)"
    using u wf_schedD(2)[OF w] by (auto simp: wf_group_def)
  then have nz: "ready_group k \<noteq> 0" by auto
  let ?p = "rt_ffs (ready_group k) - 1"
  have "lowest_set (ready_group k) ?p" using rt_ffs_lowest_set[OF nz] by simp
  then have "lists k (Ready ?p) \<noteq> []" using wf_schedD(2)[OF w]
    by (auto simp: wf_group_def lowest_set_def)
  then show ?thesis using rt_ffs_lowest_set(1)[OF nz]
    by (auto simp: highest_ready_def Let_def split: list.splits)
qed

lemma stack_ok_cong:
  "thread k' = thread k \<Longrightarrow> kheap k' = kheap k \<Longrightarrow> stack_ok k' t = stack_ok k t"
  by (simp add: stack_ok_def kram_def)

lemma rt_schedule_alt:
  "rt_schedule k =
     (if lock_nest k \<noteq> 0 then Some k
      else case highest_ready k of
        None \<Rightarrow> None
      | Some t \<Rightarrow>
          if current k = Some t then Some k
          else if current k = None \<or> \<not> stack_ok k t then None
          else Some (k\<lparr>sched_priority := of_nat (rt_ffs (ready_group k) - 1), current := Some t\<rparr>))"
  using stack_ok_cong[of "k\<lparr>sched_priority := of_nat (rt_ffs (ready_group k) - 1), current := c\<rparr>" k for c]
  by (simp add: rt_schedule_def rt_scheduler_stack_check_def bind_RT_ASSERT split: option.split)

lemma rt_schedule_cases:
  assumes "rt_schedule k = Some k'"
  obtains (locked) "lock_nest k \<noteq> 0" "k' = k"
    | (stay) t where "lock_nest k = 0" "highest_ready k = Some t" "current k = Some t" "k' = k"
    | (switch) t where "lock_nest k = 0" "highest_ready k = Some t" "current k \<noteq> Some t"
        "current k \<noteq> None" "stack_ok k t"
        "k' = k\<lparr>sched_priority := of_nat (rt_ffs (ready_group k) - 1), current := Some t\<rparr>"
proof (cases "lock_nest k = 0")
  case False
  then have "k' = k" using assms by (simp add: rt_schedule_alt)
  then show thesis using locked False by blast
next
  case True
  then obtain t where t: "highest_ready k = Some t"
    using assms by (cases "highest_ready k") (simp_all add: rt_schedule_alt)
  show thesis
  proof (cases "current k = Some t")
    case c: True
    then have "k' = k" using assms True t by (simp add: rt_schedule_alt)
    then show thesis using stay True t c by blast
  next
    case c: False
    let ?bad = "current k = None \<or> \<not> stack_ok k t"
    let ?k = "k\<lparr>sched_priority := of_nat (rt_ffs (ready_group k) - 1), current := Some t\<rparr>"
    have e: "(if ?bad then None else Some ?k) = Some k'"
      using assms True t c by (simp add: rt_schedule_alt)
    then have g: "\<not> ?bad" by (metis option.distinct(1))
    with e have "k' = ?k" by (metis option.inject)
    then show thesis using switch True t c g by blast
  qed
qed

text \<open>Two states that agree on everything but the running thread and the scheduler lock.\<close>

definition hide_cpu :: "kernel \<Rightarrow> kernel" where
  "hide_cpu k = k\<lparr>sched_priority := 0, current := None, lock_nest := 0\<rparr>"

definition cpu_frame :: "kernel \<Rightarrow> kernel \<Rightarrow> bool" where
  "cpu_frame k k' \<longleftrightarrow> hide_cpu k' = hide_cpu k"

lemma cpu_frame_refl [simp]: "cpu_frame k k"
  by (simp add: cpu_frame_def)

lemma cpu_frame_trans [trans]: "cpu_frame k k' \<Longrightarrow> cpu_frame k' k'' \<Longrightarrow> cpu_frame k k''"
  by (simp add: cpu_frame_def)

lemma hide_cpu_sel:
  "thread (hide_cpu k) = thread k" "lists (hide_cpu k) = lists k"
  "ready_group (hide_cpu k) = ready_group k" "interrupt_nest (hide_cpu k) = interrupt_nest k"
  "tick (hide_cpu k) = tick k" "timers (hide_cpu k) = timers k"
  "timer_list (hide_cpu k) = timer_list k" "objects (hide_cpu k) = objects k"
  "containers (hide_cpu k) = containers k" "sems (hide_cpu k) = sems k"
  "mutexes (hide_cpu k) = mutexes k" "events (hide_cpu k) = events k"
  "mailboxes (hide_cpu k) = mailboxes k" "mqueues (hide_cpu k) = mqueues k"
  "mempools (hide_cpu k) = mempools k" "kheap (hide_cpu k) = kheap k"
  by (simp_all add: hide_cpu_def)

lemma cpu_frameD:
  assumes "cpu_frame k k'"
  shows "thread k' = thread k" "lists k' = lists k"
    "ready_group k' = ready_group k" "interrupt_nest k' = interrupt_nest k"
    "tick k' = tick k" "timers k' = timers k"
    "timer_list k' = timer_list k" "objects k' = objects k"
    "containers k' = containers k" "sems k' = sems k"
    "mutexes k' = mutexes k" "events k' = events k"
    "mailboxes k' = mailboxes k" "mqueues k' = mqueues k"
    "mempools k' = mempools k" "kheap k' = kheap k"
  using assms unfolding cpu_frame_def by (metis hide_cpu_sel)+

lemma cpu_frame_upd [simp]:
  "cpu_frame k (k\<lparr>lock_nest := n\<rparr>)" "cpu_frame k (k\<lparr>sched_priority := p, current := c\<rparr>)"
  "cpu_frame k (k\<lparr>current := c\<rparr>)"
  by (simp_all add: cpu_frame_def hide_cpu_def)

lemma wf_sched_cpu_frame: "wf_sched k \<Longrightarrow> cpu_frame k k' \<Longrightarrow> wf_sched k'"
  using wf_sched_cong[of k k'] cpu_frameD[of k k'] by blast

lemma rt_schedule_frame: "rt_schedule k = Some k' \<Longrightarrow> cpu_frame k k' \<and> lock_nest k' = lock_nest k"
  by (erule rt_schedule_cases) auto

lemma wf_sched_rt_schedule: "wf_sched k \<Longrightarrow> rt_schedule k = Some k' \<Longrightarrow> wf_sched k'"
  using rt_schedule_frame wf_sched_cpu_frame by blast

lemma tstat_cong: "thread k' = thread k \<Longrightarrow> tstat k' t = tstat k t"
  by (simp add: tstat_def)

lemma tprio_cong: "thread k' = thread k \<Longrightarrow> tprio k' t = tprio k t"
  by (simp add: tprio_def)

lemma must_run_cong: "thread k' = thread k \<Longrightarrow> lists k' = lists k \<Longrightarrow> must_run k' t = must_run k t"
  by (simp add: must_run_def tstat_def tprio_def)

lemma rt_schedule_must_run:
  assumes "wf_sched k" "rt_schedule k = Some k'" "lock_nest k = 0"
  shows "\<exists>t. current k' = Some t \<and> must_run k' t"
  using assms(2)
proof (cases rule: rt_schedule_cases)
  case locked
  then show ?thesis using assms(3) by simp
next
  case (stay t)
  then show ?thesis using highest_ready_must_run(1)[OF assms(1), of t] by simp
next
  case (switch t)
  then show ?thesis using highest_ready_must_run(1)[OF assms(1), of t] must_run_cong[of k' k t]
    by simp
qed

lemma rt_schedule_progress:
  assumes "wf_sched k" "tstat k u = RT_THREAD_READY" "current k \<noteq> None"
    and "\<And>t. must_run k t \<Longrightarrow> stack_ok k t"
  shows "\<exists>k'. rt_schedule k = Some k'"
proof -
  obtain t where t: "highest_ready k = Some t" using highest_ready_some assms(1,2) by blast
  then have "stack_ok k t" using assms(1,4) highest_ready_must_run by blast
  then show ?thesis using t assms(3)
    by (auto simp: rt_schedule_alt)
qed

section \<open>The scheduler lock\<close>

lemma rt_enter_critical_iter:
  "lock_nest ((rt_enter_critical ^^ n) k) = lock_nest k + of_nat n"
  by (induction n) (simp_all add: rt_enter_critical_def)

lemma wf_sched_enter_critical: "wf_sched k \<Longrightarrow> wf_sched (rt_enter_critical k)"
  by (erule wf_sched_cong) (simp_all add: rt_enter_critical_def)

lemma rt_exit_critical_frame:
  "rt_exit_critical k = Some k' \<Longrightarrow>
   cpu_frame k k'"
  using cpu_frame_trans[OF cpu_frame_upd(1)[of k 0]] rt_schedule_frame[of "k\<lparr>lock_nest := 0\<rparr>" k']
  by (auto simp: rt_exit_critical_def Let_def split: if_splits)

lemma wf_sched_exit_critical:
  "wf_sched k \<Longrightarrow> rt_exit_critical k = Some k' \<Longrightarrow> wf_sched k'"
  using rt_exit_critical_frame wf_sched_cpu_frame by blast

end
