(* ===== verification/KObject.thy ===== *)
theory KObject
  imports Scheduler
begin

text \<open>
  The kernel objects of \<^verbatim>\<open>src/object.c\<close>: every class has a container, the list of the objects
  of that class with the newest first. Object sizes are those of the 32-bit ABI. The hooks are
  null pointers after start-up and are left out.
\<close>

section \<open>The operations\<close>

definition rt_object_container :: "(u8 \<times> nat) list" where
  "rt_object_container =
     [(0, 128), (1, 32), (2, 36), (3, 32), (4, 48), (5, 52), (7, 56), (8, 76), (9, 44)]"

abbreviation (input) RT_Object_Class_Thread :: u8 where "RT_Object_Class_Thread \<equiv> 0"
abbreviation (input) RT_Object_Class_Semaphore :: u8 where "RT_Object_Class_Semaphore \<equiv> 1"
abbreviation (input) RT_Object_Class_Mutex :: u8 where "RT_Object_Class_Mutex \<equiv> 2"
abbreviation (input) RT_Object_Class_Event :: u8 where "RT_Object_Class_Event \<equiv> 3"
abbreviation (input) RT_Object_Class_MailBox :: u8 where "RT_Object_Class_MailBox \<equiv> 4"
abbreviation (input) RT_Object_Class_MessageQueue :: u8 where "RT_Object_Class_MessageQueue \<equiv> 5"
abbreviation (input) RT_Object_Class_MemPool :: u8 where "RT_Object_Class_MemPool \<equiv> 7"
abbreviation (input) RT_Object_Class_Timer :: u8 where "RT_Object_Class_Timer \<equiv> 9"
abbreviation (input) RT_Object_Class_Unknown :: u8 where "RT_Object_Class_Unknown \<equiv> 11"
abbreviation (input) RT_Object_Class_Static :: u8 where "RT_Object_Class_Static \<equiv> 0x80"

text \<open>The entry of a class, here the size of its objects; \<open>None\<close> is \<^verbatim>\<open>RT_NULL\<close>.\<close>

definition rt_object_get_information :: "u8 \<Rightarrow> nat option" where
  "rt_object_get_information ty = map_of rt_object_container ty"

definition obj_linked :: "obj_id \<Rightarrow> kernel \<Rightarrow> bool" where
  "obj_linked i k = list_ex (\<lambda>(c, _). i \<in> set (containers k c)) rt_object_container"

text \<open>\<^verbatim>\<open>rt_list_insert_after(&(information->object_list), &(object->list))\<close> and
  \<^verbatim>\<open>rt_list_remove(&(object->list))\<close>.\<close>

definition obj_link :: "u8 \<Rightarrow> obj_id \<Rightarrow> kernel \<Rightarrow> kernel option" where
  "obj_link ty i k = do {
     RT_ASSERT (\<not> obj_linked i k);
     Some (k\<lparr>containers := (containers k)(ty := i # containers k ty)\<rparr>)
   }"

definition obj_unlink :: "obj_id \<Rightarrow> kernel \<Rightarrow> kernel" where
  "obj_unlink i k = k\<lparr>containers := (\<lambda>c. removeAll i (containers k c))\<rparr>"

definition rt_object_init :: "obj_id \<Rightarrow> u8 \<Rightarrow> u8 list \<Rightarrow> kernel \<Rightarrow> kernel option" where
  "rt_object_init i ty name k = do {
     RT_ASSERT (rt_object_get_information ty \<noteq> None);
     nm \<leftarrow> rt_strncpy (obj_name (objects k i)) name RT_NAME_MAX;
     let k = upd_object i (\<lambda>b. b\<lparr>obj_type := ty OR RT_Object_Class_Static, obj_name := nm\<rparr>) k;
     obj_link ty i k
   }"

definition rt_object_detach :: "obj_id \<Rightarrow> kernel \<Rightarrow> kernel" where
  "rt_object_detach i k = obj_unlink i k"

definition k_malloc :: "nat \<Rightarrow> kernel \<Rightarrow> (nat \<times> kernel) option" where
  "k_malloc sz k = do {
     RT_DEBUG_NOT_IN_INTERRUPT k;
     (p, h) \<leftarrow> rt_malloc sz (kheap k);
     Some (p, k\<lparr>kheap := h\<rparr>)
   }"

definition k_free :: "nat \<Rightarrow> kernel \<Rightarrow> kernel option" where
  "k_free p k = do {
     RT_DEBUG_NOT_IN_INTERRUPT k;
     h \<leftarrow> rt_free p (kheap k);
     Some (k\<lparr>kheap := h\<rparr>)
   }"

definition k_realloc :: "nat \<Rightarrow> nat \<Rightarrow> kernel \<Rightarrow> (nat \<times> kernel) option" where
  "k_realloc rmem newsize k = do {
     RT_DEBUG_NOT_IN_INTERRUPT k;
     (p, h) \<leftarrow> rt_realloc rmem newsize (kheap k);
     Some (p, k\<lparr>kheap := h\<rparr>)
   }"

definition k_calloc :: "nat \<Rightarrow> nat \<Rightarrow> kernel \<Rightarrow> (nat \<times> kernel) option" where
  "k_calloc cnt sz k = do {
     RT_DEBUG_NOT_IN_INTERRUPT k;
     (p, h) \<leftarrow> rt_calloc cnt sz (kheap k);
     Some (p, k\<lparr>kheap := h\<rparr>)
   }"

definition k_system_heap_init :: "nat \<Rightarrow> nat \<Rightarrow> kernel \<Rightarrow> kernel option" where
  "k_system_heap_init begin_addr end_addr k = do {
     RT_DEBUG_NOT_IN_INTERRUPT k;
     Some (k\<lparr>kheap := rt_system_heap_init begin_addr end_addr (kheap k)\<rparr>)
   }"

text \<open>The result of an allocation is the address of the object, 0 for \<^verbatim>\<open>RT_NULL\<close>.\<close>

definition rt_object_allocate :: "u8 \<Rightarrow> u8 list \<Rightarrow> kernel \<Rightarrow> (nat \<times> kernel) option" where
  "rt_object_allocate ty name k = do {
     RT_DEBUG_NOT_IN_INTERRUPT k;
     sz \<leftarrow> rt_object_get_information ty;
     (p, k) \<leftarrow> k_malloc sz k;
     if p = 0 then Some (0, k)
     else do {
       nm \<leftarrow> rt_strncpy (obj_name (objects k (Obj p))) name RT_NAME_MAX;
       let k = upd_object (Obj p) (\<lambda>b. b\<lparr>obj_type := ty, obj_flag := 0, obj_name := nm\<rparr>) k;
       k \<leftarrow> obj_link ty (Obj p) k;
       Some (p, k)
     }
   }"

definition rt_object_is_systemobject :: "obj_id \<Rightarrow> kernel \<Rightarrow> bool" where
  "rt_object_is_systemobject i k \<longleftrightarrow> obj_type (objects k i) AND RT_Object_Class_Static \<noteq> 0"

definition rt_object_delete :: "nat \<Rightarrow> kernel \<Rightarrow> kernel option" where
  "rt_object_delete p k = do {
     RT_ASSERT (p \<noteq> 0);
     RT_ASSERT (obj_type (objects k (Obj p)) AND RT_Object_Class_Static = 0);
     k_free p (obj_unlink (Obj p) k)
   }"

fun obj_search :: "kernel \<Rightarrow> u8 list \<Rightarrow> obj_id list \<Rightarrow> obj_id option option" where
  "obj_search k name [] = Some None"
| "obj_search k name (i # is) = do {
     r \<leftarrow> rt_strncmp (obj_name (objects k i)) name RT_NAME_MAX;
     if r = 0 then Some (Some i) else obj_search k name is
   }"

definition rt_object_find ::
  "u8 list option \<Rightarrow> u8 \<Rightarrow> kernel \<Rightarrow> (obj_id option \<times> kernel) option" where
  "rt_object_find name ty k =
     (case name of
        None \<Rightarrow> Some (None, k)
      | Some nm \<Rightarrow>
          if ty > RT_Object_Class_Unknown then Some (None, k)
          else do {
            RT_DEBUG_NOT_IN_INTERRUPT k;
            let k = rt_enter_critical k;
            RT_ASSERT (rt_object_get_information ty \<noteq> None);
            i \<leftarrow> obj_search k nm (containers k ty);
            k \<leftarrow> rt_exit_critical k;
            Some (i, k)
          })"

section \<open>The containers\<close>

text \<open>Every object is in at most one container, once, and has a name of eight bytes.\<close>

definition wf_objects :: "kernel \<Rightarrow> bool" where
  "wf_objects k \<longleftrightarrow>
     (\<forall>c. distinct (containers k c)) \<and>
     (\<forall>c d. c \<noteq> d \<longrightarrow> set (containers k c) \<inter> set (containers k d) = {}) \<and>
     (\<forall>c. rt_object_get_information c = None \<longrightarrow> containers k c = []) \<and>
     (\<forall>i. length (obj_name (objects k i)) = RT_NAME_MAX)"

lemma wf_objects_cong:
  "wf_objects k \<Longrightarrow> containers k' = containers k \<Longrightarrow>
   (\<And>i. obj_name (objects k' i) = obj_name (objects k i)) \<Longrightarrow> wf_objects k'"
  by (simp add: wf_objects_def)

lemma obj_linked_iff:
  assumes "wf_objects k"
  shows "obj_linked i k \<longleftrightarrow> (\<exists>c. i \<in> set (containers k c))"
proof
  assume "obj_linked i k"
  then show "\<exists>c. i \<in> set (containers k c)"
    unfolding obj_linked_def list_ex_iff by auto
next
  assume "\<exists>c. i \<in> set (containers k c)"
  then obtain c where c: "i \<in> set (containers k c)" by blast
  then have "rt_object_get_information c \<noteq> None" using assms by (auto simp: wf_objects_def)
  then obtain n where "(c, n) \<in> set rt_object_container"
    by (auto simp: rt_object_get_information_def dest: map_of_SomeD)
  then show "obj_linked i k" unfolding obj_linked_def list_ex_iff using c by blast
qed

lemma obj_linked_upd_object [simp]: "obj_linked i (upd_object j f k) = obj_linked i k"
  by (simp add: obj_linked_def upd_object_def)

lemma wf_objects_link:
  assumes "wf_objects k" "obj_link ty i k = Some k'" "rt_object_get_information ty \<noteq> None"
  shows "wf_objects k'"
proof -
  have n: "\<not> obj_linked i k" and k': "k' = k\<lparr>containers := (containers k)(ty := i # containers k ty)\<rparr>"
    using assms(2) by (auto simp: obj_link_def)
  have "\<forall>c. i \<notin> set (containers k c)" using n obj_linked_iff[OF assms(1)] by blast
  then show ?thesis using assms(1,3) unfolding k' wf_objects_def by auto
qed

lemma wf_objects_unlink: "wf_objects k \<Longrightarrow> wf_objects (obj_unlink i k)"
  by (auto simp: wf_objects_def obj_unlink_def distinct_removeAll)

lemma wf_objects_upd_object:
  assumes "wf_objects k" "length (obj_name (f (objects k i))) = RT_NAME_MAX"
  shows "wf_objects (upd_object i f k)"
  using assms by (auto simp: wf_objects_def upd_object_def)

lemma wf_objects_init:
  assumes w: "wf_objects k" and "rt_object_init i ty name k = Some k'"
  shows "wf_objects k'"
proof -
  obtain nm where ty: "rt_object_get_information ty \<noteq> None"
    and nm: "rt_strncpy (obj_name (objects k i)) name RT_NAME_MAX = Some nm"
    and l: "obj_link ty i
      (upd_object i (\<lambda>b. b\<lparr>obj_type := ty OR RT_Object_Class_Static, obj_name := nm\<rparr>) k) = Some k'"
    using assms(2) by (auto simp: rt_object_init_def bind_eq_Some_conv)
  have "length nm = RT_NAME_MAX"
    using length_rt_strncpy[OF nm] w by (simp add: wf_objects_def)
  then show ?thesis by (intro wf_objects_link[OF wf_objects_upd_object[OF w] l ty]) simp
qed

end
