(* ===== verification/Timer.thy ===== *)
theory Timer
  imports KObject
begin

text \<open>
  The timers of \<^verbatim>\<open>src/timer.c\<close> with one row per timer (\<^verbatim>\<open>RT_TIMER_SKIP_LIST_LEVEL\<close> is 1) and
  without soft timers. \<^verbatim>\<open>rt_timer_check\<close>, which calls the timeout functions, is in theory
  \<open>Clock\<close>.

  The list of active timers is ordered by the time that is left, on a tick that wraps around.
\<close>

section \<open>The operations\<close>

definition timer_flag :: "obj_id \<Rightarrow> kernel \<Rightarrow> u8" where
  "timer_flag i k = obj_flag (objects k i)"

definition set_timer_flag :: "obj_id \<Rightarrow> (u8 \<Rightarrow> u8) \<Rightarrow> kernel \<Rightarrow> kernel" where
  "set_timer_flag i f k = upd_object i (\<lambda>b. b\<lparr>obj_flag := f (obj_flag b)\<rparr>) k"

definition flag_off :: "u8 \<Rightarrow> u8" where
  "flag_off f = f AND NOT RT_TIMER_FLAG_ACTIVATED"

definition flag_on :: "u8 \<Rightarrow> u8" where
  "flag_on f = f OR RT_TIMER_FLAG_ACTIVATED"

definition rt_timer_init_aux ::
  "obj_id \<Rightarrow> timeout_fn \<Rightarrow> nat \<Rightarrow> u32 \<Rightarrow> u8 \<Rightarrow> kernel \<Rightarrow> kernel option" where
  "rt_timer_init_aux i timeout param time flag k = do {
     let k = set_timer_flag i (\<lambda>_. flag_off flag) k;
     let k = upd_timer i (\<lambda>_. \<lparr>timeout_func = timeout, tm_parameter = param,
                               tm_init_tick = time, timeout_tick = 0\<rparr>) k;
     RT_ASSERT (i \<notin> set (timer_list k));
     Some k
   }"

definition rt_timer_list_next_timeout :: "kernel \<Rightarrow> u32" where
  "rt_timer_list_next_timeout k =
     (case timer_list k of [] \<Rightarrow> 0xFFFFFFFF | i # _ \<Rightarrow> timeout_tick (timers k i))"

definition rt_timer_next_timeout_tick :: "kernel \<Rightarrow> u32" where
  "rt_timer_next_timeout_tick k = rt_timer_list_next_timeout k"

definition rt_timer_remove :: "obj_id \<Rightarrow> kernel \<Rightarrow> kernel" where
  "rt_timer_remove i k = k\<lparr>timer_list := removeAll i (timer_list k)\<rparr>"

definition rt_timer_init ::
  "obj_id \<Rightarrow> u8 list \<Rightarrow> timeout_fn \<Rightarrow> nat \<Rightarrow> u32 \<Rightarrow> u8 \<Rightarrow> kernel \<Rightarrow> kernel option" where
  "rt_timer_init i name timeout param time flag k = do {
     k \<leftarrow> rt_object_init i RT_Object_Class_Timer name k;
     rt_timer_init_aux i timeout param time flag k
   }"

definition rt_timer_detach :: "obj_id \<Rightarrow> kernel \<Rightarrow> rt_err \<times> kernel" where
  "rt_timer_detach i k = (RT_EOK, rt_object_detach i (rt_timer_remove i k))"

definition rt_timer_create ::
  "u8 list \<Rightarrow> timeout_fn \<Rightarrow> nat \<Rightarrow> u32 \<Rightarrow> u8 \<Rightarrow> kernel \<Rightarrow> (nat \<times> kernel) option" where
  "rt_timer_create name timeout param time flag k = do {
     (p, k) \<leftarrow> rt_object_allocate RT_Object_Class_Timer name k;
     if p = 0 then Some (0, k)
     else do {
       k \<leftarrow> rt_timer_init_aux (Obj p) timeout param time flag k;
       Some (p, k)
     }
   }"

definition rt_timer_delete :: "nat \<Rightarrow> kernel \<Rightarrow> (rt_err \<times> kernel) option" where
  "rt_timer_delete p k = do {
     RT_ASSERT (p \<noteq> 0);
     k \<leftarrow> rt_object_delete p (rt_timer_remove (Obj p) k);
     Some (RT_EOK, k)
   }"

text \<open>The comparison of the insertion loop of \<^verbatim>\<open>rt_timer_start\<close>: a timer with the same
  expiry is passed, and the loop stops at the first one that expires later.\<close>

definition timer_before :: "(obj_id \<Rightarrow> rt_timer) \<Rightarrow> obj_id \<Rightarrow> obj_id \<Rightarrow> bool" where
  "timer_before ts i j \<longleftrightarrow>
     (let d = timeout_tick (ts j) - timeout_tick (ts i) in d \<noteq> 0 \<and> d < RT_TICK_HALF)"

fun timer_insert :: "(obj_id \<Rightarrow> rt_timer) \<Rightarrow> obj_id \<Rightarrow> obj_id list \<Rightarrow> obj_id list" where
  "timer_insert ts i [] = [i]"
| "timer_insert ts i (j # js) =
     (if timer_before ts i j then i # j # js else j # timer_insert ts i js)"

definition rt_timer_start :: "obj_id \<Rightarrow> kernel \<Rightarrow> (rt_err \<times> kernel) option" where
  "rt_timer_start i k = do {
     let k = rt_timer_remove i k;
     let k = set_timer_flag i flag_off k;
     RT_ASSERT (tm_init_tick (timers k i) < RT_TICK_HALF);
     let k = upd_timer i (\<lambda>t. t\<lparr>timeout_tick := tick k + tm_init_tick t\<rparr>) k;
     let k = k\<lparr>random_nr := random_nr k + 1\<rparr>;
     let k = k\<lparr>timer_list := timer_insert (timers k) i (timer_list k)\<rparr>;
     let k = set_timer_flag i flag_on k;
     Some (RT_EOK, k)
   }"

definition rt_timer_stop :: "obj_id \<Rightarrow> kernel \<Rightarrow> rt_err \<times> kernel" where
  "rt_timer_stop i k =
     (if timer_flag i k AND RT_TIMER_FLAG_ACTIVATED = 0 then (- RT_ERROR, k)
      else (RT_EOK, set_timer_flag i flag_off (rt_timer_remove i k)))"

text \<open>The argument of \<^verbatim>\<open>rt_timer_control\<close> is read by \<^verbatim>\<open>SET_TIME\<close> (0) and written by
  \<^verbatim>\<open>GET_TIME\<close> (1); the commands 2 and 3 change between one-shot and periodic.\<close>

definition rt_timer_control :: "obj_id \<Rightarrow> nat \<Rightarrow> u32 \<Rightarrow> kernel \<Rightarrow> rt_err \<times> u32 \<times> kernel" where
  "rt_timer_control i cmd arg k =
     (if cmd = 1 then (RT_EOK, tm_init_tick (timers k i), k)
      else if cmd = 0 then (RT_EOK, arg, upd_timer i (\<lambda>t. t\<lparr>tm_init_tick := arg\<rparr>) k)
      else if cmd = 2 then (RT_EOK, arg, set_timer_flag i (\<lambda>f. f AND NOT RT_TIMER_FLAG_PERIODIC) k)
      else if cmd = 3 then (RT_EOK, arg, set_timer_flag i (\<lambda>f. f OR RT_TIMER_FLAG_PERIODIC) k)
      else (RT_EOK, arg, k))"

definition rt_system_timer_init :: "kernel \<Rightarrow> kernel" where
  "rt_system_timer_init k = k\<lparr>timer_list := []\<rparr>"

section \<open>Time left on a wrapping tick\<close>

interpretation tq: ordered_insert timer_before timer_insert
  by unfold_locales simp_all

definition tleft :: "u32 \<Rightarrow> (obj_id \<Rightarrow> rt_timer) \<Rightarrow> obj_id \<Rightarrow> nat" where
  "tleft b ts i = unat (timeout_tick (ts i) - b)"

lemma unat_diff_wrap:
  fixes x y :: u32
  shows "unat (x - y) = (if unat y \<le> unat x then unat x - unat y else unat x + 2 ^ 32 - unat y)"
  by (simp add: unat_sub_if_size word_size)

text \<open>Seen from a common base, the wrapping comparison of the loop is the comparison of the
  time left, as long as all timers lie within half of the range.\<close>

lemma timer_before_tleft:
  assumes "tleft b ts j < 0x7FFFFFFF + tleft b ts i" "tleft b ts i \<le> 0x7FFFFFFF"
  shows "timer_before ts i j \<longleftrightarrow> tleft b ts i < tleft b ts j"
proof -
  let ?x = "timeout_tick (ts j) - b" and ?y = "timeout_tick (ts i) - b"
  have d: "timeout_tick (ts j) - timeout_tick (ts i) = ?x - ?y" by simp
  have z: "?x - ?y = 0 \<longleftrightarrow> unat ?x = unat ?y" unfolding right_minus_eq by (rule word_unat_eq_iff)
  have "?x - ?y < 0x7FFFFFFF \<longleftrightarrow> unat (?x - ?y) < 0x7FFFFFFF" by (simp add: word_less_nat_alt)
  then show ?thesis
    unfolding timer_before_def Let_def d using z assms unat_diff_wrap[of ?x ?y]
    by (auto simp: tleft_def split: if_splits)
qed

text \<open>The active timers: each once, in the order of the time left from the base \<open>b\<close>, which is at
  most half of the range. They carry the active flag, and the timer of a thread is active only
  while the thread is suspended.\<close>

definition timers_at :: "u32 \<Rightarrow> kernel \<Rightarrow> bool" where
  "timers_at b k \<longleftrightarrow>
     distinct (timer_list k) \<and>
     sorted_wrt (\<lambda>i j. tleft b (timers k) i \<le> tleft b (timers k) j) (timer_list k) \<and>
     (\<forall>i\<in>set (timer_list k). tleft b (timers k) i \<le> 0x7FFFFFFF)"

definition timers_linked :: "kernel \<Rightarrow> bool" where
  "timers_linked k \<longleftrightarrow>
     (\<forall>i\<in>set (timer_list k). timer_flag i k AND RT_TIMER_FLAG_ACTIVATED \<noteq> 0) \<and>
     (\<forall>t. TimerOf t \<in> set (timer_list k) \<longrightarrow> tstat k t = RT_THREAD_SUSPEND)"

text \<open>The timeout function of a thread's own timer, and of no other timer, is
  \<^verbatim>\<open>rt_thread_timeout\<close> on that thread; this timer is a one-shot timer.\<close>

definition timer_fns :: "kernel \<Rightarrow> bool" where
  "timer_fns k \<longleftrightarrow>
     (\<forall>t. timeout_func (timers k (TimerOf t)) = Thread_timeout \<and> tm_parameter (timers k (TimerOf t)) = t \<and>
          timer_flag (TimerOf t) k AND RT_TIMER_FLAG_PERIODIC = 0) \<and>
     (\<forall>a. timeout_func (timers k (Obj a)) \<noteq> Thread_timeout)"

text \<open>The invariant counts the time left from the tick before the current one, and no timer has
  less than \<open>lo\<close> left. Outside the tick interrupt \<open>lo\<close> is 1: no timer is overdue, at worst one
  expires at the current tick. In the interrupt, between the increment of the tick and the end of
  \<^verbatim>\<open>rt_timer_check\<close>, it is 0.\<close>

definition wf_timers :: "nat \<Rightarrow> kernel \<Rightarrow> bool" where
  "wf_timers lo k \<longleftrightarrow>
     timers_at (tick k - 1) k \<and> timers_linked k \<and> timer_fns k \<and>
     (\<forall>i\<in>set (timer_list k). lo \<le> tleft (tick k - 1) (timers k) i)"

section \<open>The operations on the timer list\<close>

lemma sorted_wrt_key_cong:
  "sorted_wrt (\<lambda>i j. f i \<le> (f j :: nat)) xs \<Longrightarrow> (\<And>i. i \<in> set xs \<Longrightarrow> g i = f i) \<Longrightarrow>
   sorted_wrt (\<lambda>i j. g i \<le> g j) xs"
  by (induction xs) auto

lemma timers_at_cong:
  assumes "timers_at b k" "timer_list k' = timer_list k"
    and "\<And>i. i \<in> set (timer_list k) \<Longrightarrow> timeout_tick (timers k' i) = timeout_tick (timers k i)"
  shows "timers_at b k'"
proof -
  have "tleft b (timers k') i = tleft b (timers k) i" if "i \<in> set (timer_list k)" for i
    using assms(3)[OF that] by (simp add: tleft_def)
  then show ?thesis using assms(1,2)
    by (auto simp: timers_at_def intro: sorted_wrt_key_cong)
qed

lemma wf_timers_cong:
  assumes "wf_timers lo k" "timer_list k' = timer_list k" "timers k' = timers k" "tick k' = tick k"
    and "\<And>i. i \<in> set (timer_list k) \<Longrightarrow> timer_flag i k' = timer_flag i k"
    and "\<And>t. timer_flag (TimerOf t) k AND RT_TIMER_FLAG_PERIODIC = 0 \<Longrightarrow>
      timer_flag (TimerOf t) k' AND RT_TIMER_FLAG_PERIODIC = 0"
    and "\<And>t. TimerOf t \<in> set (timer_list k) \<Longrightarrow> tstat k' t = tstat k t"
  shows "wf_timers lo k'"
  using assms timers_at_cong[of "tick k - 1" k k'] by (auto simp: wf_timers_def timers_linked_def timer_fns_def)

text \<open>Setting or clearing the active bit leaves the periodic bit alone.\<close>

lemma flag_bits [simp]:
  "flag_off f AND RT_TIMER_FLAG_PERIODIC = f AND RT_TIMER_FLAG_PERIODIC"
  "flag_on f AND RT_TIMER_FLAG_PERIODIC = f AND RT_TIMER_FLAG_PERIODIC"
  "flag_off f AND RT_TIMER_FLAG_ACTIVATED = 0"
  "flag_on f AND RT_TIMER_FLAG_ACTIVATED = RT_TIMER_FLAG_ACTIVATED"
  unfolding flag_off_def flag_on_def
  by (rule bit_word_eqI; auto simp: bit_simps numeral_eq_Suc less_Suc_eq bit_Suc)+

lemma timers_at_remove: "timers_at b k \<Longrightarrow> timers_at b (rt_timer_remove i k)"
  by (auto simp: timers_at_def rt_timer_remove_def distinct_removeAll intro: sorted_wrt_removeAll)

lemma timers_linked_remove: "timers_linked k \<Longrightarrow> timers_linked (rt_timer_remove i k)"
  by (auto simp: timers_linked_def rt_timer_remove_def timer_flag_def tstat_def)

lemma wf_timers_remove: "wf_timers lo k \<Longrightarrow> wf_timers lo (rt_timer_remove i k)"
  using timers_at_remove[of "tick k - 1" k i] timers_linked_remove[of k i]
  by (auto simp: wf_timers_def rt_timer_remove_def timer_fns_def timer_flag_def)

lemma rt_timer_remove_frame [simp]:
  "thread (rt_timer_remove i k) = thread k" "lists (rt_timer_remove i k) = lists k"
  "ready_group (rt_timer_remove i k) = ready_group k" "tick (rt_timer_remove i k) = tick k"
  "timers (rt_timer_remove i k) = timers k" "objects (rt_timer_remove i k) = objects k"
  "containers (rt_timer_remove i k) = containers k" "current (rt_timer_remove i k) = current k"
  "timer_list (rt_timer_remove i k) = removeAll i (timer_list k)"
  by (simp_all add: rt_timer_remove_def)

definition timer_started :: "obj_id \<Rightarrow> kernel \<Rightarrow> kernel" where
  "timer_started i k =
     (let ts = (timers k)(i := (timers k i)\<lparr>timeout_tick := tick k + tm_init_tick (timers k i)\<rparr>) in
      k\<lparr>objects := (objects k)(i := (objects k i)\<lparr>obj_flag :=
            flag_on (flag_off (obj_flag (objects k i)))\<rparr>),
        timers := ts,
        random_nr := random_nr k + 1,
        timer_list := timer_insert ts i (removeAll i (timer_list k))\<rparr>)"

lemma rt_timer_start_eq:
  "rt_timer_start i k =
     (if tm_init_tick (timers k i) < RT_TICK_HALF then Some (RT_EOK, timer_started i k) else None)"
  by (simp add: rt_timer_start_def timer_started_def set_timer_flag_def upd_object_def upd_timer_def
      rt_timer_remove_def bind_RT_ASSERT Let_def)

lemma timer_flag_started: "timer_flag i (timer_started i k) AND RT_TIMER_FLAG_ACTIVATED \<noteq> 0"
  by (simp add: timer_flag_def timer_started_def Let_def)

lemma timer_flag_started_other: "j \<noteq> i \<Longrightarrow> timer_flag j (timer_started i k) = timer_flag j k"
  by (simp add: timer_flag_def timer_started_def Let_def)

lemma timer_started_frame [simp]:
  "thread (timer_started i k) = thread k" "lists (timer_started i k) = lists k"
  "ready_group (timer_started i k) = ready_group k" "tick (timer_started i k) = tick k"
  "current (timer_started i k) = current k" "containers (timer_started i k) = containers k"
  "set (timer_list (timer_started i k)) = Set.insert i (set (timer_list k))"
  "obj_name (objects (timer_started i k) j) = obj_name (objects k j)"
  by (auto simp: timer_started_def Let_def)

lemma timers_at_started:
  assumes t: "timers_at b k"
    and new: "tleft b (timers (timer_started i k)) i \<le> 0x7FFFFFFF"
    and near: "\<And>j. j \<in> set (timer_list k) \<Longrightarrow>
      tleft b (timers k) j < 0x7FFFFFFF + tleft b (timers (timer_started i k)) i"
  shows "timers_at b (timer_started i k)"
proof -
  let ?l = "removeAll i (timer_list k)" and ?ts = "timers (timer_started i k)"
  have same: "j \<in> set ?l \<Longrightarrow> tleft b ?ts j = tleft b (timers k) j" for j
    by (simp add: tleft_def timer_started_def Let_def)
  have l: "timer_list (timer_started i k) = timer_insert ?ts i ?l"
    by (simp add: timer_started_def Let_def)
  have "sorted_wrt (\<lambda>i j. tleft b (timers k) i \<le> tleft b (timers k) j) ?l"
    using t by (auto simp: timers_at_def intro: sorted_wrt_removeAll)
  then have "sorted_wrt (\<lambda>i j. tleft b ?ts i \<le> tleft b ?ts j) ?l"
    by (rule sorted_wrt_key_cong) (rule same)
  moreover have "timer_before ?ts i j \<longleftrightarrow> tleft b ?ts i < tleft b ?ts j" if "j \<in> set ?l" for j
    using near[of j] that same[OF that] new by (intro timer_before_tleft) auto
  ultimately have "sorted_wrt (\<lambda>i j. tleft b ?ts i \<le> tleft b ?ts j) (timer_list (timer_started i k))"
    unfolding l by (rule tq.sorted_ins)
  moreover have "distinct (timer_list (timer_started i k))"
    using t unfolding l by (auto simp: timers_at_def distinct_removeAll intro: tq.distinct_ins)
  moreover have "\<forall>j\<in>set (timer_list (timer_started i k)). tleft b ?ts j \<le> 0x7FFFFFFF"
  proof
    fix j assume "j \<in> set (timer_list (timer_started i k))"
    then show "tleft b ?ts j \<le> 0x7FFFFFFF"
      using t new same[of j] unfolding l by (cases "j = i") (auto simp: timers_at_def)
  qed
  ultimately show ?thesis by (simp add: timers_at_def)
qed

lemma timers_linked_started:
  assumes "timers_linked k" "\<And>t. i = TimerOf t \<Longrightarrow> tstat k t = RT_THREAD_SUSPEND"
  shows "timers_linked (timer_started i k)"
  using assms timer_flag_started[of i k] timer_flag_started_other[of _ i k]
  unfolding timers_linked_def by (auto simp: tstat_def) metis

lemma tleft_started:
  assumes "tm_init_tick (timers k i) < RT_TICK_HALF"
  shows "tleft (tick k - 1) (timers (timer_started i k)) i = unat (tm_init_tick (timers k i)) + 1"
proof -
  have n: "unat (tm_init_tick (timers k i)) < 0x7FFFFFFF"
    using assms by (simp add: word_less_nat_alt)
  have e: "timeout_tick (timers (timer_started i k) i) - (tick k - 1) = tm_init_tick (timers k i) + 1"
    by (simp add: timer_started_def Let_def)
  show ?thesis unfolding tleft_def e using n by (simp add: unat_word_ariths)
qed

lemma wf_timers_started:
  assumes w: "wf_timers lo k" and i: "tm_init_tick (timers k i) < RT_TICK_HALF" and lo: "lo \<le> 1"
    and "\<And>t. i = TimerOf t \<Longrightarrow> tstat k t = RT_THREAD_SUSPEND"
  shows "wf_timers lo (timer_started i k)"
proof -
  have n: "unat (tm_init_tick (timers k i)) < 0x7FFFFFFF"
    using i by (simp add: word_less_nat_alt)
  have b: "\<forall>j\<in>set (timer_list k). tleft (tick k - 1) (timers k) j \<le> 0x7FFFFFFF"
    using w by (auto simp: wf_timers_def timers_at_def)
  have "timers_at (tick k - 1) (timer_started i k)"
    by (rule timers_at_started) (use w n b in \<open>auto simp: wf_timers_def tleft_started[OF i]\<close>)
  moreover have "timers_linked (timer_started i k)"
    using w assms(4) by (intro timers_linked_started) (auto simp: wf_timers_def)
  moreover have "lo \<le> tleft (tick k - 1) (timers (timer_started i k)) j"
    if "j \<in> set (timer_list (timer_started i k))" for j
    using that w lo tleft_started[OF i]
    by (cases "j = i") (auto simp: wf_timers_def tleft_def timer_started_def Let_def)
  moreover have "timer_fns (timer_started i k)"
    using w by (auto simp: wf_timers_def timer_fns_def timer_started_def timer_flag_def Let_def)
  ultimately show ?thesis by (simp add: wf_timers_def)
qed

text \<open>Stopping a timer takes it off the list.\<close>

definition timer_stopped :: "obj_id \<Rightarrow> kernel \<Rightarrow> kernel" where
  "timer_stopped i k = snd (rt_timer_stop i k)"

lemma timer_stopped_frame [simp]:
  "thread (timer_stopped i k) = thread k" "lists (timer_stopped i k) = lists k"
  "ready_group (timer_stopped i k) = ready_group k" "tick (timer_stopped i k) = tick k"
  "timers (timer_stopped i k) = timers k" "current (timer_stopped i k) = current k"
  "containers (timer_stopped i k) = containers k" "lock_nest (timer_stopped i k) = lock_nest k"
  "interrupt_nest (timer_stopped i k) = interrupt_nest k" "kheap (timer_stopped i k) = kheap k"
  "obj_name (objects (timer_stopped i k) j) = obj_name (objects k j)"
  by (auto simp: timer_stopped_def rt_timer_stop_def rt_timer_remove_def set_timer_flag_def
      upd_object_def)

lemma timer_flag_stopped_other: "j \<noteq> i \<Longrightarrow> timer_flag j (timer_stopped i k) = timer_flag j k"
  by (auto simp: timer_flag_def timer_stopped_def rt_timer_stop_def rt_timer_remove_def
      set_timer_flag_def upd_object_def)

lemma timer_list_stopped:
  "timers_linked k \<Longrightarrow> timer_list (timer_stopped i k) = removeAll i (timer_list k)"
  by (auto simp: timers_linked_def timer_stopped_def rt_timer_stop_def rt_timer_remove_def
      set_timer_flag_def upd_object_def removeAll_id)

lemma timers_at_stopped: "timers_at b k \<Longrightarrow> timers_linked k \<Longrightarrow> timers_at b (timer_stopped i k)"
  by (rule timers_at_cong[of b "rt_timer_remove i k"])
    (auto simp: timers_at_remove timer_list_stopped)

lemma timers_linked_stopped: "timers_linked k \<Longrightarrow> timers_linked (timer_stopped i k)"
  using timer_list_stopped[of k i] timer_flag_stopped_other[of _ i k]
  unfolding timers_linked_def by (auto simp: tstat_def)

lemma wf_timers_stopped: "wf_timers lo k \<Longrightarrow> wf_timers lo (timer_stopped i k)"
  using timers_at_stopped[of "tick k - 1" k i] timers_linked_stopped[of k i] timer_list_stopped[of k i]
  by (auto simp: wf_timers_def timer_fns_def timer_flag_def timer_stopped_def rt_timer_stop_def
      rt_timer_remove_def set_timer_flag_def upd_object_def)

lemma timer_stopped_not_in:
  "timers_linked k \<Longrightarrow> i \<notin> set (timer_list (timer_stopped i k))"
  by (simp add: timer_list_stopped)

lemma wf_sched_timer_stopped: "wf_sched k \<Longrightarrow> wf_sched (timer_stopped i k)"
  by (erule wf_sched_cong) simp_all

lemma wf_objects_timer_stopped: "wf_objects k \<Longrightarrow> wf_objects (timer_stopped i k)"
  by (erule wf_objects_cong) simp_all

lemma wf_sched_timer_started: "wf_sched k \<Longrightarrow> wf_sched (timer_started i k)"
  by (erule wf_sched_cong) simp_all

lemma wf_objects_timer_started: "wf_objects k \<Longrightarrow> wf_objects (timer_started i k)"
  by (erule wf_objects_cong) simp_all

text \<open>Changing the period of a timer does not touch the list.\<close>

lemma wf_timers_upd_timer:
  assumes "wf_timers lo k" "timeout_tick (f (timers k i)) = timeout_tick (timers k i)"
    and "timeout_func (f (timers k i)) = timeout_func (timers k i)"
    and "tm_parameter (f (timers k i)) = tm_parameter (timers k i)"
  shows "wf_timers lo (upd_timer i f k)"
proof -
  have "timeout_tick (timers (upd_timer i f k) j) = timeout_tick (timers k j)" for j
    using assms(2) by (simp add: upd_timer_def)
  then have "timers_at (tick k - 1) (upd_timer i f k)"
    using assms(1) timers_at_cong[of "tick k - 1" k "upd_timer i f k"]
    by (auto simp: wf_timers_def upd_timer_def)
  then show ?thesis using assms
    by (auto simp: wf_timers_def timers_linked_def timer_fns_def upd_timer_def timer_flag_def
        tstat_def tleft_def)
qed

end
