(* ===== verification/Thread.thy ===== *)
theory Thread
  imports Timer
begin

text \<open>
  \<^verbatim>\<open>src/thread.c\<close> and the stack frame set-up of \<^verbatim>\<open>libcpu/arm/cortex-m4/cpuport.c\<close>. A call that
  ends in \<^verbatim>\<open>rt_schedule\<close> is the code up to the switch; where the code goes on after the thread
  is scheduled again, that part is a definition of its own (\<open>rt_thread_sleep_cont\<close>).

  The theory proves that the thread operations keep \<open>wf_kernel\<close>, the conjunction of the
  invariants of the queues, the timers and the object containers.
\<close>

section \<open>The operations\<close>

text \<open>The address of \<^verbatim>\<open>rt_thread_exit\<close>, which the initial stack frame returns to, is fixed by the
  linker: it is the parameter \<open>texit\<close>.\<close>

fun fill_words :: "u32 \<Rightarrow> nat \<Rightarrow> u32 \<Rightarrow> cmem \<Rightarrow> cmem" where
  "fill_words p 0 w m = m"
| "fill_words p (Suc n) w m = fill_words (p + 4) n w (store32 (unat p) w m)"

definition rt_hw_stack_init :: "u32 \<Rightarrow> u32 \<Rightarrow> u32 \<Rightarrow> u32 \<Rightarrow> cmem \<Rightarrow> u32 \<times> cmem" where
  "rt_hw_stack_init tentry param saddr texit m =
     (let stk = saddr + 4;
          stk = stk AND NOT 7;
          stk = stk - 68;
          m = fill_words stk 17 0xdeadbeef m;
          m = store32 (unat (stk + 36)) param m;
          m = store32 (unat (stk + 40)) 0 m;
          m = store32 (unat (stk + 44)) 0 m;
          m = store32 (unat (stk + 48)) 0 m;
          m = store32 (unat (stk + 52)) 0 m;
          m = store32 (unat (stk + 56)) texit m;
          m = store32 (unat (stk + 60)) tentry m;
          m = store32 (unat (stk + 64)) 0x01000000 m;
          m = store32 (unat stk) 0 m
      in (stk, m))"

definition rt_thread_init_aux ::
  "u32 \<Rightarrow> nat \<Rightarrow> u32 \<Rightarrow> u32 \<Rightarrow> u32 \<Rightarrow> u32 \<Rightarrow> u8 \<Rightarrow> u32 \<Rightarrow> kernel \<Rightarrow> (rt_err \<times> kernel) option" where
  "rt_thread_init_aux texit t ent param stack_start stk_size priority tck k = do {
     RT_ASSERT (tlist (thread k t) = None);
     let m = rt_memset (unat stack_start) 0x23 (unat stk_size) (kram k);
     let (stk, m) = rt_hw_stack_init ent param (stack_start + stk_size - 4) texit m;
     let k = upd_ram (\<lambda>_. m) k;
     RT_ASSERT (unat priority < RT_THREAD_PRIORITY_MAX);
     let k = upd_thread t (\<lambda>th. th\<lparr>entry := ent, parameter := param, stack_addr := stack_start,
                 stack_size := stk_size, sp := stk, init_priority := priority,
                 current_priority := priority, number_mask := 0, init_tick := tck,
                 remaining_tick := tck, error := RT_EOK, stat := RT_THREAD_INIT,
                 cleanup := 0, user_data := 0\<rparr>) k;
     k \<leftarrow> rt_timer_init (TimerOf t) (obj_name (objects k (Obj t))) Thread_timeout t 0 0 k;
     Some (RT_EOK, k)
   }"

definition rt_thread_init ::
  "u32 \<Rightarrow> nat \<Rightarrow> u8 list \<Rightarrow> u32 \<Rightarrow> u32 \<Rightarrow> u32 \<Rightarrow> u32 \<Rightarrow> u8 \<Rightarrow> u32 \<Rightarrow> kernel \<Rightarrow>
   (rt_err \<times> kernel) option" where
  "rt_thread_init texit t name ent param stack_start stk_size priority tck k = do {
     RT_ASSERT (t \<noteq> 0);
     RT_ASSERT (stack_start \<noteq> 0);
     k \<leftarrow> rt_object_init (Obj t) RT_Object_Class_Thread name k;
     rt_thread_init_aux texit t ent param stack_start stk_size priority tck k
   }"

definition rt_thread_resume :: "nat \<Rightarrow> kernel \<Rightarrow> (rt_err \<times> kernel) option" where
  "rt_thread_resume t k =
     (if tstat k t \<noteq> RT_THREAD_SUSPEND then Some (- RT_ERROR, k)
      else do {
        let k = tl_unlink t k;
        let (_, k) = rt_timer_stop (TimerOf t) k;
        k \<leftarrow> rt_schedule_insert_thread t k;
        Some (RT_EOK, k)
      })"

definition rt_thread_suspend :: "nat \<Rightarrow> kernel \<Rightarrow> (rt_err \<times> kernel) option" where
  "rt_thread_suspend t k =
     (if tstat k t \<noteq> RT_THREAD_READY then Some (- RT_ERROR, k)
      else do {
        let k = upd_thread t (\<lambda>th. th\<lparr>stat := set_stat RT_THREAD_SUSPEND (stat th)\<rparr>) k;
        k \<leftarrow> rt_schedule_remove_thread t k;
        let (_, k) = rt_timer_stop (TimerOf t) k;
        Some (RT_EOK, k)
      })"

definition rt_thread_startup :: "nat \<Rightarrow> kernel \<Rightarrow> (rt_err \<times> kernel) option" where
  "rt_thread_startup t k = do {
     RT_ASSERT (t \<noteq> 0);
     RT_ASSERT (tstat k t = RT_THREAD_INIT);
     let k = upd_thread t (\<lambda>th. th\<lparr>current_priority := init_priority th\<rparr>) k;
     RT_ASSERT (tprio k t < 32);
     let k = upd_thread t (\<lambda>th. th\<lparr>number_mask := prio_mask (tprio k t), stat := RT_THREAD_SUSPEND\<rparr>) k;
     (_, k) \<leftarrow> rt_thread_resume t k;
     k \<leftarrow> (if rt_thread_self k \<noteq> None then rt_schedule k else Some k);
     Some (RT_EOK, k)
   }"

definition rt_thread_exit :: "kernel \<Rightarrow> kernel option" where
  "rt_thread_exit k = do {
     t \<leftarrow> rt_thread_self k;
     k \<leftarrow> rt_schedule_remove_thread t k;
     let k = upd_thread t (\<lambda>th. th\<lparr>stat := RT_THREAD_CLOSE\<rparr>) k;
     let (_, k) = rt_timer_detach (TimerOf t) k;
     k \<leftarrow> (if rt_object_is_systemobject (Obj t) k \<and> cleanup (thread k t) = 0
           then Some (rt_object_detach (Obj t) k)
           else tl_insert_after Defunct t k);
     rt_schedule k
   }"

definition rt_thread_detach :: "nat \<Rightarrow> kernel \<Rightarrow> (rt_err \<times> kernel) option" where
  "rt_thread_detach t k = do {
     RT_ASSERT (t \<noteq> 0);
     k \<leftarrow> (if tstat k t \<noteq> RT_THREAD_INIT then rt_schedule_remove_thread t k else Some k);
     let (_, k) = rt_timer_detach (TimerOf t) k;
     let k = upd_thread t (\<lambda>th. th\<lparr>stat := RT_THREAD_CLOSE\<rparr>) k;
     let k = rt_object_detach (Obj t) k;
     k \<leftarrow> (if cleanup (thread k t) \<noteq> 0 then tl_insert_after Defunct t k else Some k);
     Some (RT_EOK, k)
   }"

definition rt_thread_create ::
  "u32 \<Rightarrow> u8 list \<Rightarrow> u32 \<Rightarrow> u32 \<Rightarrow> u32 \<Rightarrow> u8 \<Rightarrow> u32 \<Rightarrow> kernel \<Rightarrow> (nat \<times> kernel) option" where
  "rt_thread_create texit name ent param stk_size priority tck k = do {
     (t, k) \<leftarrow> rt_object_allocate RT_Object_Class_Thread name k;
     if t = 0 then Some (0, k)
     else do {
       (stack_start, k) \<leftarrow> k_malloc (unat stk_size) k;
       if stack_start = 0 then do {
         k \<leftarrow> rt_object_delete t k;
         Some (0, k)
       } else do {
         (_, k) \<leftarrow> rt_thread_init_aux texit t ent param (of_nat stack_start) stk_size priority tck k;
         Some (t, k)
       }
     }
   }"

definition rt_thread_delete :: "nat \<Rightarrow> kernel \<Rightarrow> (rt_err \<times> kernel) option" where
  "rt_thread_delete t k = do {
     RT_ASSERT (t \<noteq> 0);
     k \<leftarrow> (if tstat k t \<noteq> RT_THREAD_INIT then rt_schedule_remove_thread t k else Some k);
     let (_, k) = rt_timer_detach (TimerOf t) k;
     let k = upd_thread t (\<lambda>th. th\<lparr>stat := RT_THREAD_CLOSE\<rparr>) k;
     k \<leftarrow> tl_insert_after Defunct t k;
     Some (RT_EOK, k)
   }"

text \<open>\<^verbatim>\<open>thread->tlist.next != thread->tlist.prev\<close>: the thread is not alone in its queue.\<close>

definition tlist_shared :: "nat \<Rightarrow> kernel \<Rightarrow> bool" where
  "tlist_shared t k =
     (case tlist (thread k t) of None \<Rightarrow> False | Some q \<Rightarrow> 2 \<le> length (lists k q))"

definition rt_thread_yield :: "kernel \<Rightarrow> (rt_err \<times> kernel) option" where
  "rt_thread_yield k = do {
     t \<leftarrow> rt_thread_self k;
     if tstat k t = RT_THREAD_READY \<and> tlist_shared t k then do {
       let k = tl_unlink t k;
       RT_ASSERT (tprio k t < RT_THREAD_PRIORITY_MAX);
       k \<leftarrow> tl_insert_before (Ready (tprio k t)) t k;
       k \<leftarrow> rt_schedule k;
       Some (RT_EOK, k)
     } else Some (RT_EOK, k)
   }"

definition rt_thread_sleep :: "u32 \<Rightarrow> kernel \<Rightarrow> kernel option" where
  "rt_thread_sleep tck k = do {
     t \<leftarrow> rt_thread_self k;
     (_, k) \<leftarrow> rt_thread_suspend t k;
     let (_, _, k) = rt_timer_control (TimerOf t) 0 tck k;
     (_, k) \<leftarrow> rt_timer_start (TimerOf t) k;
     rt_schedule k
   }"

definition rt_thread_sleep_cont :: "nat \<Rightarrow> kernel \<Rightarrow> rt_err \<times> kernel" where
  "rt_thread_sleep_cont t k =
     (RT_EOK, if error (thread k t) = - RT_ETIMEOUT
              then upd_thread t (\<lambda>th. th\<lparr>error := RT_EOK\<rparr>) k else k)"

definition rt_thread_delay :: "u32 \<Rightarrow> kernel \<Rightarrow> kernel option" where
  "rt_thread_delay tck k = rt_thread_sleep tck k"

text \<open>The shift \<^verbatim>\<open>1 << current_priority\<close> is undefined from 32 on.\<close>

definition set_priority :: "nat \<Rightarrow> u8 \<Rightarrow> kernel \<Rightarrow> kernel option" where
  "set_priority t prio k = do {
     let k = upd_thread t (\<lambda>th. th\<lparr>current_priority := prio\<rparr>) k;
     RT_ASSERT (tprio k t < 32);
     Some (upd_thread t (\<lambda>th. th\<lparr>number_mask := prio_mask (tprio k t)\<rparr>) k)
   }"

definition change_priority :: "nat \<Rightarrow> u8 \<Rightarrow> kernel \<Rightarrow> kernel option" where
  "change_priority t prio k =
     (if tstat k t = RT_THREAD_READY then do {
        k \<leftarrow> rt_schedule_remove_thread t k;
        k \<leftarrow> set_priority t prio k;
        rt_schedule_insert_thread t k
      } else set_priority t prio k)"

definition rt_thread_control :: "nat \<Rightarrow> nat \<Rightarrow> u8 \<Rightarrow> kernel \<Rightarrow> (rt_err \<times> kernel) option" where
  "rt_thread_control t cmd arg k =
     (if cmd = 2 then do {
        k \<leftarrow> change_priority t arg k;
        Some (RT_EOK, k)
      }
      else if cmd = 0 then rt_thread_startup t k
      else if cmd = 1 then rt_thread_delete t k
      else Some (RT_EOK, k))"

definition rt_thread_timeout :: "nat \<Rightarrow> kernel \<Rightarrow> kernel option" where
  "rt_thread_timeout t k = do {
     RT_ASSERT (t \<noteq> 0);
     RT_ASSERT (tstat k t = RT_THREAD_SUSPEND);
     let k = upd_thread t (\<lambda>th. th\<lparr>error := - RT_ETIMEOUT\<rparr>) k;
     let k = tl_unlink t k;
     k \<leftarrow> rt_schedule_insert_thread t k;
     rt_schedule k
   }"

definition rt_thread_find :: "u8 list \<Rightarrow> kernel \<Rightarrow> (obj_id option \<times> kernel) option" where
  "rt_thread_find name k = do {
     let k = (if rt_thread_self k \<noteq> None then rt_enter_critical k else k);
     i \<leftarrow> obj_search k name (containers k RT_Object_Class_Thread);
     k \<leftarrow> (if rt_thread_self k \<noteq> None then rt_exit_critical k else Some k);
     Some (i, k)
   }"

section \<open>The invariant of the kernel\<close>

text \<open>The null pointer is no started thread.\<close>

definition null_ok :: "kernel \<Rightarrow> bool" where
  "null_ok k \<longleftrightarrow> tstat k 0 \<noteq> RT_THREAD_READY \<and> tstat k 0 \<noteq> RT_THREAD_SUSPEND"

definition wf_kernel :: "nat \<Rightarrow> kernel \<Rightarrow> bool" where
  "wf_kernel lo k \<longleftrightarrow> wf_sched k \<and> wf_timers lo k \<and> wf_objects k \<and> null_ok k"

lemma wf_kernelD [dest]:
  assumes "wf_kernel lo k"
  shows "wf_sched k" "wf_timers lo k" "wf_objects k" "null_ok k"
  using assms by (auto simp: wf_kernel_def)

lemma wf_kernelI: "wf_sched k \<Longrightarrow> wf_timers lo k \<Longrightarrow> wf_objects k \<Longrightarrow> null_ok k \<Longrightarrow> wf_kernel lo k"
  by (simp add: wf_kernel_def)

text \<open>A change of threads and queues leaves the timers and objects alone.\<close>

lemma wf_timers_sched:
  assumes "wf_timers lo k" "timer_list k' = timer_list k" "timers k' = timers k" "tick k' = tick k"
    and "objects k' = objects k"
    and "\<And>u. TimerOf u \<in> set (timer_list k) \<Longrightarrow> tstat k' u = tstat k u"
  shows "wf_timers lo k'"
  using wf_timers_cong[of lo k k'] assms by (auto simp: timer_flag_def)

lemma wf_objects_sched:
  "wf_objects k \<Longrightarrow> containers k' = containers k \<Longrightarrow> objects k' = objects k \<Longrightarrow> wf_objects k'"
  by (erule wf_objects_cong) simp_all

lemma wf_timersD:
  assumes "wf_timers lo k"
  shows "timers_linked k" "TimerOf t \<in> set (timer_list k) \<Longrightarrow> tstat k t = RT_THREAD_SUSPEND"
  using assms by (auto simp: wf_timers_def timers_linked_def)

lemma null_ok_cong: "null_ok k \<Longrightarrow> tstat k' 0 = tstat k 0 \<Longrightarrow> null_ok k'"
  by (simp add: null_ok_def)

lemma wf_kernel_cpu_frame:
  assumes w: "wf_kernel lo k" and f: "cpu_frame k k'"
  shows "wf_kernel lo k'"
proof (rule wf_kernelI)
  note c = cpu_frameD[OF f]
  show "wf_sched k'" using w f wf_sched_cpu_frame by blast
  show "wf_timers lo k'" by (rule wf_timers_sched[of lo k]) (use w c in \<open>auto simp: tstat_def\<close>)
  show "wf_objects k'" by (rule wf_objects_sched[of k]) (use w c in auto)
  show "null_ok k'" by (rule null_ok_cong[of k]) (use w c in \<open>auto simp: tstat_def\<close>)
qed

lemma wf_kernel_schedule: "wf_kernel lo k \<Longrightarrow> rt_schedule k = Some k' \<Longrightarrow> wf_kernel lo k'"
  using rt_schedule_frame wf_kernel_cpu_frame by blast

text \<open>A change of one thread's own fields that keeps its queue and its state.\<close>

lemma wf_kernel_upd_thread:
  assumes w: "wf_kernel lo k" and "tlist (f (thread k t)) = tlist (thread k t)"
    and "stat (f (thread k t)) = stat (thread k t)" and "thread_ok (f (thread k t))"
  shows "wf_kernel lo (upd_thread t f k)"
proof (rule wf_kernelI)
  show "wf_sched (upd_thread t f k)" using w assms by (auto intro: wf_sched_upd_thread)
  show "wf_timers lo (upd_thread t f k)"
    by (rule wf_timers_sched[of lo k]) (use w assms in \<open>auto simp: tstat_def\<close>)
  show "wf_objects (upd_thread t f k)" by (rule wf_objects_sched[of k]) (use w in auto)
  show "null_ok (upd_thread t f k)"
    by (rule null_ok_cong[of k]) (use w assms(3) in \<open>auto simp: tstat_def\<close>)
qed

lemma thread_ok_cong:
  "thread_ok th \<Longrightarrow> tlist th' = tlist th \<Longrightarrow> stat th' = stat th \<Longrightarrow>
   current_priority th' = current_priority th \<Longrightarrow> number_mask th' = number_mask th \<Longrightarrow> thread_ok th'"
  by (simp add: thread_ok_def)

lemma wf_kernel_thread_fields:
  assumes w: "wf_kernel lo k" and "tlist (f (thread k t)) = tlist (thread k t)"
    and "stat (f (thread k t)) = stat (thread k t)"
    and "current_priority (f (thread k t)) = current_priority (thread k t)"
    and "number_mask (f (thread k t)) = number_mask (thread k t)"
  shows "wf_kernel lo (upd_thread t f k)"
  by (rule wf_kernel_upd_thread) (use assms thread_ok_cong wf_schedD(3) in auto)

section \<open>Suspending and resuming\<close>

definition thread_suspended :: "nat \<Rightarrow> kernel \<Rightarrow> kernel" where
  "thread_suspended t k = timer_stopped (TimerOf t) (sched_removed t
     (upd_thread t (\<lambda>th. th\<lparr>stat := set_stat RT_THREAD_SUSPEND (stat th)\<rparr>) k))"

lemma tprio_lt: "wf_sched k \<Longrightarrow> tprio k t < 32"
  using wf_schedD(3)[of k t] by (simp add: thread_ok_def tprio_def Let_def)

lemma rt_thread_suspend_eq:
  assumes "wf_sched k"
  shows "rt_thread_suspend t k =
    Some (if tstat k t = RT_THREAD_READY then (RT_EOK, thread_suspended t k) else (- RT_ERROR, k))"
proof -
  let ?k = "upd_thread t (\<lambda>th. th\<lparr>stat := set_stat RT_THREAD_SUSPEND (stat th)\<rparr>) k"
  have "wf_queues ?k" using assms by (auto simp: wf_queues_def dest!: wf_schedD(1))
  moreover have "tprio ?k t < 32" using tprio_lt[OF assms, of t] by (simp add: tprio_def)
  ultimately show ?thesis
    by (simp add: rt_thread_suspend_def rt_schedule_remove_thread_eq thread_suspended_def
        timer_stopped_def case_prod_beta)
qed

lemma wf_kernel_suspended:
  assumes w: "wf_kernel lo k" and r: "tstat k t = RT_THREAD_READY"
  shows "wf_kernel lo (thread_suspended t k)"
proof (rule wf_kernelI)
  let ?f = "\<lambda>th. th\<lparr>stat := set_stat RT_THREAD_SUSPEND (stat th)\<rparr>"
  let ?k1 = "upd_thread t ?f k"
  let ?k2 = "sched_removed t ?k1"
  have ok: "thread_ok (thread k t)" using w by blast
  have b1: "wf_but t ?k1"
    by (rule wf_but_upd_thread[OF wf_sched_but]) (use w in auto)
  have b2: "wf_but t ?k2"
    by (rule wf_but_removed[OF b1])
      (use ok r in \<open>auto simp: thread_ok_def tprio_def tstat_def Let_def\<close>)
  have "thread_ok (thread ?k2 t)"
    using ok r by (auto simp: thread_ok_def sched_removed_def tstat_def Let_def)
  with b2 have "wf_sched ?k2" by (rule wf_but_sched)
  then show "wf_sched (thread_suspended t k)"
    unfolding thread_suspended_def by (rule wf_sched_timer_stopped)
  have "wf_timers lo ?k2"
    by (rule wf_timers_sched[of lo k])
      (use w r wf_timersD(2)[of lo k t] in \<open>auto simp: sched_removed_def tstat_def\<close>)
  then show "wf_timers lo (thread_suspended t k)"
    unfolding thread_suspended_def by (rule wf_timers_stopped)
  have "wf_objects ?k2" by (rule wf_objects_sched[of k]) (use w in \<open>auto simp: sched_removed_def\<close>)
  then show "wf_objects (thread_suspended t k)"
    unfolding thread_suspended_def by (rule wf_objects_timer_stopped)
  show "null_ok (thread_suspended t k)"
    using w r by (cases "t = 0")
      (auto simp: null_ok_def tstat_def thread_suspended_def sched_removed_def)
qed

lemma thread_suspended_thread:
  "thread (thread_suspended t k) =
     (thread k)(t := (thread k t)\<lparr>stat := set_stat RT_THREAD_SUSPEND (stat (thread k t)), tlist := None\<rparr>)"
  by (simp add: thread_suspended_def sched_removed_def)

lemma tstat_suspended: "tstat (thread_suspended t k) t = RT_THREAD_SUSPEND"
  by (simp add: tstat_def thread_suspended_thread)

lemma timer_list_suspended:
  assumes "wf_kernel lo k"
  shows "timer_list (thread_suspended t k) = removeAll (TimerOf t) (timer_list k)"
proof -
  let ?k2 = "sched_removed t (upd_thread t (\<lambda>th. th\<lparr>stat := set_stat RT_THREAD_SUSPEND (stat th)\<rparr>) k)"
  have "timers_linked k" using assms by (auto dest: wf_timersD)
  then have "timer_list (timer_stopped (TimerOf t) ?k2) = removeAll (TimerOf t) (timer_list ?k2)"
    by (auto simp: timers_linked_def timer_stopped_def rt_timer_stop_def rt_timer_remove_def
        set_timer_flag_def upd_object_def removeAll_id timer_flag_def sched_removed_def)
  then show ?thesis by (simp add: thread_suspended_def sched_removed_def)
qed

text \<open>Resuming: the thread leaves its wait queue, its timer stops, and it becomes the last of
  the ready queue of its priority.\<close>

definition thread_resumed :: "nat \<Rightarrow> kernel \<Rightarrow> kernel" where
  "thread_resumed t k = sched_inserted t (timer_stopped (TimerOf t) (tl_unlink t k))"

lemma rt_thread_resume_eq:
  assumes "wf_sched k"
  shows "rt_thread_resume t k =
    Some (if tstat k t = RT_THREAD_SUSPEND then (RT_EOK, thread_resumed t k) else (- RT_ERROR, k))"
proof -
  let ?k = "timer_stopped (TimerOf t) (tl_unlink t k)"
  have "tlist (thread ?k t) = None" "tprio ?k t < 32"
    using tprio_lt[OF assms, of t] by (simp_all add: tl_unlink_eq tprio_def)
  then have "rt_schedule_insert_thread t ?k = Some (sched_inserted t ?k)"
    by (rule rt_schedule_insert_thread_eq)
  then show ?thesis
    by (simp add: rt_thread_resume_def thread_resumed_def timer_stopped_def case_prod_beta)
qed

lemma wf_sched_unlink_suspended:
  assumes w: "wf_sched k" and s: "tstat k t = RT_THREAD_SUSPEND"
  shows "wf_sched (tl_unlink t k)"
proof -
  have q: "wf_queues k" and ok: "thread_ok (thread k t)" using w by auto
  have nr: "tlist (thread k t) \<noteq> Some (Ready p)" for p
    using ok s by (auto simp: thread_ok_def tstat_def Let_def)
  then have same: "lists (tl_unlink t k) (Ready p) = lists k (Ready p)" for p
    using lists_unlink[OF q, of t "Ready p"] wf_queuesD(2)[OF q, of t "Ready p"]
    by (simp add: removeAll_id)
  have "wf_group (tl_unlink t k)"
    using w same by (auto simp: wf_group_def tl_unlink_eq dest!: wf_schedD(2))
  moreover have "thread_ok (thread (tl_unlink t k) u)" for u
    using w s wf_schedD(3)[OF w, of u]
    by (auto simp: tl_unlink_eq thread_ok_def tstat_def Let_def)
  ultimately show ?thesis using q by (auto simp: wf_sched_def)
qed

lemma wf_kernel_unlink_suspended:
  assumes w: "wf_kernel lo k" and s: "tstat k t = RT_THREAD_SUSPEND"
  shows "wf_kernel lo (tl_unlink t k)"
proof (rule wf_kernelI)
  show "wf_sched (tl_unlink t k)" using w s by (auto intro: wf_sched_unlink_suspended)
  show "wf_timers lo (tl_unlink t k)"
    by (rule wf_timers_sched[of lo k]) (use w in \<open>auto simp: tl_unlink_eq tstat_def\<close>)
  show "wf_objects (tl_unlink t k)"
    by (rule wf_objects_sched[of k]) (use w in \<open>auto simp: tl_unlink_eq\<close>)
  show "null_ok (tl_unlink t k)"
    by (rule null_ok_cong[of k]) (use w in \<open>auto simp: tl_unlink_eq tstat_def\<close>)
qed

lemma wf_kernel_timer_stopped: "wf_kernel lo k \<Longrightarrow> wf_kernel lo (timer_stopped i k)"
  by (auto simp: wf_kernel_def wf_sched_timer_stopped wf_timers_stopped wf_objects_timer_stopped
      null_ok_def tstat_def)

text \<open>Making a suspended thread ready whose timer is not active.\<close>

lemma wf_kernel_inserted:
  assumes w: "wf_kernel lo k" and s: "tstat k t = RT_THREAD_SUSPEND"
    and n: "tlist (thread k t) = None" and tm: "TimerOf t \<notin> set (timer_list k)"
  shows "wf_kernel lo (sched_inserted t k)"
proof (rule wf_kernelI)
  have ok: "thread_ok (thread k t)" and ws: "wf_sched k" using w by auto
  show "wf_sched (sched_inserted t k)"
    by (rule wf_sched_inserted)
      (use ws n ok s in \<open>auto simp: wf_sched_but thread_ok_def tprio_def tstat_def Let_def\<close>)
  show "wf_timers lo (sched_inserted t k)"
    by (rule wf_timers_sched[of lo k]) (use w tm in \<open>auto simp: sched_inserted_def tstat_def\<close>)
  show "wf_objects (sched_inserted t k)"
    by (rule wf_objects_sched[of k]) (use w in \<open>auto simp: sched_inserted_def\<close>)
  show "null_ok (sched_inserted t k)"
    using w s by (cases "t = 0") (auto simp: null_ok_def tstat_def sched_inserted_def)
qed

lemma wf_kernel_resumed:
  assumes w: "wf_kernel lo k" and s: "tstat k t = RT_THREAD_SUSPEND"
  shows "wf_kernel lo (thread_resumed t k)"
  unfolding thread_resumed_def
proof (rule wf_kernel_inserted)
  have u: "wf_kernel lo (tl_unlink t k)" by (rule wf_kernel_unlink_suspended[OF w s])
  show "wf_kernel lo (timer_stopped (TimerOf t) (tl_unlink t k))"
    by (rule wf_kernel_timer_stopped[OF u])
  show "TimerOf t \<notin> set (timer_list (timer_stopped (TimerOf t) (tl_unlink t k)))"
    using u by (intro timer_stopped_not_in) (auto dest: wf_timersD)
qed (use s in \<open>simp_all add: tl_unlink_eq tstat_def\<close>)

lemma thread_resumed_thread:
  "thread (thread_resumed t k) =
     (thread k)(t := (thread k t)\<lparr>stat := set_stat RT_THREAD_READY (stat (thread k t)),
                                  tlist := Some (Ready (tprio k t))\<rparr>)"
  by (simp add: thread_resumed_def sched_inserted_def tl_unlink_eq tprio_def)

lemma tstat_resumed: "tstat (thread_resumed t k) t = RT_THREAD_READY"
  by (simp add: tstat_def thread_resumed_thread)

lemma thread_resumed_lists:
  "wf_queues k \<Longrightarrow> lists (thread_resumed t k) q =
     (if q = Ready (tprio k t) then removeAll t (lists k q) @ [t] else removeAll t (lists k q))"
  by (simp add: thread_resumed_def sched_inserted_def tl_unlink_removed tprio_def)

lemma wf_kernel_resume:
  "wf_kernel lo k \<Longrightarrow> rt_thread_resume t k = Some (r, k') \<Longrightarrow> wf_kernel lo k'"
  using rt_thread_resume_eq[OF wf_kernelD(1), of lo k t] wf_kernel_resumed[of lo k t]
  by (auto split: if_splits)

lemma wf_kernel_suspend:
  "wf_kernel lo k \<Longrightarrow> rt_thread_suspend t k = Some (r, k') \<Longrightarrow> wf_kernel lo k'"
  using rt_thread_suspend_eq[OF wf_kernelD(1), of lo k t] wf_kernel_suspended[of lo k t]
  by (auto split: if_splits)

section \<open>Starting and closing threads\<close>

lemma wf_kernel_startup:
  assumes w: "wf_kernel lo k" and r: "rt_thread_startup t k = Some (r, k')"
  shows "wf_kernel lo k'"
proof -
  let ?p = "init_priority (thread k t)"
  let ?k1 = "upd_thread t (\<lambda>th. th\<lparr>current_priority := ?p, number_mask := prio_mask (unat ?p),
    stat := RT_THREAD_SUSPEND\<rparr>) k"
  have i: "tstat k t = RT_THREAD_INIT" and p: "unat ?p < 32"
    using r by (auto simp: rt_thread_startup_def tprio_def bind_eq_Some_conv Let_def)
  have ok: "thread_ok (thread k t)" using w by blast
  have n: "tlist (thread k t) = None"
    using ok i by (cases "tlist (thread k t)"; cases "the (tlist (thread k t))")
      (auto simp: thread_ok_def tstat_def Let_def)
  have w1: "wf_kernel lo ?k1"
  proof (rule wf_kernelI)
    show "wf_sched ?k1"
      by (rule wf_sched_upd_thread) (use w n p in \<open>auto simp: thread_ok_def Let_def\<close>)
    show "wf_timers lo ?k1"
      by (rule wf_timers_sched[of lo k]) (use w i wf_timersD(2)[of lo k t] in \<open>auto simp: tstat_def\<close>)
    show "wf_objects ?k1" by (rule wf_objects_sched[of k]) (use w in auto)
    show "null_ok ?k1"
      by (rule null_ok_cong[of k]) (use w r in \<open>auto simp: tstat_def rt_thread_startup_def\<close>)
  qed
  obtain e k2 where k2: "rt_thread_resume t ?k1 = Some (e, k2)"
    and k': "(if rt_thread_self k2 \<noteq> None then rt_schedule k2 else Some k2) = Some k'"
    using r by (auto simp: rt_thread_startup_def bind_eq_Some_conv Let_def tprio_def upd_thread_def)
  have "wf_kernel lo k2" by (rule wf_kernel_resume[OF w1 k2])
  then show ?thesis using k' by (auto split: if_splits intro: wf_kernel_schedule)
qed

definition thread_closed :: "nat \<Rightarrow> kernel \<Rightarrow> kernel" where
  "thread_closed t k =
     upd_thread t (\<lambda>th. th\<lparr>stat := RT_THREAD_CLOSE\<rparr>) (snd (rt_timer_detach (TimerOf t) k))"

lemma rt_timer_detach_upd_thread:
  "rt_timer_detach i (upd_thread t f k) = (RT_EOK, upd_thread t f (snd (rt_timer_detach i k)))"
  by (simp add: rt_timer_detach_def rt_object_detach_def obj_unlink_def rt_timer_remove_def
      upd_thread_def)

lemma rt_timer_detach_frame [simp]:
  "thread (snd (rt_timer_detach i k)) = thread k" "lists (snd (rt_timer_detach i k)) = lists k"
  "ready_group (snd (rt_timer_detach i k)) = ready_group k"
  "objects (snd (rt_timer_detach i k)) = objects k"
  "timers (snd (rt_timer_detach i k)) = timers k" "tick (snd (rt_timer_detach i k)) = tick k"
  "current (snd (rt_timer_detach i k)) = current k" "lock_nest (snd (rt_timer_detach i k)) = lock_nest k"
  "timer_list (snd (rt_timer_detach i k)) = removeAll i (timer_list k)"
  "containers (snd (rt_timer_detach i k)) = (\<lambda>c. removeAll i (containers k c))"
  by (simp_all add: rt_timer_detach_def rt_object_detach_def obj_unlink_def rt_timer_remove_def)

lemma wf_objects_detach: "wf_objects k \<Longrightarrow> wf_objects (rt_object_detach i k)"
  by (simp add: rt_object_detach_def wf_objects_unlink)

lemma wf_objects_timer_detach: "wf_objects k \<Longrightarrow> wf_objects (snd (rt_timer_detach i k))"
  using wf_objects_unlink[of "rt_timer_remove i k" i] wf_objects_sched[of k "rt_timer_remove i k"]
  by (simp add: rt_timer_detach_def rt_object_detach_def)

lemma wf_timers_timer_detach: "wf_timers lo k \<Longrightarrow> wf_timers lo (snd (rt_timer_detach i k))"
  by (rule wf_timers_sched[OF wf_timers_remove[of lo k i]]) (simp_all add: tstat_def)

lemma wf_kernel_closed:
  assumes w: "wf_kernel lo k" and b: "wf_but t k1" and n: "tlist (thread k1 t) = None"
    and m: "tprio k1 t < 32"
      "number_mask (thread k1 t) = prio_mask (tprio k1 t) \<or> number_mask (thread k1 t) = 0"
    and same: "timer_list k1 = timer_list k" "timers k1 = timers k" "tick k1 = tick k"
      "objects k1 = objects k" "containers k1 = containers k"
      "\<And>u. u \<noteq> t \<Longrightarrow> tstat k1 u = tstat k u"
  shows "wf_kernel lo (thread_closed t k1)"
proof (rule wf_kernelI)
  have "wf_but t (snd (rt_timer_detach (TimerOf t) k1))" by (rule wf_but_cong[OF b]) simp_all
  then have "wf_but t (thread_closed t k1)"
    unfolding thread_closed_def by (rule wf_but_upd_thread) simp
  then show "wf_sched (thread_closed t k1)"
    by (rule wf_but_sched) (use n m in \<open>auto simp: thread_closed_def thread_ok_def tprio_def Let_def\<close>)
  have "wf_timers lo (snd (rt_timer_detach (TimerOf t) k))"
    using w by (auto intro: wf_timers_timer_detach)
  then show "wf_timers lo (thread_closed t k1)"
    by (rule wf_timers_sched) (use same in \<open>auto simp: thread_closed_def tstat_def\<close>)
  have "wf_objects (snd (rt_timer_detach (TimerOf t) k))"
    using w by (auto intro: wf_objects_timer_detach)
  then show "wf_objects (thread_closed t k1)"
    by (rule wf_objects_sched) (use same in \<open>auto simp: thread_closed_def\<close>)
  show "null_ok (thread_closed t k1)"
    using w same(6)[of 0] by (cases "t = 0") (auto simp: null_ok_def tstat_def thread_closed_def)
qed

lemma wf_but_sched_removed:
  assumes "wf_sched k"
  shows "wf_but t (sched_removed t k)"
proof -
  have "thread_ok (thread k t)" using assms by blast
  then show ?thesis
    by (intro wf_but_removed wf_sched_but assms)
      (auto simp: thread_ok_def tprio_def Let_def)
qed

lemma wf_kernel_closed_removed:
  assumes w: "wf_kernel lo k"
  shows "wf_kernel lo (thread_closed t (sched_removed t k))"
proof (rule wf_kernel_closed[OF w wf_but_sched_removed])
  have "thread_ok (thread k t)" using w by blast
  then show "tprio (sched_removed t k) t < 32"
    "number_mask (thread (sched_removed t k) t) = prio_mask (tprio (sched_removed t k) t) \<or>
     number_mask (thread (sched_removed t k) t) = 0"
    by (auto simp: thread_ok_def tprio_def sched_removed_def Let_def)
qed (use w in \<open>auto simp: sched_removed_def tstat_def\<close>)

lemma tlist_init:
  assumes "thread_ok (thread k t)" "tstat k t = RT_THREAD_INIT"
  shows "tlist (thread k t) = None"
  using assms by (cases "tlist (thread k t)"; cases "the (tlist (thread k t))")
    (auto simp: thread_ok_def tstat_def Let_def)

lemma wf_kernel_closed_init:
  assumes w: "wf_kernel lo k" and i: "tstat k t = RT_THREAD_INIT"
  shows "wf_kernel lo (thread_closed t k)"
proof (rule wf_kernel_closed[OF w wf_sched_but])
  have ok: "thread_ok (thread k t)" using w by blast
  then show "tlist (thread k t) = None" using i by (rule tlist_init)
  show "tprio k t < 32"
    "number_mask (thread k t) = prio_mask (tprio k t) \<or> number_mask (thread k t) = 0"
    using ok by (auto simp: thread_ok_def tprio_def Let_def)
qed (use w in auto)

text \<open>A closed thread goes to the defunct queue.\<close>

lemma wf_kernel_defunct:
  assumes w: "wf_kernel lo k" and s: "tstat k t = RT_THREAD_CLOSE"
    and i: "tl_insert_after Defunct t k = Some k'"
  shows "wf_kernel lo k'"
proof -
  have n: "tlist (thread k t) = None" and k': "k' = tl_set Defunct (t # lists k Defunct) t k"
    using i by (auto simp: tl_insert_after_def)
  have q: "wf_queues k" using w by blast
  have "wf_queues k'" unfolding k'
    by (rule wf_queues_set) (use q n in \<open>auto simp: wf_queues_def\<close>)
  moreover have "wf_group k" using w by blast
  then have "wf_group k'" unfolding k' by (simp add: wf_group_def tl_set_eq)
  moreover have "thread_ok (thread k' u)" for u
    using w s wf_schedD(3)[OF wf_kernelD(1)[OF w], of u] unfolding k'
    by (auto simp: tl_set_eq thread_ok_def tstat_def Let_def)
  ultimately have "wf_sched k'" by (simp add: wf_sched_def)
  moreover have "wf_timers lo k'"
    by (rule wf_timers_sched[of lo k]) (use w in \<open>auto simp: k' tl_set_eq tstat_def\<close>)
  moreover have "wf_objects k'" by (rule wf_objects_sched[of k]) (use w in \<open>auto simp: k' tl_set_eq\<close>)
  moreover have "null_ok k'"
    by (rule null_ok_cong[of k]) (use w in \<open>auto simp: k' tl_set_eq tstat_def\<close>)
  ultimately show ?thesis by (rule wf_kernelI)
qed

lemma tstat_closed: "tstat (thread_closed t k) t = RT_THREAD_CLOSE"
  by (simp add: thread_closed_def tstat_def)

lemma wf_kernel_object_detach: "wf_kernel lo k \<Longrightarrow> wf_kernel lo (rt_object_detach i k)"
proof (rule wf_kernelI)
  assume w: "wf_kernel lo k"
  show "wf_sched (rt_object_detach i k)"
    by (rule wf_sched_cong[of k]) (use w in \<open>auto simp: rt_object_detach_def obj_unlink_def\<close>)
  show "wf_timers lo (rt_object_detach i k)"
    by (rule wf_timers_sched[of lo k])
      (use w in \<open>auto simp: rt_object_detach_def obj_unlink_def tstat_def\<close>)
  show "wf_objects (rt_object_detach i k)" using w by (auto intro: wf_objects_detach)
  show "null_ok (rt_object_detach i k)" by (rule null_ok_cong[of k])
    (use w in \<open>auto simp: rt_object_detach_def obj_unlink_def tstat_def\<close>)
qed

lemma rt_schedule_remove_wf:
  "wf_kernel lo k \<Longrightarrow> rt_schedule_remove_thread t k = Some (sched_removed t k)"
  using tprio_lt by (intro rt_schedule_remove_thread_eq) auto

lemma rt_thread_exit_eq:
  "wf_kernel lo k \<Longrightarrow> current k = Some t \<Longrightarrow>
   rt_thread_exit k =
     (let k1 = thread_closed t (sched_removed t k) in
      Option.bind
        (if rt_object_is_systemobject (Obj t) k1 \<and> cleanup (thread k1 t) = 0
         then Some (rt_object_detach (Obj t) k1) else tl_insert_after Defunct t k1)
        rt_schedule)"
  by (simp add: rt_thread_exit_def rt_thread_self_def rt_schedule_remove_wf
      rt_timer_detach_upd_thread thread_closed_def Let_def)

lemma wf_kernel_exit:
  assumes w: "wf_kernel lo k" and r: "rt_thread_exit k = Some k'"
  shows "wf_kernel lo k'"
proof -
  obtain t where t: "current k = Some t"
    using r by (auto simp: rt_thread_exit_def rt_thread_self_def bind_eq_Some_conv)
  let ?k1 = "thread_closed t (sched_removed t k)"
  have w1: "wf_kernel lo ?k1" by (rule wf_kernel_closed_removed[OF w])
  obtain k2 where k2: "(if rt_object_is_systemobject (Obj t) ?k1 \<and> cleanup (thread ?k1 t) = 0
      then Some (rt_object_detach (Obj t) ?k1) else tl_insert_after Defunct t ?k1) = Some k2"
    and k': "rt_schedule k2 = Some k'"
    using r unfolding rt_thread_exit_eq[OF w t] Let_def bind_eq_Some_conv by blast
  have "wf_kernel lo k2"
    using k2 w1 wf_kernel_defunct[OF w1 tstat_closed] wf_kernel_object_detach[OF w1]
    by (auto split: if_splits)
  then show ?thesis using k' by (rule wf_kernel_schedule)
qed

text \<open>The common part of \<^verbatim>\<open>rt_thread_detach\<close> and \<^verbatim>\<open>rt_thread_delete\<close>.\<close>

lemma wf_kernel_close_cases:
  assumes w: "wf_kernel lo k"
    and k1: "(if tstat k t \<noteq> RT_THREAD_INIT then rt_schedule_remove_thread t k else Some k) = Some k1"
  shows "wf_kernel lo (thread_closed t k1)"
  using k1 wf_kernel_closed_removed[OF w, of t] wf_kernel_closed_init[OF w, of t]
    rt_schedule_remove_wf[OF w, of t]
  by (auto split: if_splits)

lemma wf_kernel_delete:
  assumes w: "wf_kernel lo k" and r: "rt_thread_delete t k = Some (e, k')"
  shows "wf_kernel lo k'"
proof -
  obtain k1 where
    k1: "(if tstat k t \<noteq> RT_THREAD_INIT then rt_schedule_remove_thread t k else Some k) = Some k1"
    and k2: "tl_insert_after Defunct t (thread_closed t k1) = Some k'"
    using r by (auto simp: rt_thread_delete_def bind_eq_Some_conv thread_closed_def case_prod_beta)
  show ?thesis
    by (rule wf_kernel_defunct[OF wf_kernel_close_cases[OF w k1] tstat_closed k2])
qed

lemma wf_kernel_detach:
  assumes w: "wf_kernel lo k" and r: "rt_thread_detach t k = Some (e, k')"
  shows "wf_kernel lo k'"
proof -
  obtain k1 where
    k1: "(if tstat k t \<noteq> RT_THREAD_INIT then rt_schedule_remove_thread t k else Some k) = Some k1"
    and k2: "(let k = rt_object_detach (Obj t) (thread_closed t k1) in
      if cleanup (thread k t) \<noteq> 0 then tl_insert_after Defunct t k else Some k) = Some k'"
    using r by (auto simp: rt_thread_detach_def bind_eq_Some_conv thread_closed_def case_prod_beta Let_def)
  let ?k = "rt_object_detach (Obj t) (thread_closed t k1)"
  have "wf_kernel lo ?k" by (rule wf_kernel_object_detach[OF wf_kernel_close_cases[OF w k1]])
  moreover have "tstat ?k t = RT_THREAD_CLOSE"
    by (simp add: rt_object_detach_def obj_unlink_def thread_closed_def tstat_def)
  ultimately show ?thesis
    using k2 wf_kernel_defunct[of lo ?k t k'] by (auto simp: Let_def split: if_splits)
qed

section \<open>Yielding, sleeping and changing priority\<close>

text \<open>The thread that yields becomes the last of its queue; its own fields do not change.\<close>

definition thread_rotated :: "nat \<Rightarrow> kernel \<Rightarrow> kernel" where
  "thread_rotated t k = tl_push (Ready (tprio k t)) t (tl_unlink t k)"

lemma rotated_thread:
  assumes "wf_kernel lo k" "tstat k t = RT_THREAD_READY"
  shows "tlist (thread k t) = Some (Ready (tprio k t))" "thread (thread_rotated t k) = thread k"
proof -
  have "thread_ok (thread k t)" using assms by blast
  then show tl: "tlist (thread k t) = Some (Ready (tprio k t))"
    using assms(2) by (auto simp: thread_ok_def tstat_def tprio_def Let_def)
  show "thread (thread_rotated t k) = thread k"
    using tl by (auto simp: thread_rotated_def tl_push_def tl_set_eq tl_unlink_eq)
qed

lemma wf_kernel_rotated:
  assumes w: "wf_kernel lo k" and r: "tstat k t = RT_THREAD_READY"
  shows "wf_kernel lo (thread_rotated t k)"
proof (rule wf_kernelI)
  let ?k1 = "thread_rotated t k"
  have q: "wf_queues k" and g: "wf_group k" and ok: "\<And>u. thread_ok (thread k u)"
    using w by auto
  note tl = rotated_thread(1)[OF w r] and th = rotated_thread(2)[OF w r]
  have ls: "lists ?k1 = (\<lambda>q. removeAll t (lists k q) @ (if q = Ready (tprio k t) then [t] else []))"
    using lists_unlink[OF q, of t] by (auto simp: thread_rotated_def tl_push_def tl_set_eq fun_eq_iff)
  have "wf_queues ?k1" unfolding thread_rotated_def
    by (rule wf_queues_push[OF wf_queues_unlink[OF q]]) (simp add: tl_unlink_eq)
  moreover have "wf_group ?k1"
  proof -
    have "lists ?k1 (Ready p) = [] \<longleftrightarrow> lists k (Ready p) = []" for p
      using wf_queuesD(2)[OF q, of t "Ready p"] tl
      by (cases "p = tprio k t") (auto simp: ls removeAll_id)
    then show ?thesis
      using g by (auto simp: wf_group_def thread_rotated_def tl_push_def tl_set_eq tl_unlink_eq)
  qed
  ultimately show "wf_sched ?k1" using ok by (simp add: wf_sched_def th)
  show "wf_timers lo ?k1"
    by (rule wf_timers_sched[of lo k])
      (use w th in \<open>auto simp: tstat_def thread_rotated_def tl_push_def tl_set_eq tl_unlink_eq\<close>)
  show "wf_objects ?k1"
    by (rule wf_objects_sched[of k])
      (use w in \<open>auto simp: thread_rotated_def tl_push_def tl_set_eq tl_unlink_eq\<close>)
  show "null_ok ?k1" by (rule null_ok_cong[of k]) (use w th in \<open>auto simp: tstat_def\<close>)
qed

lemma rt_thread_yield_eq:
  assumes "wf_kernel lo k" "current k = Some t"
  shows "rt_thread_yield k =
    (if tstat k t = RT_THREAD_READY \<and> tlist_shared t k
     then map_option (Pair RT_EOK) (rt_schedule (thread_rotated t k)) else Some (RT_EOK, k))"
proof -
  have "tprio k t < 32" using assms(1) by (auto intro: tprio_lt)
  then show ?thesis
    using assms(2) by (simp add: rt_thread_yield_def rt_thread_self_def tl_insert_before_def
        tl_unlink_eq tprio_def thread_rotated_def map_option_case split: option.splits)
qed

lemma wf_kernel_yield:
  assumes w: "wf_kernel lo k" and r: "rt_thread_yield k = Some (e, k')"
  shows "wf_kernel lo k'"
proof -
  obtain t where t: "current k = Some t"
    using r by (auto simp: rt_thread_yield_def rt_thread_self_def bind_eq_Some_conv)
  show ?thesis
    using r w wf_kernel_schedule[OF wf_kernel_rotated[OF w]]
    unfolding rt_thread_yield_eq[OF w t] by (auto split: if_splits)
qed

lemma wf_kernel_timer_time:
  "wf_kernel lo k \<Longrightarrow> wf_kernel lo (upd_timer i (\<lambda>t. t\<lparr>tm_init_tick := n\<rparr>) k)"
  using wf_timers_upd_timer[of lo k "\<lambda>t. t\<lparr>tm_init_tick := n\<rparr>" i]
    wf_sched_cong[of k "upd_timer i (\<lambda>t. t\<lparr>tm_init_tick := n\<rparr>) k"]
    wf_objects_sched[of k "upd_timer i (\<lambda>t. t\<lparr>tm_init_tick := n\<rparr>) k"]
  by (auto simp: wf_kernel_def upd_timer_def null_ok_def tstat_def)

lemma wf_kernel_started:
  assumes "wf_kernel lo k" "lo \<le> 1" "tm_init_tick (timers k i) < RT_TICK_HALF"
    and "\<And>t. i = TimerOf t \<Longrightarrow> tstat k t = RT_THREAD_SUSPEND"
  shows "wf_kernel lo (timer_started i k)"
  using assms wf_timers_started[of lo k i]
  by (auto simp: wf_kernel_def wf_sched_timer_started wf_objects_timer_started null_ok_def tstat_def)

lemma wf_kernel_timer_start:
  "wf_kernel lo k \<Longrightarrow> lo \<le> 1 \<Longrightarrow> rt_timer_start i k = Some (r, k') \<Longrightarrow>
   (\<And>t. i = TimerOf t \<Longrightarrow> tstat k t = RT_THREAD_SUSPEND) \<Longrightarrow> wf_kernel lo k'"
  by (auto simp: rt_timer_start_eq split: if_splits intro: wf_kernel_started)

text \<open>Arming the timer of a suspended thread, as sleeping and every timed wait do.\<close>

lemma wf_kernel_arm:
  assumes w: "wf_kernel lo k" and lo: "lo \<le> 1" and s: "tstat k t = RT_THREAD_SUSPEND"
    and r: "rt_timer_start (TimerOf t) (snd (snd (rt_timer_control (TimerOf t) 0 tck k))) = Some (e, k')"
  shows "wf_kernel lo k'"
proof (rule wf_kernel_timer_start[OF _ lo r])
  show "wf_kernel lo (snd (snd (rt_timer_control (TimerOf t) 0 tck k)))"
    using wf_kernel_timer_time[OF w] by (simp add: rt_timer_control_def)
qed (use s in \<open>simp add: rt_timer_control_def upd_timer_def tstat_def\<close>)

lemma wf_kernel_sleep:
  assumes w: "wf_kernel lo k" and lo: "lo \<le> 1"
    and c: "\<And>t. current k = Some t \<Longrightarrow> tstat k t \<in> {RT_THREAD_READY, RT_THREAD_SUSPEND}"
    and r: "rt_thread_sleep tck k = Some k'"
  shows "wf_kernel lo k'"
proof -
  obtain t e k1 e2 k2 where t: "current k = Some t" and k1: "rt_thread_suspend t k = Some (e, k1)"
    and k2: "rt_timer_start (TimerOf t) (snd (snd (rt_timer_control (TimerOf t) 0 tck k1))) = Some (e2, k2)"
    and k': "rt_schedule k2 = Some k'"
    using r by (auto simp: rt_thread_sleep_def rt_thread_self_def bind_eq_Some_conv case_prod_beta)
  have w1: "wf_kernel lo k1" by (rule wf_kernel_suspend[OF w k1])
  have "tstat k1 t = RT_THREAD_SUSPEND"
    using k1 rt_thread_suspend_eq[OF wf_kernelD(1)[OF w], of t] c[OF t] tstat_suspended[of t k]
    by (auto split: if_splits)
  then have "wf_kernel lo k2" using w1 lo k2 wf_kernel_arm by blast
  then show ?thesis using k' by (rule wf_kernel_schedule)
qed

lemma set_priority_eq:
  "set_priority t p k = (if unat p < 32
     then Some (upd_thread t (\<lambda>th. th\<lparr>current_priority := p, number_mask := prio_mask (unat p)\<rparr>) k)
     else None)"
  by (simp add: set_priority_def tprio_def bind_RT_ASSERT upd_thread_def)

lemma wf_kernel_change_priority:
  assumes w: "wf_kernel lo k" and r: "change_priority t p k = Some k'"
  shows "wf_kernel lo k'"
proof (cases "tstat k t = RT_THREAD_READY")
  case False
  let ?f = "\<lambda>th. th\<lparr>current_priority := p, number_mask := prio_mask (unat p)\<rparr>"
  have k': "k' = upd_thread t ?f k" and p: "unat p < 32"
    using r False by (auto simp: change_priority_def set_priority_eq split: if_splits)
  have "thread_ok (thread k t)" using w by blast
  then have "thread_ok (?f (thread k t))"
    using False p by (auto simp: thread_ok_def tstat_def Let_def)
  then show ?thesis unfolding k' by (intro wf_kernel_upd_thread[OF w]) simp_all
next
  case True
  let ?f = "\<lambda>th. th\<lparr>current_priority := p, number_mask := prio_mask (unat p)\<rparr>"
  let ?k1 = "upd_thread t ?f (sched_removed t k)"
  have p: "unat p < 32" and k': "rt_schedule_insert_thread t ?k1 = Some k'"
    using r True rt_schedule_remove_wf[OF w, of t]
    by (auto simp: change_priority_def set_priority_eq split: if_splits)
  have b: "wf_but t ?k1"
    by (rule wf_but_upd_thread[OF wf_but_sched_removed]) (use w in auto)
  have n: "tlist (thread ?k1 t) = None" "tprio ?k1 t < 32"
    "number_mask (thread ?k1 t) = prio_mask (tprio ?k1 t)"
    using p by (simp_all add: sched_removed_def tprio_def)
  have e: "k' = sched_inserted t ?k1" using k' rt_schedule_insert_thread_eq[OF n(1,2)] by simp
  show ?thesis unfolding e
  proof (rule wf_kernelI)
    show "wf_sched (sched_inserted t ?k1)" by (rule wf_sched_inserted[OF b n])
    show "wf_timers lo (sched_inserted t ?k1)"
      by (rule wf_timers_sched[of lo k])
        (use w True in \<open>auto simp: sched_inserted_def sched_removed_def tstat_def\<close>)
    show "wf_objects (sched_inserted t ?k1)"
      by (rule wf_objects_sched[of k]) (use w in \<open>auto simp: sched_inserted_def sched_removed_def\<close>)
    show "null_ok (sched_inserted t ?k1)"
      using w True by (cases "t = 0")
        (auto simp: null_ok_def tstat_def sched_inserted_def sched_removed_def)
  qed
qed

lemma wf_kernel_control:
  "wf_kernel lo k \<Longrightarrow> rt_thread_control t cmd arg k = Some (r, k') \<Longrightarrow> wf_kernel lo k'"
  by (auto simp: rt_thread_control_def bind_eq_Some_conv split: if_splits
      intro: wf_kernel_change_priority wf_kernel_startup wf_kernel_delete)

lemma wf_kernel_timeout:
  assumes w: "wf_kernel lo k" and tm: "TimerOf t \<notin> set (timer_list k)"
    and r: "rt_thread_timeout t k = Some k'"
  shows "wf_kernel lo k'"
proof -
  let ?k1 = "upd_thread t (\<lambda>th. th\<lparr>error := - RT_ETIMEOUT\<rparr>) k"
  let ?k2 = "tl_unlink t ?k1"
  have s: "tstat k t = RT_THREAD_SUSPEND"
    using r by (auto simp: rt_thread_timeout_def)
  obtain k3 where k3: "rt_schedule_insert_thread t ?k2 = Some k3" and k': "rt_schedule k3 = Some k'"
    using r by (auto simp: rt_thread_timeout_def bind_eq_Some_conv)
  have w1: "wf_kernel lo ?k1" by (rule wf_kernel_thread_fields[OF w]) simp_all
  have s1: "tstat ?k1 t = RT_THREAD_SUSPEND" using s by (simp add: tstat_def)
  have w2: "wf_kernel lo ?k2" by (rule wf_kernel_unlink_suspended[OF w1 s1])
  have n: "tlist (thread ?k2 t) = None" by (simp add: tl_unlink_eq)
  have "tprio ?k2 t < 32" using w2 tprio_lt by blast
  then have e: "k3 = sched_inserted t ?k2" using k3 rt_schedule_insert_thread_eq[OF n] by simp
  have "wf_kernel lo k3" unfolding e
    by (rule wf_kernel_inserted[OF w2 _ n]) (use s tm in \<open>simp_all add: tl_unlink_eq tstat_def\<close>)
  then show ?thesis using k' by (rule wf_kernel_schedule)
qed

section \<open>Creating objects\<close>

text \<open>The invariant reads only these fields; all other parts of the state may change freely.\<close>

lemma wf_kernel_same:
  assumes w: "wf_kernel lo k" and "thread k' = thread k" "lists k' = lists k"
    and "ready_group k' = ready_group k" "timer_list k' = timer_list k" "timers k' = timers k"
    and "tick k' = tick k" "objects k' = objects k" "containers k' = containers k"
  shows "wf_kernel lo k'"
proof (rule wf_kernelI)
  show "wf_sched k'" using w assms wf_sched_cong[of k k'] by auto
  show "wf_timers lo k'"
    by (rule wf_timers_sched[of lo k]) (use w assms in \<open>auto simp: tstat_def\<close>)
  show "wf_objects k'" using w assms wf_objects_sched[of k k'] by auto
  show "null_ok k'" by (rule null_ok_cong[of k]) (use w assms in \<open>auto simp: tstat_def\<close>)
qed

lemma wf_kernel_objects:
  assumes w: "wf_kernel lo k" and "thread k' = thread k" "lists k' = lists k"
    and "ready_group k' = ready_group k" "timer_list k' = timer_list k" "timers k' = timers k"
    and "tick k' = tick k"
    and "\<And>i. i \<in> set (timer_list k) \<Longrightarrow> timer_flag i k' = timer_flag i k"
    and "\<And>t. timer_flag (TimerOf t) k AND RT_TIMER_FLAG_PERIODIC = 0 \<Longrightarrow>
      timer_flag (TimerOf t) k' AND RT_TIMER_FLAG_PERIODIC = 0"
    and "wf_objects k'"
  shows "wf_kernel lo k'"
proof (rule wf_kernelI)
  show "wf_sched k'" using w assms wf_sched_cong[of k k'] by auto
  show "wf_timers lo k'"
    by (rule wf_timers_cong[of lo k]) (use w assms in \<open>auto simp: tstat_def\<close>)
  show "null_ok k'" by (rule null_ok_cong[of k]) (use w assms in \<open>auto simp: tstat_def\<close>)
qed (rule assms)

lemma rt_object_init_frame:
  assumes "rt_object_init i ty name k = Some k'"
  shows "thread k' = thread k" "lists k' = lists k" "ready_group k' = ready_group k"
    "timer_list k' = timer_list k" "timers k' = timers k" "tick k' = tick k"
    "current k' = current k" "lock_nest k' = lock_nest k" "interrupt_nest k' = interrupt_nest k"
    "timer_flag j k' = timer_flag j k" "kheap k' = kheap k" "sems k' = sems k"
    "mutexes k' = mutexes k" "events k' = events k" "mailboxes k' = mailboxes k"
    "mqueues k' = mqueues k" "mempools k' = mempools k"
  using assms
  by (auto simp: rt_object_init_def obj_link_def upd_object_def bind_eq_Some_conv timer_flag_def
      Let_def)

lemma wf_kernel_object_init:
  assumes "wf_kernel lo k" "rt_object_init i ty name k = Some k'"
  shows "wf_kernel lo k'"
  by (rule wf_kernel_objects[of lo k])
    (use assms(1) rt_object_init_frame[OF assms(2)] wf_objects_init[OF _ assms(2)] in auto)

lemma wf_kernel_timer_init_aux:
  assumes w: "wf_kernel lo k" and r: "rt_timer_init_aux i fn p time flag k = Some k'"
    and fn: "case i of TimerOf t \<Rightarrow> fn = Thread_timeout \<and> p = t \<and> flag = 0 | Obj a \<Rightarrow> fn \<noteq> Thread_timeout"
  shows "wf_kernel lo k'"
proof -
  let ?t = "\<lparr>timeout_func = fn, tm_parameter = p, tm_init_tick = time, timeout_tick = 0\<rparr>"
  have n: "i \<notin> set (timer_list k)"
    and k': "k' = upd_timer i (\<lambda>_. ?t) (set_timer_flag i (\<lambda>_. flag_off flag) k)"
    using r by (auto simp: rt_timer_init_aux_def upd_timer_def set_timer_flag_def upd_object_def)
  have eq: "thread k' = thread k" "lists k' = lists k" "ready_group k' = ready_group k"
    "timer_list k' = timer_list k" "tick k' = tick k" "containers k' = containers k"
    "timers k' = (timers k)(i := ?t)" "\<And>j. obj_name (objects k' j) = obj_name (objects k j)"
    "\<And>j. j \<noteq> i \<Longrightarrow> timer_flag j k' = timer_flag j k"
    unfolding k' by (auto simp: upd_timer_def set_timer_flag_def upd_object_def timer_flag_def)
  show ?thesis
  proof (rule wf_kernelI)
    show "wf_sched k'" using w eq wf_sched_cong[of k k'] by auto
    show "wf_objects k'" using w eq wf_objects_cong[of k k'] by auto
    show "null_ok k'" by (rule null_ok_cong[of k]) (use w eq in \<open>auto simp: tstat_def\<close>)
    have "timers_at (tick k - 1) k'"
      by (rule timers_at_cong[of _ k]) (use w eq n in \<open>auto simp: wf_timers_def\<close>)
    moreover have "timer_flag j k' = timer_flag j k" if "j \<in> set (timer_list k)" for j
      using that n eq(9)[of j] by auto
    then have "timers_linked k'"
      using w eq(1,4) by (auto simp: wf_timers_def timers_linked_def tstat_def dest!: wf_kernelD(2))
    moreover have "timer_fns k'"
    proof -
      have "timer_flag i k' = flag_off flag"
        unfolding k' by (simp add: upd_timer_def set_timer_flag_def upd_object_def timer_flag_def)
      then show ?thesis using w eq(7,9) fn
        by (cases i) (auto simp: wf_timers_def timer_fns_def dest!: wf_kernelD(2))
    qed
    moreover have "\<forall>j\<in>set (timer_list k'). lo \<le> tleft (tick k' - 1) (timers k') j"
      using w eq n by (auto simp: wf_timers_def tleft_def dest!: wf_kernelD(2))
    ultimately show "wf_timers lo k'" using eq by (simp add: wf_timers_def)
  qed
qed

lemma wf_kernel_timer_init:
  assumes w: "wf_kernel lo k" and r: "rt_timer_init i name fn p time flag k = Some k'"
    and fn: "case i of TimerOf t \<Rightarrow> fn = Thread_timeout \<and> p = t \<and> flag = 0 | Obj a \<Rightarrow> fn \<noteq> Thread_timeout"
  shows "wf_kernel lo k'"
proof -
  obtain k1 where k1: "rt_object_init i RT_Object_Class_Timer name k = Some k1"
    and k': "rt_timer_init_aux i fn p time flag k1 = Some k'"
    using r by (auto simp: rt_timer_init_def bind_eq_Some_conv)
  show ?thesis by (rule wf_kernel_timer_init_aux[OF wf_kernel_object_init[OF w k1] k' fn])
qed

lemma wf_kernel_ram: "wf_kernel lo k \<Longrightarrow> wf_kernel lo (upd_ram f k)"
  by (erule wf_kernel_same) (simp_all add: upd_ram_def)

lemma wf_kernel_thread_init_aux:
  assumes w: "wf_kernel lo k"
    and r: "rt_thread_init_aux texit t ent par st sz prio tck k = Some (e, k')"
    and old: "tstat k t \<noteq> RT_THREAD_SUSPEND"
  shows "wf_kernel lo k'"
proof -
  let ?m = "rt_memset (unat st) 0x23 (unat sz) (kram k)"
  let ?s = "rt_hw_stack_init ent par (st + sz - 4) texit ?m"
  let ?k1 = "upd_ram (\<lambda>_. snd ?s) k"
  let ?f = "\<lambda>th. th\<lparr>entry := ent, parameter := par, stack_addr := st, stack_size := sz, sp := fst ?s,
      init_priority := prio, current_priority := prio, number_mask := 0, init_tick := tck,
      remaining_tick := tck, error := RT_EOK, stat := RT_THREAD_INIT, cleanup := 0, user_data := 0\<rparr>"
  let ?k2 = "upd_thread t ?f ?k1"
  have n: "tlist (thread k t) = None" and p: "unat prio < 32"
    and k': "rt_timer_init (TimerOf t) (obj_name (objects ?k2 (Obj t))) Thread_timeout t 0 0 ?k2 = Some k'"
    using r by (auto simp: rt_thread_init_aux_def bind_eq_Some_conv case_prod_beta Let_def)
  have w1: "wf_kernel lo ?k1" by (rule wf_kernel_ram[OF w])
  have "wf_kernel lo ?k2"
  proof (rule wf_kernelI)
    show "wf_sched ?k2"
      by (rule wf_sched_upd_thread)
        (use w1 n p in \<open>auto simp: upd_ram_def thread_ok_def Let_def\<close>)
    show "wf_timers lo ?k2"
      by (rule wf_timers_sched[of lo k])
        (use w old wf_timersD(2)[of lo k t] in \<open>auto simp: upd_ram_def tstat_def\<close>)
    show "wf_objects ?k2" by (rule wf_objects_sched[of k]) (use w in \<open>auto simp: upd_ram_def\<close>)
    show "null_ok ?k2" using w by (cases "t = 0") (auto simp: null_ok_def tstat_def upd_ram_def)
  qed
  then show ?thesis by (rule wf_kernel_timer_init[OF _ k']) simp
qed

lemma wf_kernel_thread_init:
  assumes w: "wf_kernel lo k"
    and r: "rt_thread_init texit t name ent par st sz prio tck k = Some (e, k')"
    and old: "tstat k t \<noteq> RT_THREAD_SUSPEND"
  shows "wf_kernel lo k'"
proof -
  obtain k1 where k1: "rt_object_init (Obj t) RT_Object_Class_Thread name k = Some k1"
    and k': "rt_thread_init_aux texit t ent par st sz prio tck k1 = Some (e, k')"
    using r by (auto simp: rt_thread_init_def bind_eq_Some_conv)
  show ?thesis
    by (rule wf_kernel_thread_init_aux[OF wf_kernel_object_init[OF w k1] k'])
      (use old rt_object_init_frame(1)[OF k1] in \<open>simp add: tstat_def\<close>)
qed

lemma wf_kernel_timer_detach: "wf_kernel lo k \<Longrightarrow> wf_kernel lo (snd (rt_timer_detach i k))"
proof (rule wf_kernelI)
  assume w: "wf_kernel lo k"
  show "wf_sched (snd (rt_timer_detach i k))"
    by (rule wf_sched_cong[of k]) (use w in auto)
  show "null_ok (snd (rt_timer_detach i k))"
    by (rule null_ok_cong[of k]) (use w in \<open>auto simp: tstat_def\<close>)
qed (auto intro: wf_timers_timer_detach wf_objects_timer_detach)

end
