(* ===== verification/Clock.thy ===== *)
theory Clock
  imports Thread
begin

text \<open>
  The tick of \<^verbatim>\<open>src/clock.c\<close>, the timer check of \<^verbatim>\<open>src/timer.c\<close> that it calls, and the idle
  thread of \<^verbatim>\<open>src/idle.c\<close>. The timeout functions and cleanup functions of the application are
  the parameters \<open>cb\<close> and \<open>clean\<close>; what the proofs assume of a timeout function is named in
  \<open>callback_ok\<close> and \<open>callback_total\<close>.

  The loops are partial functions: not returning is \<open>None\<close>, as every other way of stopping.
  \<open>rt_timer_check_returns\<close> shows that the check does return.
\<close>

section \<open>The operations\<close>

definition rt_tick_get :: "kernel \<Rightarrow> u32" where
  "rt_tick_get k = tick k"

definition rt_tick_set :: "u32 \<Rightarrow> kernel \<Rightarrow> kernel" where
  "rt_tick_set n k = k\<lparr>tick := n\<rparr>"

type_synonym callback = "u32 \<Rightarrow> nat \<Rightarrow> kernel \<Rightarrow> kernel option"

definition call_timeout :: "callback \<Rightarrow> obj_id \<Rightarrow> kernel \<Rightarrow> kernel option" where
  "call_timeout cb i k =
     (let t = timers k i in
      case timeout_func t of
        Thread_timeout \<Rightarrow> rt_thread_timeout (tm_parameter t) k
      | User_timeout f \<Rightarrow> cb f (tm_parameter t) k)"

definition timer_expired :: "u32 \<Rightarrow> obj_id \<Rightarrow> kernel \<Rightarrow> bool" where
  "timer_expired now i k \<longleftrightarrow> now - timeout_tick (timers k i) < RT_TICK_HALF"

definition timer_fire :: "callback \<Rightarrow> obj_id \<Rightarrow> kernel \<Rightarrow> kernel option" where
  "timer_fire cb i k = do {
     k \<leftarrow> call_timeout cb i (rt_timer_remove i k);
     if timer_flag i k AND RT_TIMER_FLAG_PERIODIC \<noteq> 0 \<and> timer_flag i k AND RT_TIMER_FLAG_ACTIVATED \<noteq> 0
     then do {
       (_, k) \<leftarrow> rt_timer_start i (set_timer_flag i flag_off k);
       Some k
     }
     else Some (set_timer_flag i flag_off k)
   }"

text \<open>In the loop the tick is read again after each timeout function and before the timer is
  restarted; restarting does not change it.\<close>

partial_function (option) timer_check_loop :: "callback \<Rightarrow> u32 \<Rightarrow> kernel \<Rightarrow> kernel option" where
  "timer_check_loop cb now k =
     (case timer_list k of
        [] \<Rightarrow> Some k
      | i # _ \<Rightarrow>
          if timer_expired now i k then do {
            k \<leftarrow> timer_fire cb i k;
            timer_check_loop cb (rt_tick_get k) k
          } else Some k)"

definition rt_timer_check :: "callback \<Rightarrow> kernel \<Rightarrow> kernel option" where
  "rt_timer_check cb k = timer_check_loop cb (rt_tick_get k) k"

definition rt_tick_increase :: "callback \<Rightarrow> kernel \<Rightarrow> kernel option" where
  "rt_tick_increase cb k = do {
     let k = k\<lparr>tick := tick k + 1\<rparr>;
     t \<leftarrow> rt_thread_self k;
     let k = upd_thread t (\<lambda>th. th\<lparr>remaining_tick := remaining_tick th - 1\<rparr>) k;
     k \<leftarrow> (if remaining_tick (thread k t) = 0 then do {
             let k = upd_thread t (\<lambda>th. th\<lparr>remaining_tick := init_tick th\<rparr>) k;
             (_, k) \<leftarrow> rt_thread_yield k;
             Some k
           } else Some k);
     rt_timer_check cb k
   }"

text \<open>The product is an \<^verbatim>\<open>int\<close>: where it overflows, the behaviour is undefined.\<close>

definition rt_tick_from_millisecond :: "int \<Rightarrow> int option" where
  "rt_tick_from_millisecond ms =
     (if ms < 0 then Some (- 1)
      else do {
        RT_ASSERT (1000 * ms + 999 \<le> 0x7FFFFFFF);
        Some ((1000 * ms + 999) div 1000)
      })"

definition has_defunct_thread :: "kernel \<Rightarrow> bool" where
  "has_defunct_thread k \<longleftrightarrow> lists k Defunct \<noteq> []"

partial_function (option) rt_thread_idle_excute :: "callback \<Rightarrow> kernel \<Rightarrow> kernel option" where
  "rt_thread_idle_excute clean k =
     (if has_defunct_thread k then do {
        RT_DEBUG_NOT_IN_INTERRUPT k;
        let t = hd (lists k Defunct);
        let k = rt_enter_critical (tl_unlink t k);
        k \<leftarrow> (if cleanup (thread k t) \<noteq> 0 then clean (cleanup (thread k t)) t k else Some k);
        if rt_object_is_systemobject (Obj t) k then rt_exit_critical k
        else do {
          k \<leftarrow> rt_exit_critical k;
          k \<leftarrow> k_free (unat (stack_addr (thread k t))) k;
          k \<leftarrow> rt_object_delete t k;
          rt_thread_idle_excute clean k
        }
      } else Some k)"

text \<open>The control block and the stack of the idle thread are static objects; their addresses
  and that of the entry function are arguments.\<close>

definition rt_thread_idle_init :: "u32 \<Rightarrow> nat \<Rightarrow> u32 \<Rightarrow> u32 \<Rightarrow> kernel \<Rightarrow> kernel option" where
  "rt_thread_idle_init texit idle idle_entry idle_stack k = do {
     (_, k) \<leftarrow> rt_thread_init texit idle [0x74, 0x69, 0x64, 0x6c, 0x65, 0] idle_entry 0 idle_stack
                1024 (of_nat (RT_THREAD_PRIORITY_MAX - 1)) 32 k;
     (_, k) \<leftarrow> rt_thread_startup idle k;
     Some k
   }"

section \<open>Expired timers\<close>

text \<open>Counted from the tick before the current one, a timer is expired exactly when at most one
  tick is left.\<close>

lemma timer_expired_tleft:
  assumes "tleft (now - 1) (timers k) i \<le> 0x7FFFFFFF"
  shows "timer_expired now i k \<longleftrightarrow> tleft (now - 1) (timers k) i \<le> 1"
proof -
  let ?x = "timeout_tick (timers k i) - (now - 1)"
  have e: "now - timeout_tick (timers k i) = 1 - ?x" by simp
  have "1 - ?x < RT_TICK_HALF \<longleftrightarrow> unat (1 - ?x) < 0x7FFFFFFF"
    by (simp add: word_less_nat_alt)
  then show ?thesis
    unfolding timer_expired_def e tleft_def using assms unat_diff_wrap[of 1 ?x]
    by (auto simp: tleft_def split: if_splits)
qed

text \<open>What a timeout function of the application may do: it calls kernel services (so the
  invariant holds after it if it held before), it does not set the tick, and it does not start
  the timer that it is called from.\<close>

definition callback_ok :: "callback \<Rightarrow> bool" where
  "callback_ok cb \<longleftrightarrow>
     (\<forall>f p k k'. wf_kernel 0 k \<longrightarrow> cb f p k = Some k' \<longrightarrow>
        wf_kernel 0 k' \<and> tick k' = tick k \<and>
        (\<forall>i. i \<notin> set (timer_list k) \<longrightarrow> timeout_func (timers k i) = User_timeout f \<longrightarrow>
             tm_parameter (timers k i) = p \<longrightarrow> i \<notin> set (timer_list k')))"

lemma rt_thread_timeout_frame:
  assumes "rt_thread_timeout t k = Some k'"
  shows "timer_list k' = timer_list k" "timers k' = timers k" "tick k' = tick k"
    "objects k' = objects k"
proof -
  let ?k = "tl_unlink t (upd_thread t (\<lambda>th. th\<lparr>error := - RT_ETIMEOUT\<rparr>) k)"
  obtain k1 where k1: "rt_schedule_insert_thread t ?k = Some k1" and k': "rt_schedule k1 = Some k'"
    using assms by (auto simp: rt_thread_timeout_def bind_eq_Some_conv)
  have "timer_list k1 = timer_list k" "timers k1 = timers k" "tick k1 = tick k" "objects k1 = objects k"
    using k1 by (auto simp: rt_schedule_insert_thread_def tl_insert_before_def tl_push_def tl_set_eq
        tl_unlink_eq bind_eq_Some_conv Let_def)
  then show "timer_list k' = timer_list k" "timers k' = timers k" "tick k' = tick k"
    "objects k' = objects k"
    using rt_schedule_frame[OF k'] cpu_frameD[of k1 k'] by auto
qed

lemma wf_kernel_timer_remove: "wf_kernel lo k \<Longrightarrow> wf_kernel lo (rt_timer_remove i k)"
  using wf_sched_cong[of k "rt_timer_remove i k"] wf_objects_sched[of k "rt_timer_remove i k"]
    wf_timers_remove[of lo k i]
  by (auto simp: wf_kernel_def null_ok_def tstat_def)

lemma call_timeout_ok:
  assumes w: "wf_kernel 0 k" and cb: "callback_ok cb" and n: "i \<notin> set (timer_list k)"
    and r: "call_timeout cb i k = Some k'"
  shows "wf_kernel 0 k' \<and> tick k' = tick k \<and> i \<notin> set (timer_list k')"
proof (cases "timeout_func (timers k i)")
  case Thread_timeout
  have f: "timer_fns k" using w by (auto simp: wf_timers_def)
  then obtain t where i: "i = TimerOf t" using Thread_timeout by (cases i) (auto simp: timer_fns_def)
  then have p: "tm_parameter (timers k i) = t" using f by (simp add: timer_fns_def)
  have r: "rt_thread_timeout t k = Some k'"
    using r Thread_timeout p by (simp add: call_timeout_def)
  show ?thesis
    using wf_kernel_timeout[OF w _ r] rt_thread_timeout_frame[OF r] n i by auto
next
  case (User_timeout f)
  then have "cb f (tm_parameter (timers k i)) k = Some k'"
    using r by (simp add: call_timeout_def)
  then show ?thesis using cb w n User_timeout unfolding callback_ok_def by blast
qed

lemma wf_kernel_clear_flag:
  assumes "wf_kernel lo k" "i \<notin> set (timer_list k)"
  shows "wf_kernel lo (set_timer_flag i flag_off k)"
proof (rule wf_kernel_objects[OF assms(1)])
  have "wf_objects k" using assms by blast
  then show "wf_objects (set_timer_flag i flag_off k)"
    by (rule wf_objects_cong) (simp_all add: set_timer_flag_def upd_object_def)
qed (use assms in \<open>auto simp: set_timer_flag_def upd_object_def timer_flag_def\<close>)

lemma timer_fire_ok:
  assumes w: "wf_kernel 0 k" and cb: "callback_ok cb" and r: "timer_fire cb i k = Some k'"
  shows "wf_kernel 0 k' \<and> tick k' = tick k"
proof -
  let ?c = "set_timer_flag i flag_off"
  obtain k1 where k1: "call_timeout cb i (rt_timer_remove i k) = Some k1"
    and k': "k' = ?c k1 \<or> (\<exists>e. rt_timer_start i (?c k1) = Some (e, k') \<and>
       timer_flag i k1 AND RT_TIMER_FLAG_PERIODIC \<noteq> 0)"
    using r by (auto simp: timer_fire_def bind_eq_Some_conv split: if_splits)
  have o1: "wf_kernel 0 k1 \<and> tick k1 = tick k \<and> i \<notin> set (timer_list k1)"
    using call_timeout_ok[OF wf_kernel_timer_remove[OF w] cb _ k1] by simp
  then have o2: "wf_kernel 0 (?c k1)" by (auto intro: wf_kernel_clear_flag)
  have tk: "tick (?c k1) = tick k" using o1 by (simp add: set_timer_flag_def upd_object_def)
  show ?thesis
  proof (cases "k' = ?c k1")
    case True then show ?thesis using o2 tk by simp
  next
    case False
    then obtain e where s: "rt_timer_start i (?c k1) = Some (e, k')" using k' by blast
    have "i = TimerOf t \<Longrightarrow> tstat (?c k1) t = RT_THREAD_SUSPEND" for t
      using o1 k' False by (auto simp: wf_timers_def timer_fns_def dest!: wf_kernelD(2))
    then show ?thesis
      using wf_kernel_timer_start[OF o2 _ s] s tk by (auto simp: rt_timer_start_eq split: if_splits)
  qed
qed

section \<open>The timer check\<close>

lemma wf_timers_mono: "wf_timers m k \<Longrightarrow> n \<le> m \<Longrightarrow> wf_timers n k"
  by (fastforce simp: wf_timers_def)

lemma wf_kernel_mono: "wf_kernel m k \<Longrightarrow> n \<le> m \<Longrightarrow> wf_kernel n k"
  by (auto simp: wf_kernel_def intro: wf_timers_mono)

lemma timers_bound: "wf_kernel lo k \<Longrightarrow> i \<in> set (timer_list k) \<Longrightarrow> tleft (tick k - 1) (timers k) i \<le> 0x7FFFFFFF"
  by (auto simp: wf_timers_def timers_at_def dest!: wf_kernelD(2))

text \<open>When the first timer of the list has not expired, none has.\<close>

lemma wf_kernel_none_expired:
  assumes w: "wf_kernel lo k"
    and h: "case timer_list k of [] \<Rightarrow> True | i # _ \<Rightarrow> \<not> timer_expired (tick k) i k"
  shows "wf_kernel 2 k"
proof -
  have t: "timers_at (tick k - 1) k" using w by (auto simp: wf_timers_def)
  have "2 \<le> tleft (tick k - 1) (timers k) j" if j: "j \<in> set (timer_list k)" for j
  proof (cases "timer_list k")
    case (Cons i l)
    have "\<not> tleft (tick k - 1) (timers k) i \<le> 1"
      using h timer_expired_tleft[OF timers_bound[OF w]] Cons by auto
    moreover have "tleft (tick k - 1) (timers k) i \<le> tleft (tick k - 1) (timers k) j"
      using t j Cons by (auto simp: timers_at_def)
    ultimately show ?thesis by linarith
  qed (use j in simp)
  then show ?thesis using w by (auto simp: wf_kernel_def wf_timers_def)
qed

lemma timer_check_loop_ok:
  assumes "timer_check_loop cb now k = Some k'"
  shows "wf_kernel 0 k \<longrightarrow> callback_ok cb \<longrightarrow> now = tick k \<longrightarrow> wf_kernel 2 k' \<and> tick k' = tick k"
proof (rule timer_check_loop.raw_induct[OF _ assms])
  fix loop cb now k k'
  assume 1: "\<And>cb now k k'. loop cb now k = Some k' \<Longrightarrow> wf_kernel 0 k \<longrightarrow> callback_ok cb \<longrightarrow>
      now = tick k \<longrightarrow> wf_kernel 2 k' \<and> tick k' = tick k"
    "(case timer_list k of [] \<Rightarrow> Some k
      | i # _ \<Rightarrow> if timer_expired now i k then do {
            k \<leftarrow> timer_fire cb i k;
            loop cb (rt_tick_get k) k
          } else Some k) = Some k'"
  show "wf_kernel 0 k \<longrightarrow> callback_ok cb \<longrightarrow> now = tick k \<longrightarrow> wf_kernel 2 k' \<and> tick k' = tick k"
  proof (intro impI)
    assume w: "wf_kernel 0 k" and cb: "callback_ok cb" and now: "now = tick k"
    show "wf_kernel 2 k' \<and> tick k' = tick k"
    proof (cases "timer_list k")
      case Nil
      then show ?thesis using 1(2) w wf_kernel_none_expired[of 0 k] by simp
    next
      case (Cons i l)
      show ?thesis
      proof (cases "timer_expired now i k")
        case False
        then show ?thesis using 1(2) w now Cons wf_kernel_none_expired[of 0 k] by simp
      next
        case True
        then obtain k1 where k1: "timer_fire cb i k = Some k1" and k': "loop cb (tick k1) k1 = Some k'"
          using 1(2) Cons by (auto simp: bind_eq_Some_conv rt_tick_get_def)
        then show ?thesis using 1(1)[OF k'] timer_fire_ok[OF w cb k1] cb by simp
      qed
    qed
  qed
qed

lemma rt_timer_check_ok:
  "rt_timer_check cb k = Some k' \<Longrightarrow> wf_kernel 0 k \<Longrightarrow> callback_ok cb \<Longrightarrow>
   wf_kernel 2 k' \<and> tick k' = tick k"
  unfolding rt_timer_check_def rt_tick_get_def using timer_check_loop_ok by blast

section \<open>The tick\<close>

text \<open>When the tick advances, every timer has one tick less.\<close>

lemma tleft_next:
  assumes "1 \<le> tleft (b - 1) ts i"
  shows "tleft b ts i = tleft (b - 1) ts i - 1"
proof -
  let ?x = "timeout_tick (ts i) - (b - 1)"
  have e: "timeout_tick (ts i) - b = ?x - 1" by simp
  show ?thesis using assms unat_diff_wrap[of ?x 1] unfolding tleft_def e by simp
qed

lemma wf_kernel_tick:
  assumes w: "wf_kernel 1 k"
  shows "wf_kernel 0 (k\<lparr>tick := tick k + 1\<rparr>)"
proof -
  let ?k = "k\<lparr>tick := tick k + 1\<rparr>"
  have wt: "wf_timers 1 k" using w by blast
  have nx: "tleft (tick k) (timers k) i = tleft (tick k - 1) (timers k) i - 1"
    if "i \<in> set (timer_list k)" for i
    using wt that by (intro tleft_next) (auto simp: wf_timers_def)
  have "sorted_wrt (\<lambda>i j. tleft (tick k - 1) (timers k) i - 1 \<le> tleft (tick k - 1) (timers k) j - 1)
    (timer_list k)"
    using wt by (auto simp: wf_timers_def timers_at_def elim!: sorted_wrt_mono_rel[rotated])
  then have "sorted_wrt (\<lambda>i j. tleft (tick k) (timers k) i \<le> tleft (tick k) (timers k) j) (timer_list k)"
    by (rule sorted_wrt_key_cong) (rule nx)
  then have "timers_at (tick k) ?k"
    using wt nx by (force simp: wf_timers_def timers_at_def)
  moreover have "timers_linked ?k" "timer_fns ?k"
    using wt by (auto simp: wf_timers_def timers_linked_def timer_fns_def timer_flag_def tstat_def)
  ultimately have "wf_timers 0 ?k" by (simp add: wf_timers_def)
  moreover have "wf_sched ?k" using w wf_sched_cong[of k ?k] by auto
  moreover have "wf_objects ?k" using w wf_objects_sched[of k ?k] by auto
  moreover have "null_ok ?k" using w by (auto simp: null_ok_def tstat_def)
  ultimately show ?thesis by (simp add: wf_kernel_def)
qed

lemma rt_thread_yield_tick: "rt_thread_yield k = Some (e, k') \<Longrightarrow> tick k' = tick k"
  by (auto simp: rt_thread_yield_def bind_eq_Some_conv tl_insert_before_def tl_push_def tl_set_eq
      tl_unlink_eq Let_def split: if_splits dest!: rt_schedule_frame cpu_frameD(5))

lemma rt_tick_increase_ok:
  assumes w: "wf_kernel 1 k" and cb: "callback_ok cb" and r: "rt_tick_increase cb k = Some k'"
  shows "wf_kernel 2 k' \<and> tick k' = tick k + 1"
proof -
  let ?k1 = "k\<lparr>tick := tick k + 1\<rparr>"
  obtain t where t: "current k = Some t"
    using r by (auto simp: rt_tick_increase_def rt_thread_self_def bind_eq_Some_conv)
  let ?k2 = "upd_thread t (\<lambda>th. th\<lparr>remaining_tick := remaining_tick th - 1\<rparr>) ?k1"
  let ?k3 = "upd_thread t (\<lambda>th. th\<lparr>remaining_tick := init_tick th\<rparr>) ?k2"
  have w2: "wf_kernel 0 ?k2" by (rule wf_kernel_thread_fields[OF wf_kernel_tick[OF w]]) simp_all
  have w3: "wf_kernel 0 ?k3" by (rule wf_kernel_thread_fields[OF w2]) simp_all
  obtain k4 where k4: "k4 = ?k2 \<or> (\<exists>e. rt_thread_yield ?k3 = Some (e, k4))"
    and k': "rt_timer_check cb k4 = Some k'"
    using r t by (auto simp: rt_tick_increase_def rt_thread_self_def bind_eq_Some_conv Let_def
        split: if_splits)
  have "wf_kernel 0 k4 \<and> tick k4 = tick k + 1"
    using k4 w2 wf_kernel_yield[OF w3] rt_thread_yield_tick[of ?k3] by auto
  then show ?thesis using rt_timer_check_ok[OF k' _ cb] by simp
qed

section \<open>The timer check returns\<close>

text \<open>What the loop needs to go on: a running thread, intact stacks, and periodic timers with a
  period. The number of expired timers bounds the number of rounds.\<close>

definition stacks_ok :: "kernel \<Rightarrow> bool" where
  "stacks_ok k \<longleftrightarrow>
     (\<forall>t. tstat k t = RT_THREAD_READY \<or> tstat k t = RT_THREAD_SUSPEND \<longrightarrow> stack_ok k t)"

definition periods_ok :: "kernel \<Rightarrow> bool" where
  "periods_ok k \<longleftrightarrow>
     (\<forall>i. timer_flag i k AND RT_TIMER_FLAG_PERIODIC \<noteq> 0 \<longrightarrow>
        0 < tm_init_tick (timers k i) \<and> tm_init_tick (timers k i) < RT_TICK_HALF)"

definition live :: "kernel \<Rightarrow> bool" where
  "live k \<longleftrightarrow> current k \<noteq> None \<and> stacks_ok k \<and> periods_ok k"

definition expired_count :: "kernel \<Rightarrow> nat" where
  "expired_count k = length (filter (\<lambda>i. tleft (tick k - 1) (timers k) i \<le> 1) (timer_list k))"

text \<open>A timeout function of the application returns, keeps these conditions, and starts no timer
  that is already due.\<close>

definition callback_total :: "callback \<Rightarrow> bool" where
  "callback_total cb \<longleftrightarrow>
     (\<forall>f p k. wf_kernel 0 k \<longrightarrow> live k \<longrightarrow>
        (\<exists>k'. cb f p k = Some k' \<and> live k' \<and> expired_count k' \<le> expired_count k))"

lemma stacks_ok_cong:
  assumes "stacks_ok k" "kheap k' = kheap k"
    and "\<And>t. sp (thread k' t) = sp (thread k t) \<and> stack_addr (thread k' t) = stack_addr (thread k t) \<and>
      stack_size (thread k' t) = stack_size (thread k t)"
    and "\<And>t. tstat k' t = RT_THREAD_READY \<or> tstat k' t = RT_THREAD_SUSPEND \<Longrightarrow>
      tstat k t = RT_THREAD_READY \<or> tstat k t = RT_THREAD_SUSPEND"
  shows "stacks_ok k'"
  using assms by (auto simp: stacks_ok_def stack_ok_def kram_def Let_def)

lemma expired_count_remove:
  assumes "distinct (timer_list k)" "i \<in> set (timer_list k)" "tleft (tick k - 1) (timers k) i \<le> 1"
  shows "expired_count (rt_timer_remove i k) < expired_count k"
proof -
  let ?P = "\<lambda>j. tleft (tick k - 1) (timers k) j \<le> 1"
  have "filter ?P (removeAll i (timer_list k)) = removeAll i (filter ?P (timer_list k))"
    by (simp add: removeAll_filter_not_eq conj_commute)
  moreover have "length (removeAll i (filter ?P (timer_list k))) < length (filter ?P (timer_list k))"
    using assms by (intro length_removeAll_less) simp
  ultimately show ?thesis by (simp add: expired_count_def)
qed

text \<open>The expiry of a thread's timer: the assertions of \<^verbatim>\<open>rt_thread_timeout\<close> hold.\<close>

lemma rt_thread_timeout_progress:
  assumes w: "wf_kernel lo k" and l: "live k" and s: "tstat k t = RT_THREAD_SUSPEND"
  shows "\<exists>k'. rt_thread_timeout t k = Some k' \<and> live k'"
proof -
  let ?k1 = "upd_thread t (\<lambda>th. th\<lparr>error := - RT_ETIMEOUT\<rparr>) k"
  let ?k2 = "tl_unlink t ?k1"
  let ?k3 = "sched_inserted t ?k2"
  have t0: "t \<noteq> 0" using w s wf_kernelD(4)[OF w] by (metis null_ok_def)
  have "wf_kernel lo ?k1" by (rule wf_kernel_thread_fields[OF w]) simp_all
  then have w1: "wf_sched ?k1" by blast
  have s1: "tstat ?k1 t = RT_THREAD_SUSPEND" using s by (simp add: tstat_def)
  have w2: "wf_sched ?k2" by (rule wf_sched_unlink_suspended[OF w1 s1])
  have n: "tlist (thread ?k2 t) = None" "tprio ?k2 t < 32"
    using tprio_lt[OF w2] by (simp_all add: tl_unlink_eq)
  have s2: "tstat ?k2 t = RT_THREAD_SUSPEND" using s by (simp add: tl_unlink_eq tstat_def)
  have "thread_ok (thread ?k2 t)" using w2 by blast
  then have m: "number_mask (thread ?k2 t) = prio_mask (tprio ?k2 t)"
    using s2 by (auto simp: thread_ok_def tprio_def tstat_def Let_def)
  have w3: "wf_sched ?k3" by (rule wf_sched_inserted[OF wf_sched_but[OF w2] n m])
  have r3: "tstat ?k3 t = RT_THREAD_READY" by (simp add: sched_inserted_def tstat_def)
  have st3: "stacks_ok ?k3"
    by (rule stacks_ok_cong[of k])
      (use l s in \<open>auto simp: live_def sched_inserted_def tl_unlink_eq tstat_def split: if_splits\<close>)
  have c3: "current ?k3 \<noteq> None" using l by (simp add: live_def sched_inserted_def tl_unlink_eq)
  obtain k' where k': "rt_schedule ?k3 = Some k'"
    using rt_schedule_progress[OF w3 r3 c3] st3 by (auto simp: stacks_ok_def must_run_def)
  have "rt_thread_timeout t k = Some k'"
    using t0 s k' rt_schedule_insert_thread_eq[OF n] by (simp add: rt_thread_timeout_def)
  moreover have "live k'"
  proof -
    have f: "cpu_frame ?k3 k'" using rt_schedule_frame[OF k'] by simp
    note e = cpu_frameD[OF f]
    have "stacks_ok k'" by (rule stacks_ok_cong[OF st3]) (use e in \<open>simp_all add: tstat_def\<close>)
    moreover have "periods_ok k'" using l e
      by (auto simp: live_def periods_ok_def timer_flag_def sched_inserted_def tl_unlink_eq)
    moreover have "current k' \<noteq> None"
      using k' c3 by (cases rule: rt_schedule_cases) auto
    ultimately show ?thesis by (simp add: live_def)
  qed
  ultimately show ?thesis by blast
qed

lemma live_timer_remove: "live k \<Longrightarrow> live (rt_timer_remove i k)"
  by (auto simp: live_def stacks_ok_def stack_ok_def kram_def periods_ok_def timer_flag_def
      tstat_def rt_timer_remove_def)

lemma live_flag_off: "live k \<Longrightarrow> live (set_timer_flag i flag_off k)"
  by (auto simp: live_def stacks_ok_def stack_ok_def kram_def periods_ok_def timer_flag_def
      tstat_def set_timer_flag_def upd_object_def)

lemma live_started: "live k \<Longrightarrow> live (timer_started i k)"
  by (auto simp: live_def stacks_ok_def stack_ok_def kram_def periods_ok_def timer_flag_def
      tstat_def timer_started_def Let_def)

lemma call_timeout_progress:
  assumes w: "wf_kernel 0 k" and l: "live k" and cb: "callback_total cb"
    and i: "\<And>t. i = TimerOf t \<Longrightarrow> tstat k t = RT_THREAD_SUSPEND"
  shows "\<exists>k'. call_timeout cb i k = Some k' \<and> live k' \<and> expired_count k' \<le> expired_count k"
proof (cases "timeout_func (timers k i)")
  case Thread_timeout
  have f: "timer_fns k" using w by (auto simp: wf_timers_def)
  then obtain t where it: "i = TimerOf t" using Thread_timeout by (cases i) (auto simp: timer_fns_def)
  then have p: "tm_parameter (timers k i) = t" using f by (simp add: timer_fns_def)
  obtain k' where k': "rt_thread_timeout t k = Some k'" "live k'"
    using rt_thread_timeout_progress[OF w l i[OF it]] by blast
  then show ?thesis
    using Thread_timeout p rt_thread_timeout_frame[OF k'(1)]
    by (simp add: call_timeout_def expired_count_def)
next
  case (User_timeout f)
  then show ?thesis using cb w l by (simp add: call_timeout_def callback_total_def)
qed

lemma expired_count_started:
  assumes "i \<notin> set (timer_list k)" "0 < tm_init_tick (timers k i)"
    "tm_init_tick (timers k i) < RT_TICK_HALF"
  shows "expired_count (timer_started i k) = expired_count k"
proof -
  let ?ts = "timers (timer_started i k)"
  have ins: "filter P (timer_insert ts i xs) = filter P xs" if "\<not> P i" for P ts xs
    using that by (induction xs) auto
  have "unat (tm_init_tick (timers k i)) \<noteq> 0" using assms(2) by (simp add: unat_gt_0)
  then have "\<not> tleft (tick k - 1) ?ts i \<le> 1" using tleft_started[OF assms(3)] by linarith
  then have "expired_count (timer_started i k) =
    length (filter (\<lambda>j. tleft (tick k - 1) ?ts j \<le> 1) (timer_list k))"
    using assms(1) ins[of "\<lambda>j. tleft (tick k - 1) ?ts j \<le> 1"]
    by (simp add: expired_count_def timer_started_def Let_def removeAll_id)
  also have "filter (\<lambda>j. tleft (tick k - 1) ?ts j \<le> 1) (timer_list k) =
    filter (\<lambda>j. tleft (tick k - 1) (timers k) j \<le> 1) (timer_list k)"
    by (rule filter_cong) (use assms(1) in \<open>auto simp: tleft_def timer_started_def Let_def\<close>)
  finally show ?thesis by (simp add: expired_count_def)
qed

lemma timer_fire_progress:
  assumes w: "wf_kernel 0 k" and l: "live k" and cb: "callback_ok cb" "callback_total cb"
    and i: "i \<in> set (timer_list k)" "timer_expired (tick k) i k"
  shows "\<exists>k'. timer_fire cb i k = Some k' \<and> live k' \<and> expired_count k' < expired_count k"
proof -
  let ?k1 = "rt_timer_remove i k"
  have w1: "wf_kernel 0 ?k1" by (rule wf_kernel_timer_remove[OF w])
  have susp: "tstat ?k1 t = RT_THREAD_SUSPEND" if "i = TimerOf t" for t
    using w i(1) that by (auto simp: wf_timers_def timers_linked_def tstat_def dest!: wf_kernelD(2))
  have less: "expired_count ?k1 < expired_count k"
    using w i timer_expired_tleft[OF timers_bound[OF w i(1)]]
    by (intro expired_count_remove) (auto simp: wf_timers_def timers_at_def dest!: wf_kernelD(2))
  obtain k2 where k2: "call_timeout cb i ?k1 = Some k2" and l2: "live k2"
    and e2: "expired_count k2 \<le> expired_count ?k1"
    using call_timeout_progress[OF w1 live_timer_remove[OF l] cb(2) susp] by blast
  have n: "i \<notin> set (timer_list k2)" using call_timeout_ok[OF w1 cb(1) _ k2] by simp
  let ?k3 = "set_timer_flag i flag_off k2"
  have e3: "expired_count ?k3 = expired_count k2" "i \<notin> set (timer_list ?k3)"
    "timers ?k3 = timers k2"
    using n by (simp_all add: expired_count_def set_timer_flag_def upd_object_def)
  have l3: "live ?k3" by (rule live_flag_off[OF l2])
  show ?thesis
  proof (cases "timer_flag i k2 AND RT_TIMER_FLAG_PERIODIC \<noteq> 0 \<and>
      timer_flag i k2 AND RT_TIMER_FLAG_ACTIVATED \<noteq> 0")
    case True
    then have p: "0 < tm_init_tick (timers ?k3 i)" "tm_init_tick (timers ?k3 i) < RT_TICK_HALF"
      using l2 e3(3) by (auto simp: live_def periods_ok_def)
    have "timer_fire cb i k = Some (timer_started i ?k3)"
      using True k2 p(2) by (simp add: timer_fire_def rt_timer_start_eq)
    then show ?thesis
      using live_started[OF l3] expired_count_started[OF e3(2) p] e3(1) e2 less by auto
  next
    case False
    then have "timer_fire cb i k = Some ?k3" using k2 by (auto simp: timer_fire_def)
    then show ?thesis using l3 e3 e2 less by auto
  qed
qed

lemma timer_check_loop_returns:
  assumes "wf_kernel 0 k" "live k" "callback_ok cb" "callback_total cb"
  shows "\<exists>k'. timer_check_loop cb (tick k) k = Some k' \<and> live k'"
  using assms(1,2)
proof (induction "expired_count k" arbitrary: k rule: less_induct)
  case less
  show ?case
  proof (cases "timer_list k")
    case Nil
    then show ?thesis using less.prems by (simp add: timer_check_loop.simps)
  next
    case (Cons i l)
    show ?thesis
    proof (cases "timer_expired (tick k) i k")
      case False
      then show ?thesis using less.prems Cons by (simp add: timer_check_loop.simps)
    next
      case True
      have "i \<in> set (timer_list k)" using Cons by simp
      from timer_fire_progress[OF less.prems assms(3,4) this True]
      obtain k1 where k1: "timer_fire cb i k = Some k1" "live k1" "expired_count k1 < expired_count k"
        by blast
      have "wf_kernel 0 k1" using timer_fire_ok[OF less.prems(1) assms(3) k1(1)] by simp
      from less.hyps[OF k1(3) this k1(2)] show ?thesis
        using True Cons k1(1) by (subst timer_check_loop.simps) (simp add: rt_tick_get_def)
    qed
  qed
qed

lemma rt_timer_check_returns:
  assumes "wf_kernel 0 k" "live k" "callback_ok cb" "callback_total cb"
  shows "\<exists>k'. rt_timer_check cb k = Some k' \<and> live k'"
  using timer_check_loop_returns[OF assms] by (simp add: rt_timer_check_def rt_tick_get_def)

lemma rt_thread_yield_returns:
  assumes w: "wf_kernel lo k" and l: "live k"
  shows "\<exists>e k'. rt_thread_yield k = Some (e, k') \<and> live k'"
proof -
  obtain t where t: "current k = Some t" using l by (auto simp: live_def)
  show ?thesis
  proof (cases "tstat k t = RT_THREAD_READY \<and> tlist_shared t k")
    case False
    then show ?thesis using l by (auto simp: rt_thread_yield_eq[OF w t])
  next
    case True
    let ?k1 = "thread_rotated t k"
    have th: "thread ?k1 = thread k" using True w by (intro rotated_thread) auto
    have eq: "kheap ?k1 = kheap k" "objects ?k1 = objects k" "timers ?k1 = timers k"
      "current ?k1 = current k"
      by (simp_all add: thread_rotated_def tl_push_def tl_set_eq tl_unlink_eq)
    have st: "stacks_ok ?k1"
      by (rule stacks_ok_cong[of k]) (use l th eq in \<open>simp_all add: live_def tstat_def\<close>)
    have w1: "wf_sched ?k1" using wf_kernel_rotated[OF w] True by blast
    have r1: "tstat ?k1 t = RT_THREAD_READY" using True th by (simp add: tstat_def)
    obtain k' where k': "rt_schedule ?k1 = Some k'"
      using rt_schedule_progress[OF w1 r1] st t eq by (auto simp: stacks_ok_def must_run_def)
    note e = cpu_frameD[of ?k1 k'] rt_schedule_frame[OF k']
    have "stacks_ok k'" by (rule stacks_ok_cong[OF st]) (use e in \<open>auto simp: tstat_def\<close>)
    moreover have "periods_ok k'" using l e eq by (auto simp: live_def periods_ok_def timer_flag_def)
    moreover have "current k' \<noteq> None"
      using k' t eq by (cases rule: rt_schedule_cases) auto
    ultimately show ?thesis using True k' by (auto simp: rt_thread_yield_eq[OF w t] live_def)
  qed
qed

lemma rt_tick_increase_returns:
  assumes w: "wf_kernel 1 k" and l: "live k" and cb: "callback_ok cb" "callback_total cb"
  shows "\<exists>k'. rt_tick_increase cb k = Some k' \<and> live k'"
proof -
  obtain t where t: "current k = Some t" using l by (auto simp: live_def)
  let ?k1 = "k\<lparr>tick := tick k + 1\<rparr>"
  let ?k2 = "upd_thread t (\<lambda>th. th\<lparr>remaining_tick := remaining_tick th - 1\<rparr>) ?k1"
  let ?k3 = "upd_thread t (\<lambda>th. th\<lparr>remaining_tick := init_tick th\<rparr>) ?k2"
  have w2: "wf_kernel 0 ?k2" by (rule wf_kernel_thread_fields[OF wf_kernel_tick[OF w]]) simp_all
  have w3: "wf_kernel 0 ?k3" by (rule wf_kernel_thread_fields[OF w2]) simp_all
  have l2: "live ?k2" and l3: "live ?k3"
    using l by (auto simp: live_def stacks_ok_def stack_ok_def kram_def periods_ok_def timer_flag_def
        tstat_def Let_def)
  obtain e k4 where k4: "rt_thread_yield ?k3 = Some (e, k4)" "live k4"
    using rt_thread_yield_returns[OF w3 l3] by blast
  have w4: "wf_kernel 0 k4" by (rule wf_kernel_yield[OF w3 k4(1)])
  show ?thesis
    using t k4 rt_timer_check_returns[OF w2 l2 cb] rt_timer_check_returns[OF w4 k4(2) cb]
    by (auto simp: rt_tick_increase_def rt_thread_self_def Let_def)
qed

end
