(* ===== verification/IpcCore.thy ===== *)
theory IpcCore
  imports Clock
begin

text \<open>
  The common part of \<^verbatim>\<open>src/ipc.c\<close>: suspending the running thread on a wait queue, resuming one
  or all waiting threads, and the armed timer of a timed wait.

  A call that may block is the code up to \<^verbatim>\<open>rt_schedule\<close>: it returns \<open>Ret r\<close> when it is over, and
  \<open>Wait c\<close> when the thread gave up the processor; \<open>c\<close> holds the local variables that the rest of
  the call, a definition with the suffix \<open>_cont\<close>, reads when the thread runs again. Times are
  the C type \<^verbatim>\<open>rt_int32_t\<close>.
\<close>

datatype ('r, 'c) outcome = Ret 'r | Wait 'c

abbreviation (input) RT_IPC_CMD_RESET :: nat where "RT_IPC_CMD_RESET \<equiv> 1"

section \<open>The operations\<close>

definition rt_ipc_object_init :: "nat \<Rightarrow> kernel \<Rightarrow> kernel option" where
  "rt_ipc_object_init a k = do {
     RT_ASSERT (lists k (Susp a) = []);
     Some k
   }"

definition prio_before :: "kernel \<Rightarrow> nat \<Rightarrow> nat \<Rightarrow> bool" where
  "prio_before k t y \<longleftrightarrow> current_priority (thread k t) < current_priority (thread k y)"

fun prio_insert :: "kernel \<Rightarrow> nat \<Rightarrow> nat list \<Rightarrow> nat list" where
  "prio_insert k t [] = [t]"
| "prio_insert k t (y # ys) =
     (if prio_before k t y then t # y # ys else y # prio_insert k t ys)"

definition rt_ipc_list_suspend :: "list_head \<Rightarrow> nat \<Rightarrow> u8 \<Rightarrow> kernel \<Rightarrow> kernel option" where
  "rt_ipc_list_suspend q t flag k = do {
     (_, k) \<leftarrow> rt_thread_suspend t k;
     if flag = RT_IPC_FLAG_FIFO then tl_insert_before q t k
     else if flag = RT_IPC_FLAG_PRIO then do {
       RT_ASSERT (tlist (thread k t) = None);
       Some (tl_set q (prio_insert k t (lists k q)) t k)
     }
     else Some k
   }"

definition rt_ipc_list_resume :: "list_head \<Rightarrow> kernel \<Rightarrow> kernel option" where
  "rt_ipc_list_resume q k =
     (case lists k q of
        [] \<Rightarrow> None
      | t # _ \<Rightarrow> do {
          (_, k) \<leftarrow> rt_thread_resume t k;
          Some k
        })"

partial_function (option) rt_ipc_list_resume_all :: "list_head \<Rightarrow> kernel \<Rightarrow> kernel option" where
  "rt_ipc_list_resume_all q k =
     (case lists k q of
        [] \<Rightarrow> Some k
      | t # _ \<Rightarrow> do {
          let k = upd_thread t (\<lambda>th. th\<lparr>error := - RT_ERROR\<rparr>) k;
          (_, k) \<leftarrow> rt_thread_resume t k;
          rt_ipc_list_resume_all q k
        })"

text \<open>Resetting the thread timer to a waiting time and starting it, when there is one.\<close>

definition start_wait_timer :: "nat \<Rightarrow> int \<Rightarrow> kernel \<Rightarrow> kernel option" where
  "start_wait_timer t time k =
     (if time > 0 then do {
        let (_, _, k) = rt_timer_control (TimerOf t) 0 (word_of_int time) k;
        (_, k) \<leftarrow> rt_timer_start (TimerOf t) k;
        Some k
      } else Some k)"

text \<open>What is left of a waiting time after a wait that began at tick \<open>start\<close>, in the 32-bit
  arithmetic of the code.\<close>

definition remaining_time :: "int \<Rightarrow> u32 \<Rightarrow> kernel \<Rightarrow> int" where
  "remaining_time timeout start k =
     (if timeout > 0 then
        (let d = sint (word_of_int timeout - (tick k - start) :: u32) in if d < 0 then 0 else d)
      else timeout)"

definition upd_flag :: "nat \<Rightarrow> u8 \<Rightarrow> kernel \<Rightarrow> kernel" where
  "upd_flag a flag k = upd_object (Obj a) (\<lambda>b. b\<lparr>obj_flag := flag\<rparr>) k"

definition ipc_flag :: "nat \<Rightarrow> kernel \<Rightarrow> u8" where
  "ipc_flag a k = obj_flag (objects k (Obj a))"

definition resume_one_and_schedule :: "list_head \<Rightarrow> kernel \<Rightarrow> kernel option" where
  "resume_one_and_schedule q k =
     (if lists k q \<noteq> [] then do {
        k \<leftarrow> rt_ipc_list_resume q k;
        rt_schedule k
      } else Some k)"

section \<open>Waiting\<close>

interpretation pq: ordered_insert prio_before prio_insert
  by unfold_locales simp_all

text \<open>A suspended thread in no queue may enter any wait queue.\<close>

definition wait_queue :: "list_head \<Rightarrow> bool" where
  "wait_queue q \<longleftrightarrow> (\<exists>a. q = Susp a \<or> q = SuspSender a)"

lemma wf_kernel_enqueue:
  assumes w: "wf_kernel lo k" and s: "tstat k t = RT_THREAD_SUSPEND" and n: "tlist (thread k t) = None"
    and q: "wait_queue q" and xs: "distinct xs" "set xs = Set.insert t (set (lists k q))"
  shows "wf_kernel lo (tl_set q xs t k)"
proof (rule wf_kernelI)
  have nr: "q \<noteq> Ready p" "q \<noteq> Defunct" for p using q by (auto simp: wait_queue_def)
  have "wf_queues (tl_set q xs t k)"
    by (rule wf_queues_set) (use w n xs in auto)
  moreover have "wf_group k" using w by blast
  then have "wf_group (tl_set q xs t k)" using nr(1) by (auto simp: wf_group_def tl_set_eq)
  moreover have "thread_ok (thread (tl_set q xs t k) u)" for u
    using wf_schedD(3)[OF wf_kernelD(1)[OF w], of u] s n q nr
    by (auto simp: tl_set_eq thread_ok_def tstat_def Let_def wait_queue_def)
  ultimately show "wf_sched (tl_set q xs t k)" by (simp add: wf_sched_def)
  show "wf_timers lo (tl_set q xs t k)"
    by (rule wf_timers_sched[of lo k]) (use w in \<open>auto simp: tl_set_eq tstat_def\<close>)
  show "wf_objects (tl_set q xs t k)"
    by (rule wf_objects_sched[of k]) (use w in \<open>auto simp: tl_set_eq\<close>)
  show "null_ok (tl_set q xs t k)"
    by (rule null_ok_cong[of k]) (use w in \<open>auto simp: tl_set_eq tstat_def\<close>)
qed

text \<open>The state in which a thread waits: suspended, in the queue.\<close>

definition waiting :: "list_head \<Rightarrow> nat \<Rightarrow> kernel \<Rightarrow> bool" where
  "waiting q t k \<longleftrightarrow> tstat k t = RT_THREAD_SUSPEND \<and> tlist (thread k t) = Some q"

lemma rt_ipc_list_suspend_ok:
  assumes w: "wf_kernel lo k" and r: "tstat k t = RT_THREAD_READY" and q: "wait_queue q"
    and e: "rt_ipc_list_suspend q t flag k = Some k'"
  shows "wf_kernel lo k'" "tstat k' t = RT_THREAD_SUSPEND" "TimerOf t \<notin> set (timer_list k')"
    "flag = RT_IPC_FLAG_FIFO \<or> flag = RT_IPC_FLAG_PRIO \<Longrightarrow> waiting q t k'"
    "flag = RT_IPC_FLAG_FIFO \<Longrightarrow> lists k' q = lists k q @ [t]"
    "flag = RT_IPC_FLAG_PRIO \<Longrightarrow> lists k' q = prio_insert k t (lists k q)"
    "thread k' = (thread k)(t := (thread k t)\<lparr>stat := set_stat RT_THREAD_SUSPEND (stat (thread k t)),
       tlist := (if flag = RT_IPC_FLAG_FIFO \<or> flag = RT_IPC_FLAG_PRIO then Some q else None)\<rparr>)"
    "\<And>q'. wait_queue q' \<Longrightarrow> q' \<noteq> q \<Longrightarrow> lists k' q' = lists k q'" "current k' = current k"
proof -
  let ?k1 = "thread_suspended t k"
  have s: "rt_thread_suspend t k = Some (RT_EOK, ?k1)"
    using rt_thread_suspend_eq[OF wf_kernelD(1)[OF w], of t] r by simp
  have w1: "wf_kernel lo ?k1" by (rule wf_kernel_suspended[OF w r])
  have s1: "tstat ?k1 t = RT_THREAD_SUSPEND" by (rule tstat_suspended)
  have n1: "tlist (thread ?k1 t) = None" by (simp add: thread_suspended_thread)
  have wq: "wf_queues k" "wf_queues ?k1" using w w1 by auto
  have "tlist (thread k t) = Some (Ready (tprio k t))"
    using r wf_schedD(3)[OF wf_kernelD(1)[OF w], of t]
    by (auto simp: thread_ok_def tstat_def tprio_def Let_def)
  then have nqs: "t \<notin> set (lists k q')" if "wait_queue q'" for q'
    using wf_queuesD(2)[OF wq(1), of t q'] that by (auto simp: wait_queue_def)
  note nq = nqs[OF q]
  have ls: "lists ?k1 q' = lists k q'" if "wait_queue q'" for q'
    using nqs[OF that] by (simp add: thread_suspended_def sched_removed_def removeAll_id)
  note l1 = ls[OF q]
  have cu: "current ?k1 = current k" by (simp add: thread_suspended_def sched_removed_def)
  have dq: "distinct (lists k q)" using wf_queuesD(1)[OF wq(1)] .
  have pi: "prio_insert ?k1 t xs = prio_insert k t xs" for xs
    by (induction xs) (auto simp: prio_before_def thread_suspended_thread)
  have "(flag = RT_IPC_FLAG_FIFO \<and> k' = tl_set q (lists k q @ [t]) t ?k1) \<or>
    (flag = RT_IPC_FLAG_PRIO \<and> k' = tl_set q (prio_insert k t (lists k q)) t ?k1) \<or>
    (flag \<noteq> RT_IPC_FLAG_FIFO \<and> flag \<noteq> RT_IPC_FLAG_PRIO \<and> k' = ?k1)"
    using e s n1 by (auto simp: rt_ipc_list_suspend_def tl_insert_before_def tl_push_def l1 pi
        split: if_splits)
  then consider (set) xs where "k' = tl_set q xs t ?k1" "distinct xs" "set xs = Set.insert t (set (lists k q))"
      "flag = RT_IPC_FLAG_FIFO \<Longrightarrow> xs = lists k q @ [t]"
      "flag = RT_IPC_FLAG_PRIO \<Longrightarrow> xs = prio_insert k t (lists k q)"
      "flag = RT_IPC_FLAG_FIFO \<or> flag = RT_IPC_FLAG_PRIO"
    | (no) "flag \<noteq> RT_IPC_FLAG_FIFO" "flag \<noteq> RT_IPC_FLAG_PRIO" "k' = ?k1"
    using dq nq pq.distinct_ins[OF dq nq, of k] by auto
  note c = this
  have tm: "TimerOf t \<notin> set (timer_list ?k1)" using timer_list_suspended[OF w, of t] by simp
  show "wf_kernel lo k'"
    using c
  proof cases
    case set
    then show ?thesis using wf_kernel_enqueue[OF w1 s1 n1 q] l1 by simp
  qed (use w1 in simp)
  show "tstat k' t = RT_THREAD_SUSPEND"
    using c by cases (use s1 in \<open>auto simp: tl_set_eq tstat_def\<close>)
  show "TimerOf t \<notin> set (timer_list k')" using c by cases (use tm in \<open>auto simp: tl_set_eq\<close>)
  show "flag = RT_IPC_FLAG_FIFO \<or> flag = RT_IPC_FLAG_PRIO \<Longrightarrow> waiting q t k'"
    using c by cases (use s1 in \<open>auto simp: waiting_def tl_set_eq tstat_def\<close>)
  show "flag = RT_IPC_FLAG_FIFO \<Longrightarrow> lists k' q = lists k q @ [t]"
    "flag = RT_IPC_FLAG_PRIO \<Longrightarrow> lists k' q = prio_insert k t (lists k q)"
    using c by (cases; auto simp: tl_set_eq)+
  show "thread k' = (thread k)(t := (thread k t)\<lparr>stat := set_stat RT_THREAD_SUSPEND (stat (thread k t)),
       tlist := (if flag = RT_IPC_FLAG_FIFO \<or> flag = RT_IPC_FLAG_PRIO then Some q else None)\<rparr>)"
    using c by cases (auto simp: tl_set_eq thread_suspended_thread)
  show "lists k' q' = lists k q'" if "wait_queue q'" "q' \<noteq> q" for q'
    using c by cases (use ls[OF that(1)] that in \<open>auto simp: tl_set_eq\<close>)
  show "current k' = current k" using c by cases (use cu in \<open>auto simp: tl_set_eq\<close>)
qed

section \<open>What moving threads leaves unchanged\<close>

definition ipc_state where
  "ipc_state k = (sems k, mutexes k, events k, mailboxes k, mqueues k, mempools k,
     (kheap k, containers k, tick k, interrupt_nest k, lock_nest k))"

definition ipc_frame :: "kernel \<Rightarrow> kernel \<Rightarrow> bool" where
  "ipc_frame k k' \<longleftrightarrow> ipc_state k' = ipc_state k"

lemma ipc_frame_refl [simp]: "ipc_frame k k"
  by (simp add: ipc_frame_def)

lemma ipc_frame_trans [trans]: "ipc_frame k k' \<Longrightarrow> ipc_frame k' k'' \<Longrightarrow> ipc_frame k k''"
  by (simp add: ipc_frame_def)

lemma ipc_frameD:
  assumes "ipc_frame k k'"
  shows "sems k' = sems k" "mutexes k' = mutexes k" "events k' = events k"
    "mailboxes k' = mailboxes k" "mqueues k' = mqueues k" "mempools k' = mempools k"
    "kheap k' = kheap k" "containers k' = containers k" "tick k' = tick k"
    "interrupt_nest k' = interrupt_nest k" "lock_nest k' = lock_nest k"
  using assms by (simp_all add: ipc_frame_def ipc_state_def)

lemma ipc_frame_timer_stopped: "ipc_frame k (timer_stopped i k)"
  by (simp add: ipc_frame_def ipc_state_def timer_stopped_def rt_timer_stop_def set_timer_flag_def
      rt_timer_remove_def upd_object_def)

lemma ipc_frame_timer_started: "ipc_frame k (timer_started i k)"
  by (simp add: ipc_frame_def ipc_state_def timer_started_def Let_def)

lemma ipc_frame_upd_thread [simp]: "ipc_frame k (upd_thread t f k)"
  by (simp add: ipc_frame_def ipc_state_def)

lemma ipc_frame_tl_set: "ipc_frame k (tl_set q xs t k)"
  by (simp add: ipc_frame_def ipc_state_def tl_set_eq)

lemma ipc_frame_tl_unlink: "ipc_frame k (tl_unlink t k)"
  by (simp add: ipc_frame_def ipc_state_def tl_unlink_eq)

lemma ipc_frame_sched_inserted: "ipc_frame k (sched_inserted t k)"
  by (simp add: ipc_frame_def ipc_state_def sched_inserted_def)

lemma ipc_frame_sched_removed: "ipc_frame k (sched_removed t k)"
  by (simp add: ipc_frame_def ipc_state_def sched_removed_def)

lemma ipc_frame_suspended: "ipc_frame k (thread_suspended t k)"
  unfolding thread_suspended_def
  by (meson ipc_frame_trans ipc_frame_upd_thread ipc_frame_sched_removed ipc_frame_timer_stopped)

lemma ipc_frame_resumed: "ipc_frame k (thread_resumed t k)"
  unfolding thread_resumed_def
  by (meson ipc_frame_trans ipc_frame_tl_unlink ipc_frame_sched_inserted ipc_frame_timer_stopped)

lemma ipc_frame_schedule: "rt_schedule k = Some k' \<Longrightarrow> ipc_frame k k'"
  using rt_schedule_frame[of k k'] cpu_frameD[of k k']
  by (simp add: ipc_frame_def ipc_state_def)

lemma ipc_frame_list_suspend:
  assumes "wf_kernel lo k" "rt_ipc_list_suspend q t flag k = Some k'"
  shows "ipc_frame k k'"
proof -
  obtain k1 where "k1 = k \<or> k1 = thread_suspended t k"
    and "k' = k1 \<or> (\<exists>xs. k' = tl_set q xs t k1)"
    using assms rt_thread_suspend_eq[OF wf_kernelD(1)[OF assms(1)], of t]
    by (fastforce simp: rt_ipc_list_suspend_def tl_insert_before_def tl_push_def split: if_splits)
  then show ?thesis
    using ipc_frame_suspended[of k t] ipc_frame_tl_set ipc_frame_trans ipc_frame_refl by metis
qed

section \<open>Resuming\<close>

lemma waiting_iff:
  assumes w: "wf_kernel lo k" and q: "wait_queue q"
  shows "waiting q t k \<longleftrightarrow> t \<in> set (lists k q)"
proof -
  have "wf_queues k" "thread_ok (thread k t)" using w by auto
  then have "t \<in> set (lists k q) \<longleftrightarrow> tlist (thread k t) = Some q"
    and "tlist (thread k t) = Some q \<Longrightarrow> tstat k t = RT_THREAD_SUSPEND"
    using q wf_queuesD(2)[of k t q] by (auto simp: wait_queue_def thread_ok_def tstat_def Let_def)
  then show ?thesis by (auto simp: waiting_def)
qed

lemma rt_ipc_list_resume_ok:
  assumes w: "wf_kernel lo k" and q: "wait_queue q" and l: "lists k q = t # ts"
  shows "rt_ipc_list_resume q k = Some (thread_resumed t k)" "wf_kernel lo (thread_resumed t k)"
    "lists (thread_resumed t k) q = ts"
proof -
  have s: "tstat k t = RT_THREAD_SUSPEND" using waiting_iff[OF w q, of t] l by (simp add: waiting_def)
  then show "rt_ipc_list_resume q k = Some (thread_resumed t k)" "wf_kernel lo (thread_resumed t k)"
    using rt_thread_resume_eq[OF wf_kernelD(1)[OF w], of t] wf_kernel_resumed[OF w s] l
    by (simp_all add: rt_ipc_list_resume_def)
  have wq: "wf_queues k" using w by auto
  show "lists (thread_resumed t k) q = ts"
    using wf_queuesD(1)[OF wq, of q] l q
    by (auto simp: thread_resumed_lists[OF wq] wait_queue_def removeAll_id)
qed

lemma thread_resumed_other_queue:
  assumes w: "wf_kernel lo k" and l: "t \<in> set (lists k q)" and q': "wait_queue q'" "q' \<noteq> q"
  shows "lists (thread_resumed t k) q' = lists k q'"
proof -
  have wq: "wf_queues k" using w by auto
  then have "t \<notin> set (lists k q')" using wf_queuesD(2)[OF wq, of t] l q' by auto
  then show ?thesis using q' by (auto simp: thread_resumed_lists[OF wq] wait_queue_def removeAll_id)
qed

lemma thread_resumed_current [simp]: "current (thread_resumed t k) = current k"
  by (simp add: thread_resumed_def sched_inserted_def tl_unlink_eq)

text \<open>\<^verbatim>\<open>rt_ipc_list_resume_all\<close> ends, empties the queue, and every thread that waited becomes ready
  with the error \<open>-RT_ERROR\<close>.\<close>

lemma rt_ipc_list_resume_all_ok:
  assumes "wf_kernel lo k" "wait_queue q"
  shows "\<exists>k'. rt_ipc_list_resume_all q k = Some k' \<and> wf_kernel lo k' \<and> lists k' q = [] \<and>
    ipc_frame k k' \<and> current k' = current k \<and>
    (\<forall>q'. wait_queue q' \<longrightarrow> q' \<noteq> q \<longrightarrow> lists k' q' = lists k q') \<and>
    (\<forall>t\<in>set (lists k q). tstat k' t = RT_THREAD_READY \<and> error (thread k' t) = - RT_ERROR) \<and>
    (\<forall>t. t \<notin> set (lists k q) \<longrightarrow> thread k' t = thread k t)"
  using assms
proof (induction "lists k q" arbitrary: k)
  case Nil
  then show ?case using rt_ipc_list_resume_all.simps[of q k] by auto
next
  case (Cons t ts)
  define k1 where "k1 = upd_thread t (\<lambda>th. th\<lparr>error := - RT_ERROR\<rparr>) k"
  have w1: "wf_kernel lo k1" unfolding k1_def by (rule wf_kernel_thread_fields) (use Cons in auto)
  have l1: "lists k1 q = t # ts" using Cons(2) by (simp add: k1_def)
  note r = rt_ipc_list_resume_ok[OF w1 Cons(4) l1]
  let ?k = "thread_resumed t k1"
  have s: "tstat k1 t = RT_THREAD_SUSPEND"
    using waiting_iff[OF w1 Cons(4), of t] l1 by (simp add: waiting_def)
  have res: "rt_thread_resume t k1 = Some (RT_EOK, ?k)"
    using rt_thread_resume_eq[OF wf_kernelD(1)[OF w1], of t] s by simp
  obtain k' where k': "rt_ipc_list_resume_all q ?k = Some k'" "wf_kernel lo k'" "lists k' q = []"
    "ipc_frame ?k k'" "current k' = current ?k"
    "\<forall>q'. wait_queue q' \<longrightarrow> q' \<noteq> q \<longrightarrow> lists k' q' = lists ?k q'"
    "\<forall>u\<in>set ts. tstat k' u = RT_THREAD_READY \<and> error (thread k' u) = - RT_ERROR"
    "\<forall>u. u \<notin> set ts \<longrightarrow> thread k' u = thread ?k u"
    using Cons(1)[of ?k] r Cons(4) by auto
  have "rt_ipc_list_resume_all q k = Some k'"
    using k'(1) res Cons(2)[symmetric] by (subst rt_ipc_list_resume_all.simps) (simp add: k1_def)
  moreover have "ipc_frame k k'"
    using k'(4) ipc_frame_resumed[of k1 t] ipc_frame_trans by (metis k1_def ipc_frame_upd_thread)
  moreover have "lists ?k q' = lists k q'" if "wait_queue q'" "q' \<noteq> q" for q'
    using thread_resumed_other_queue[OF w1 _ that, of t] l1 by (simp add: k1_def)
  moreover have "t \<notin> set ts"
    using wf_queuesD(1)[of k q] Cons(2,3) by (metis distinct.simps(2) wf_kernelD(1) wf_schedD(1))
  then have "thread k' t = thread ?k t" using k'(8) by blast
  then have "tstat k' t = RT_THREAD_READY" "error (thread k' t) = - RT_ERROR"
    using tstat_resumed[of t k1] by (simp_all add: tstat_def thread_resumed_thread k1_def)
  moreover have "thread k' u = thread k u" if "u \<notin> set (t # ts)" for u
    using k'(8) that by (auto simp: thread_resumed_thread k1_def)
  ultimately show ?case using k' Cons(2)[symmetric] by (auto simp: k1_def)
qed

section \<open>Timed waits\<close>

lemma start_wait_timer_ok:
  assumes w: "wf_kernel lo k" and lo: "lo \<le> 1" and s: "tstat k t = RT_THREAD_SUSPEND"
    and r: "start_wait_timer t time k = Some k'"
  shows "wf_kernel lo k'" "ipc_frame k k'" "thread k' = thread k" "lists k' = lists k"
    "current k' = current k"
proof -
  let ?k = "upd_timer (TimerOf t) (\<lambda>t. t\<lparr>tm_init_tick := word_of_int time\<rparr>) k"
  have fr: "ipc_frame k ?k" "thread ?k = thread k" "lists ?k = lists k" "current ?k = current k"
    by (simp_all add: ipc_frame_def ipc_state_def upd_timer_def)
  consider "k' = k" | e where "rt_timer_start (TimerOf t) ?k = Some (e, k')"
    using r by (auto simp: start_wait_timer_def rt_timer_control_def bind_eq_Some_conv split: if_splits)
  note c = this
  show "wf_kernel lo k'"
    using c by cases (use w wf_kernel_arm[OF w lo s] in \<open>auto simp: rt_timer_control_def\<close>)
  show "ipc_frame k k'"
    using c by cases (use fr ipc_frame_timer_started[of ?k] ipc_frame_trans in
      \<open>auto simp: rt_timer_start_eq split: if_splits\<close>)
  show "thread k' = thread k" "lists k' = lists k" "current k' = current k"
    using c by (cases; use fr in \<open>auto simp: rt_timer_start_eq split: if_splits\<close>)+
qed

text \<open>The timer of the wait is started when the time is below half the tick range, and the wait
  is then over no later than that many ticks from now.\<close>

lemma start_wait_timer_returns:
  assumes "time < 0x7FFFFFFF"
  shows "\<exists>k'. start_wait_timer t time k = Some k'"
proof (cases "time > 0")
  case True
  then have "word_of_int time < (0x7FFFFFFF :: u32)" using assms
    by (simp add: word_less_alt uint_word_of_int)
  then show ?thesis
    by (simp add: start_wait_timer_def rt_timer_control_def rt_timer_start_eq upd_timer_def)
qed (simp add: start_wait_timer_def)

section \<open>Going to sleep on a queue\<close>

text \<open>The running thread is ready. This fails only between a blocking call made with the scheduler
  locked and the next switch.\<close>

definition run_ready :: "kernel \<Rightarrow> bool" where
  "run_ready k \<longleftrightarrow> (\<forall>t. current k = Some t \<longrightarrow> tstat k t = RT_THREAD_READY)"

lemma run_ready_schedule:
  "wf_sched k \<Longrightarrow> rt_schedule k = Some k' \<Longrightarrow> lock_nest k = 0 \<Longrightarrow> run_ready k'"
  using rt_schedule_must_run[of k k'] by (auto simp: run_ready_def must_run_def)

lemma run_ready_schedule_any:
  assumes "wf_sched k" "rt_schedule k = Some k'" "run_ready k"
  shows "run_ready k'"
proof (cases "lock_nest k = 0")
  case False
  then have "k' = k" using assms(2) by (simp add: rt_schedule_alt)
  then show ?thesis using assms(3) by simp
qed (use assms run_ready_schedule in blast)

text \<open>The common tail of every blocking call: the running thread enters the queue, its timer is
  started, and the processor is given up.\<close>

definition block_current :: "list_head \<Rightarrow> u8 \<Rightarrow> int \<Rightarrow> nat \<Rightarrow> kernel \<Rightarrow> kernel option" where
  "block_current q flag time t k = do {
     k \<leftarrow> rt_ipc_list_suspend q t flag k;
     k \<leftarrow> start_wait_timer t time k;
     rt_schedule k
   }"

lemma block_current_ok:
  assumes w: "wf_kernel lo k" and lo: "lo \<le> 1" and r: "tstat k t = RT_THREAD_READY"
    and q: "wait_queue q" and e: "block_current q flag time t k = Some k'"
  shows "wf_kernel lo k'" "ipc_frame k k'" "tstat k' t = RT_THREAD_SUSPEND"
    "flag = RT_IPC_FLAG_FIFO \<or> flag = RT_IPC_FLAG_PRIO \<Longrightarrow> waiting q t k'"
    "flag = RT_IPC_FLAG_FIFO \<Longrightarrow> lists k' q = lists k q @ [t]"
    "flag = RT_IPC_FLAG_PRIO \<Longrightarrow> lists k' q = prio_insert k t (lists k q)"
    "lock_nest k = 0 \<Longrightarrow> current k' \<noteq> Some t" "lock_nest k = 0 \<Longrightarrow> run_ready k'"
    "thread k' = (thread k)(t := (thread k t)\<lparr>stat := set_stat RT_THREAD_SUSPEND (stat (thread k t)),
       tlist := (if flag = RT_IPC_FLAG_FIFO \<or> flag = RT_IPC_FLAG_PRIO then Some q else None)\<rparr>)"
    "\<And>q'. wait_queue q' \<Longrightarrow> q' \<noteq> q \<Longrightarrow> lists k' q' = lists k q'"
proof -
  obtain k1 k2 where k: "rt_ipc_list_suspend q t flag k = Some k1"
    "start_wait_timer t time k1 = Some k2" "rt_schedule k2 = Some k'"
    using e by (auto simp: block_current_def bind_eq_Some_conv)
  note s = rt_ipc_list_suspend_ok[OF w r q k(1)]
  note m = start_wait_timer_ok[OF s(1) lo s(2) k(2)]
  have sc: "cpu_frame k2 k'" using rt_schedule_frame[OF k(3)] by simp
  note d = cpu_frameD[OF sc]
  show w': "wf_kernel lo k'" by (rule wf_kernel_schedule[OF m(1) k(3)])
  show fr: "ipc_frame k k'"
    using ipc_frame_list_suspend[OF w k(1)] m(2) ipc_frame_schedule[OF k(3)] ipc_frame_trans by blast
  show st: "tstat k' t = RT_THREAD_SUSPEND" using s(2) d m(3) by (simp add: tstat_def)
  show "flag = RT_IPC_FLAG_FIFO \<or> flag = RT_IPC_FLAG_PRIO \<Longrightarrow> waiting q t k'"
    using s(4) d m(3) by (simp add: waiting_def tstat_def)
  show "flag = RT_IPC_FLAG_FIFO \<Longrightarrow> lists k' q = lists k q @ [t]"
    "flag = RT_IPC_FLAG_PRIO \<Longrightarrow> lists k' q = prio_insert k t (lists k q)"
    using s(5,6) d(2) m(4) by simp_all
  have "lock_nest k2 = lock_nest k"
    using ipc_frameD(11)[OF ipc_frame_list_suspend[OF w k(1)]] ipc_frameD(11)[OF m(2)] by simp
  then show rr: "run_ready k'" if "lock_nest k = 0"
    using run_ready_schedule[OF wf_kernelD(1)[OF m(1)] k(3)] that by simp
  show "current k' \<noteq> Some t" if "lock_nest k = 0"
    using rr[OF that] st by (auto simp: run_ready_def)
  show "thread k' = (thread k)(t := (thread k t)\<lparr>stat := set_stat RT_THREAD_SUSPEND (stat (thread k t)),
       tlist := (if flag = RT_IPC_FLAG_FIFO \<or> flag = RT_IPC_FLAG_PRIO then Some q else None)\<rparr>)"
    using s(7) m(3) d(1) by simp
  show "lists k' q' = lists k q'" if "wait_queue q'" "q' \<noteq> q" for q'
    using s(8)[OF that] m(4) d(2) by simp
qed

section \<open>Objects\<close>

lemma wf_kernel_heap [simp]: "wf_kernel lo k \<Longrightarrow> wf_kernel lo (k\<lparr>kheap := h\<rparr>)"
  by (rule wf_kernel_same[of lo k]) simp_all

lemma k_malloc_eq_Some:
  "k_malloc sz k = Some (p, k') \<longleftrightarrow>
   interrupt_nest k = 0 \<and> (\<exists>h. rt_malloc sz (kheap k) = Some (p, h) \<and> k' = k\<lparr>kheap := h\<rparr>)"
  by (auto simp: k_malloc_def RT_DEBUG_NOT_IN_INTERRUPT_def rt_interrupt_get_nest_def
      bind_eq_Some_conv)

lemma k_free_eq_Some:
  "k_free p k = Some k' \<longleftrightarrow>
   interrupt_nest k = 0 \<and> (\<exists>h. rt_free p (kheap k) = Some h \<and> k' = k\<lparr>kheap := h\<rparr>)"
  by (auto simp: k_free_def RT_DEBUG_NOT_IN_INTERRUPT_def rt_interrupt_get_nest_def bind_eq_Some_conv)

lemma wf_kernel_upd_object:
  assumes w: "wf_kernel lo k" and t: "Obj a \<notin> set (timer_list k)"
    and l: "length (obj_name (f (objects k (Obj a)))) = RT_NAME_MAX"
  shows "wf_kernel lo (upd_object (Obj a) f k)"
proof (rule wf_kernel_objects[OF w])
  show "wf_objects (upd_object (Obj a) f k)" by (rule wf_objects_upd_object) (use w l in auto)
qed (use t in \<open>auto simp: upd_object_def timer_flag_def\<close>)

lemma wf_kernel_upd_flag:
  assumes "wf_kernel lo k" "Obj a \<notin> set (timer_list k)"
  shows "wf_kernel lo (upd_flag a f k)"
  unfolding upd_flag_def
  by (rule wf_kernel_upd_object) (use assms in \<open>auto simp: wf_objects_def dest!: wf_kernelD(3)\<close>)

lemma upd_flag_frame [simp]:
  "thread (upd_flag a f k) = thread k" "lists (upd_flag a f k) = lists k"
  "timer_list (upd_flag a f k) = timer_list k" "current (upd_flag a f k) = current k"
  "ipc_frame k (upd_flag a f k)" "ipc_flag a (upd_flag a f k) = f"
  by (simp_all add: upd_flag_def upd_object_def ipc_frame_def ipc_state_def ipc_flag_def)

lemma wf_kernel_link:
  assumes w: "wf_kernel lo k" and l: "obj_link ty i k = Some k'" "rt_object_get_information ty \<noteq> None"
  shows "wf_kernel lo k'"
proof (rule wf_kernel_objects[OF w])
  show "wf_objects k'" using wf_objects_link[OF wf_kernelD(3)[OF w] l] .
qed (use l in \<open>auto simp: obj_link_def timer_flag_def\<close>)

text \<open>The two ways out of \<^verbatim>\<open>rt_object_allocate\<close>.\<close>

lemma rt_object_allocate_cases:
  assumes "rt_object_allocate ty name k = Some (p, k')"
  obtains (failed) h where "p = 0" "interrupt_nest k = 0" "k' = k\<lparr>kheap := h\<rparr>"
    | (linked) sz h nm where "p \<noteq> 0" "interrupt_nest k = 0" "rt_object_get_information ty = Some sz"
        "rt_malloc sz (kheap k) = Some (p, h)"
        "rt_strncpy (obj_name (objects k (Obj p))) name RT_NAME_MAX = Some nm"
        "obj_link ty (Obj p) (upd_object (Obj p)
           (\<lambda>b. b\<lparr>obj_type := ty, obj_flag := 0, obj_name := nm\<rparr>) (k\<lparr>kheap := h\<rparr>)) = Some k'"
proof -
  obtain sz k1 where ty: "rt_object_get_information ty = Some sz"
    and m: "k_malloc sz k = Some (p, k1)"
    and c: "if p = 0 then k' = k1
      else \<exists>nm. rt_strncpy (obj_name (objects k1 (Obj p))) name RT_NAME_MAX = Some nm \<and>
        obj_link ty (Obj p)
          (upd_object (Obj p) (\<lambda>b. b\<lparr>obj_type := ty, obj_flag := 0, obj_name := nm\<rparr>) k1) = Some k'"
    using assms unfolding rt_object_allocate_def bind_eq_Some_conv Let_def
    by (auto simp: bind_eq_Some_conv split: if_splits)
  obtain h where h: "interrupt_nest k = 0" "rt_malloc sz (kheap k) = Some (p, h)" "k1 = k\<lparr>kheap := h\<rparr>"
    using m unfolding k_malloc_eq_Some by blast
  show thesis
  proof (cases "p = 0")
    case True
    then show thesis using failed[of h] c h by simp
  next
    case False
    then obtain nm where "rt_strncpy (obj_name (objects k1 (Obj p))) name RT_NAME_MAX = Some nm"
      "obj_link ty (Obj p)
          (upd_object (Obj p) (\<lambda>b. b\<lparr>obj_type := ty, obj_flag := 0, obj_name := nm\<rparr>) k1) = Some k'"
      using c by auto
    then show thesis using linked[OF False h(1) ty h(2)] h(3) by simp
  qed
qed

lemma wf_kernel_allocate:
  assumes w: "wf_kernel lo k" and r: "rt_object_allocate ty name k = Some (p, k')"
    and t: "Obj p \<notin> set (timer_list k)"
  shows "wf_kernel lo k'"
  using r
proof (cases rule: rt_object_allocate_cases)
  case failed
  then show ?thesis using w by simp
next
  case (linked sz h nm)
  have w1: "wf_kernel lo (k\<lparr>kheap := h\<rparr>)" using w by simp
  have "length nm = RT_NAME_MAX"
    using length_rt_strncpy[OF linked(5)] wf_kernelD(3)[OF w] by (simp add: wf_objects_def)
  then show ?thesis
    by (intro wf_kernel_link[OF wf_kernel_upd_object[OF w1] linked(6)]) (use t linked(3) in auto)
qed

lemma rt_object_allocate_frame:
  assumes "rt_object_allocate ty name k = Some (p, k')"
  shows "thread k' = thread k" "lists k' = lists k" "timer_list k' = timer_list k"
    "sems k' = sems k" "mutexes k' = mutexes k" "events k' = events k"
    "mailboxes k' = mailboxes k" "mqueues k' = mqueues k" "mempools k' = mempools k"
    "interrupt_nest k' = 0" "current k' = current k"
  using assms
  by (cases rule: rt_object_allocate_cases; simp add: obj_link_def upd_object_def; fastforce)+

lemma wf_kernel_object_delete:
  assumes "wf_kernel lo k" "rt_object_delete p k = Some k'"
  shows "wf_kernel lo k'"
proof -
  obtain h where "k' = (obj_unlink (Obj p) k)\<lparr>kheap := h\<rparr>"
    using assms(2) by (auto simp: rt_object_delete_def k_free_eq_Some)
  then show ?thesis
    using wf_kernel_object_detach[OF assms(1), of "Obj p"] by (simp add: rt_object_detach_def)
qed

text \<open>The common shape of \<^verbatim>\<open>rt_xxx_detach\<close> and \<^verbatim>\<open>rt_xxx_delete\<close>: wake all waiting threads, then
  unlink the object, and free it.\<close>

definition ipc_detach :: "nat \<Rightarrow> kernel \<Rightarrow> kernel option" where
  "ipc_detach a k = do {
     RT_ASSERT (a \<noteq> 0);
     k \<leftarrow> rt_ipc_list_resume_all (Susp a) k;
     Some (rt_object_detach (Obj a) k)
   }"

definition ipc_delete :: "nat \<Rightarrow> kernel \<Rightarrow> kernel option" where
  "ipc_delete a k = do {
     RT_DEBUG_NOT_IN_INTERRUPT k;
     RT_ASSERT (a \<noteq> 0);
     k \<leftarrow> rt_ipc_list_resume_all (Susp a) k;
     rt_object_delete a k
   }"

lemma wait_queue_Susp [simp]: "wait_queue (Susp a)" "wait_queue (SuspSender a)"
  by (simp_all add: wait_queue_def)

lemma wf_kernel_resume_all:
  "wf_kernel lo k \<Longrightarrow> wait_queue q \<Longrightarrow> rt_ipc_list_resume_all q k = Some k' \<Longrightarrow> wf_kernel lo k'"
  using rt_ipc_list_resume_all_ok[of lo k q] by auto

lemma wf_kernel_ipc_detach:
  assumes w: "wf_kernel lo k" and r: "ipc_detach a k = Some k'"
  shows "wf_kernel lo k'"
proof -
  obtain k1 where k1: "rt_ipc_list_resume_all (Susp a) k = Some k1" "k' = rt_object_detach (Obj a) k1"
    using r unfolding ipc_detach_def bind_eq_Some_conv by blast
  show ?thesis unfolding k1(2)
    by (rule wf_kernel_object_detach[OF wf_kernel_resume_all[OF w _ k1(1)]]) simp
qed

lemma wf_kernel_ipc_delete:
  assumes w: "wf_kernel lo k" and r: "ipc_delete a k = Some k'"
  shows "wf_kernel lo k'"
proof -
  obtain k1 where k1: "rt_ipc_list_resume_all (Susp a) k = Some k1" "rt_object_delete a k1 = Some k'"
    using r unfolding ipc_delete_def bind_eq_Some_conv by blast
  show ?thesis
    by (rule wf_kernel_object_delete[OF wf_kernel_resume_all[OF w _ k1(1)] k1(2)]) simp
qed

lemma run_ready_resumed: "run_ready k \<Longrightarrow> run_ready (thread_resumed t k)"
  using tstat_resumed[of t k] by (auto simp: run_ready_def tstat_def thread_resumed_thread)

lemma resume_one_and_schedule_ok:
  assumes w: "wf_kernel lo k" and q: "wait_queue q" and r: "resume_one_and_schedule q k = Some k'"
  shows "wf_kernel lo k'" "ipc_frame k k'" "lists k' q = tl (lists k q)"
    "wait_queue q' \<Longrightarrow> q' \<noteq> q \<Longrightarrow> lists k' q' = lists k q'" "run_ready k \<Longrightarrow> run_ready k'"
proof -
  have "wf_kernel lo k' \<and> ipc_frame k k' \<and> lists k' q = tl (lists k q) \<and>
    (wait_queue q' \<longrightarrow> q' \<noteq> q \<longrightarrow> lists k' q' = lists k q') \<and> (run_ready k \<longrightarrow> run_ready k')"
  proof (cases "lists k q")
    case Nil
    then show ?thesis using r w by (simp add: resume_one_and_schedule_def)
  next
    case (Cons t ts)
    note p = rt_ipc_list_resume_ok[OF w q Cons]
    have s: "rt_schedule (thread_resumed t k) = Some k'"
      using r Cons p(1) by (simp add: resume_one_and_schedule_def)
    have "cpu_frame (thread_resumed t k) k'" using rt_schedule_frame[OF s] by simp
    then have l: "lists k' = lists (thread_resumed t k)" by (rule cpu_frameD(2))
    have "run_ready k'" if "run_ready k"
      by (rule run_ready_schedule_any[OF wf_kernelD(1)[OF p(2)] s run_ready_resumed[OF that]])
    then show ?thesis
      using wf_kernel_schedule[OF p(2) s] ipc_frame_schedule[OF s] ipc_frame_resumed[of k t]
        ipc_frame_trans p(3) l Cons thread_resumed_other_queue[OF w, of t q q'] by auto
  qed
  then show "wf_kernel lo k'" "ipc_frame k k'" "lists k' q = tl (lists k q)"
    "wait_queue q' \<Longrightarrow> q' \<noteq> q \<Longrightarrow> lists k' q' = lists k q'" "run_ready k \<Longrightarrow> run_ready k'" by auto
qed

section \<open>Blocking calls\<close>

text \<open>Where a thread belongs in a wait queue: at the end, or behind the threads that are at least as
  urgent (have at most its priority number) and before the first that is less urgent.\<close>

definition enqueue :: "u8 \<Rightarrow> kernel \<Rightarrow> nat \<Rightarrow> nat list \<Rightarrow> nat list" where
  "enqueue flag k t xs =
     (if flag = RT_IPC_FLAG_FIFO then xs @ [t]
      else takeWhile (\<lambda>u. current_priority (thread k u) \<le> current_priority (thread k t)) xs @
        t # dropWhile (\<lambda>u. current_priority (thread k u) \<le> current_priority (thread k t)) xs)"

lemma enqueue_prio: "flag \<noteq> RT_IPC_FLAG_FIFO \<Longrightarrow> enqueue flag k t xs = prio_insert k t xs"
  by (induction xs) (auto simp: enqueue_def prio_before_def)

lemma set_enqueue [simp]: "set (enqueue flag k t xs) = Set.insert t (set xs)"
  by (cases "flag = RT_IPC_FLAG_FIFO")
    (simp add: enqueue_def, induction xs, auto simp: enqueue_def)

lemma prio_insert_cong:
  "(\<And>u. current_priority (thread k' u) = current_priority (thread k u)) \<Longrightarrow>
   prio_insert k' t xs = prio_insert k t xs"
  by (induction xs) (auto simp: prio_before_def)

lemma wf_kernel_set_error: "wf_kernel lo k \<Longrightarrow> wf_kernel lo (upd_thread t (\<lambda>th. th\<lparr>error := e\<rparr>) k)"
  by (rule wf_kernel_thread_fields) simp_all

text \<open>The way a call blocks: the error code is cleared, then the thread goes to sleep.\<close>

lemma block_self_ok:
  assumes w: "wf_kernel lo k" and lo: "lo \<le> 1" and cur: "run_ready k" "current k = Some t"
    and q: "wait_queue q" and flag: "flag = RT_IPC_FLAG_FIFO \<or> flag = RT_IPC_FLAG_PRIO"
    and r: "block_current q flag time t (upd_thread t (\<lambda>th. th\<lparr>error := RT_EOK\<rparr>) k) = Some k'"
  shows "wf_kernel lo k'" "ipc_frame k k'" "waiting q t k'" "error (thread k' t) = RT_EOK"
    "lists k' q = enqueue flag k t (lists k q)" "lock_nest k = 0 \<Longrightarrow> current k' \<noteq> Some t"
    "lock_nest k = 0 \<Longrightarrow> run_ready k'" "wait_queue q' \<Longrightarrow> q' \<noteq> q \<Longrightarrow> lists k' q' = lists k q'"
    "u \<noteq> t \<Longrightarrow> thread k' u = thread k u"
    "event_set (thread k' t) = event_set (thread k t) \<and> event_info (thread k' t) = event_info (thread k t)"
proof -
  let ?k = "upd_thread t (\<lambda>th. th\<lparr>error := RT_EOK\<rparr>) k"
  have "tstat ?k t = RT_THREAD_READY" using cur by (simp add: run_ready_def tstat_def)
  note b = block_current_ok[OF wf_kernel_set_error[OF w] lo this q r]
  have pi: "prio_insert ?k t xs = prio_insert k t xs" for xs by (rule prio_insert_cong) simp
  show "wf_kernel lo k'" "waiting q t k'" using b(1,4) flag by auto
  show "ipc_frame k k'" using b(2) ipc_frame_trans[OF ipc_frame_upd_thread] by blast
  show "lists k' q = enqueue flag k t (lists k q)"
    using b(5,6) flag pi by (cases "flag = RT_IPC_FLAG_FIFO") (auto simp: enqueue_prio, simp add: enqueue_def)
  show "error (thread k' t) = RT_EOK" "u \<noteq> t \<Longrightarrow> thread k' u = thread k u"
    "event_set (thread k' t) = event_set (thread k t) \<and> event_info (thread k' t) = event_info (thread k t)"
    using b(9) by simp_all
  show "lock_nest k = 0 \<Longrightarrow> current k' \<noteq> Some t" "lock_nest k = 0 \<Longrightarrow> run_ready k'"
    "wait_queue q' \<Longrightarrow> q' \<noteq> q \<Longrightarrow> lists k' q' = lists k q'"
    using b(7,8,10) by simp_all
qed

end
