(* ===== verification/Semaphore.thy ===== *)
theory Semaphore
  imports IpcCore
begin

text \<open>
  Counting semaphores (\<^verbatim>\<open>src/ipc.c\<close>, lines 211 to 510). The abstract view of a semaphore is its
  count and its queue of waiting threads: taking either lowers the count or queues the caller,
  releasing either hands the token to the first waiting thread or raises the count.
\<close>

section \<open>The operations\<close>

definition sem_setup :: "nat \<Rightarrow> u32 \<Rightarrow> u8 \<Rightarrow> kernel \<Rightarrow> kernel option" where
  "sem_setup a val flag k = do {
     k \<leftarrow> rt_ipc_object_init a k;
     let k = upd_sem a (\<lambda>s. s\<lparr>sem_value := ucast val\<rparr>) k;
     Some (upd_flag a flag k)
   }"

definition rt_sem_init :: "nat \<Rightarrow> u8 list \<Rightarrow> u32 \<Rightarrow> u8 \<Rightarrow> kernel \<Rightarrow> (rt_err \<times> kernel) option" where
  "rt_sem_init a name val flag k = do {
     RT_ASSERT (a \<noteq> 0);
     k \<leftarrow> rt_object_init (Obj a) RT_Object_Class_Semaphore name k;
     k \<leftarrow> sem_setup a val flag k;
     Some (RT_EOK, k)
   }"

definition rt_sem_detach :: "nat \<Rightarrow> kernel \<Rightarrow> (rt_err \<times> kernel) option" where
  "rt_sem_detach a k = do {
     k \<leftarrow> ipc_detach a k;
     Some (RT_EOK, k)
   }"

definition rt_sem_create :: "u8 list \<Rightarrow> u32 \<Rightarrow> u8 \<Rightarrow> kernel \<Rightarrow> (nat \<times> kernel) option" where
  "rt_sem_create name val flag k = do {
     RT_DEBUG_NOT_IN_INTERRUPT k;
     (a, k) \<leftarrow> rt_object_allocate RT_Object_Class_Semaphore name k;
     if a = 0 then Some (0, k)
     else do {
       k \<leftarrow> sem_setup a val flag k;
       Some (a, k)
     }
   }"

definition rt_sem_delete :: "nat \<Rightarrow> kernel \<Rightarrow> (rt_err \<times> kernel) option" where
  "rt_sem_delete a k = do {
     k \<leftarrow> ipc_delete a k;
     Some (RT_EOK, k)
   }"

definition rt_sem_take :: "nat \<Rightarrow> int \<Rightarrow> kernel \<Rightarrow> ((rt_err, nat) outcome \<times> kernel) option" where
  "rt_sem_take a time k = do {
     RT_ASSERT (a \<noteq> 0);
     if sem_value (sems k a) > 0 then
       Some (Ret RT_EOK, upd_sem a (\<lambda>s. s\<lparr>sem_value := sem_value s - 1\<rparr>) k)
     else if time = 0 then Some (Ret (- RT_ETIMEOUT), k)
     else do {
       RT_DEBUG_IN_THREAD_CONTEXT k;
       t \<leftarrow> rt_thread_self k;
       let k = upd_thread t (\<lambda>th. th\<lparr>error := RT_EOK\<rparr>) k;
       k \<leftarrow> block_current (Susp a) (ipc_flag a k) time t k;
       Some (Wait t, k)
     }
   }"

definition rt_sem_take_cont :: "nat \<Rightarrow> kernel \<Rightarrow> rt_err" where
  "rt_sem_take_cont t k =
     (if error (thread k t) \<noteq> RT_EOK then error (thread k t) else RT_EOK)"

definition rt_sem_trytake :: "nat \<Rightarrow> kernel \<Rightarrow> ((rt_err, nat) outcome \<times> kernel) option" where
  "rt_sem_trytake a k = rt_sem_take a 0 k"

definition rt_sem_release :: "nat \<Rightarrow> kernel \<Rightarrow> (rt_err \<times> kernel) option" where
  "rt_sem_release a k =
     (if lists k (Susp a) \<noteq> [] then do {
        k \<leftarrow> rt_ipc_list_resume (Susp a) k;
        k \<leftarrow> rt_schedule k;
        Some (RT_EOK, k)
      } else Some (RT_EOK, upd_sem a (\<lambda>s. s\<lparr>sem_value := sem_value s + 1\<rparr>) k))"

definition rt_sem_control :: "nat \<Rightarrow> nat \<Rightarrow> u32 \<Rightarrow> kernel \<Rightarrow> (rt_err \<times> kernel) option" where
  "rt_sem_control a cmd arg k = do {
     RT_ASSERT (a \<noteq> 0);
     if cmd = RT_IPC_CMD_RESET then do {
       k \<leftarrow> rt_ipc_list_resume_all (Susp a) k;
       let k = upd_sem a (\<lambda>s. s\<lparr>sem_value := ucast arg\<rparr>) k;
       k \<leftarrow> rt_schedule k;
       Some (RT_EOK, k)
     } else Some (- RT_ERROR, k)
   }"

section \<open>The abstract semaphore\<close>

definition sem_abs :: "nat \<Rightarrow> kernel \<Rightarrow> u16 \<times> nat list" where
  "sem_abs a k = (sem_value (sems k a), lists k (Susp a))"

definition spec_take :: "(nat list \<Rightarrow> nat list) \<Rightarrow> bool \<Rightarrow> u16 \<times> nat list \<Rightarrow> u16 \<times> nat list" where
  "spec_take enq may_wait s =
     (if fst s > 0 then (fst s - 1, snd s) else if may_wait then (fst s, enq (snd s)) else s)"

definition spec_release :: "u16 \<times> nat list \<Rightarrow> u16 \<times> nat list" where
  "spec_release s = (case snd s of [] \<Rightarrow> (fst s + 1, []) | t # ts \<Rightarrow> (fst s, ts))"

text \<open>No thread waits while there is a token.\<close>

definition sem_inv :: "nat \<Rightarrow> kernel \<Rightarrow> bool" where
  "sem_inv a k \<longleftrightarrow> (sem_value (sems k a) = 0 \<or> lists k (Susp a) = [])"

lemma wf_kernel_upd_sem [simp]: "wf_kernel lo k \<Longrightarrow> wf_kernel lo (upd_sem a f k)"
  by (rule wf_kernel_same[of lo k]) (simp_all add: upd_sem_def)

lemma upd_sem_sel [simp]:
  "sems (upd_sem a f k) = (sems k)(a := f (sems k a))" "lists (upd_sem a f k) = lists k"
  "thread (upd_sem a f k) = thread k" "current (upd_sem a f k) = current k"
  "lock_nest (upd_sem a f k) = lock_nest k" "timer_list (upd_sem a f k) = timer_list k"
  by (simp_all add: upd_sem_def)

section \<open>Correctness\<close>

text \<open>The three ways out of \<^verbatim>\<open>rt_sem_take\<close>.\<close>

lemma rt_sem_take_cases:
  assumes "rt_sem_take a time k = Some (res, k')"
  obtains (taken) "sem_value (sems k a) > 0" "res = Ret RT_EOK"
      "k' = upd_sem a (\<lambda>s. s\<lparr>sem_value := sem_value s - 1\<rparr>) k"
    | (empty) "sem_value (sems k a) = 0" "time = 0" "res = Ret (- RT_ETIMEOUT)" "k' = k"
    | (block) t where "sem_value (sems k a) = 0" "time \<noteq> 0" "res = Wait t" "current k = Some t"
        "interrupt_nest k = 0"
        "block_current (Susp a) (ipc_flag a k) time t (upd_thread t (\<lambda>th. th\<lparr>error := RT_EOK\<rparr>) k) = Some k'"
proof (cases "sem_value (sems k a) > 0")
  case True
  then show thesis using taken assms by (simp add: rt_sem_take_def)
next
  case False
  then have z: "sem_value (sems k a) = 0" by (simp add: word_gt_0)
  show thesis
  proof (cases "time = 0")
    case True
    then show thesis using empty z assms by (simp add: rt_sem_take_def)
  next
    case False
    then show thesis using block z assms
      by (auto simp: rt_sem_take_def RT_DEBUG_IN_THREAD_CONTEXT_def RT_DEBUG_NOT_IN_INTERRUPT_def
          rt_interrupt_get_nest_def rt_thread_self_def ipc_flag_def bind_eq_Some_conv)
  qed
qed

lemma rt_sem_take_ok:
  assumes w: "wf_kernel lo k" and lo: "lo \<le> 1" and cur: "run_ready k"
    and flag: "ipc_flag a k = RT_IPC_FLAG_FIFO \<or> ipc_flag a k = RT_IPC_FLAG_PRIO"
    and r: "rt_sem_take a time k = Some (res, k')"
  shows "wf_kernel lo k'"
    "sem_abs a k' = spec_take (enqueue (ipc_flag a k) k (the (current k))) (time \<noteq> 0) (sem_abs a k)"
    "b \<noteq> a \<Longrightarrow> sem_abs b k' = sem_abs b k"
    "lock_nest k = 0 \<Longrightarrow> run_ready k'"
proof -
  let ?enq = "enqueue (ipc_flag a k) k (the (current k))"
  have "wf_kernel lo k' \<and> sem_abs a k' = spec_take ?enq (time \<noteq> 0) (sem_abs a k) \<and>
    (b \<noteq> a \<longrightarrow> sem_abs b k' = sem_abs b k) \<and> (lock_nest k = 0 \<longrightarrow> run_ready k')"
    using r
  proof (cases rule: rt_sem_take_cases)
    case taken
    then show ?thesis using w cur by (simp add: sem_abs_def spec_take_def run_ready_def tstat_def)
  next
    case empty
    then show ?thesis using w cur by (simp add: sem_abs_def spec_take_def)
  next
    case (block t)
    note b = block_self_ok[OF w lo cur block(4) wait_queue_Susp(1) flag block(6)]
    show ?thesis
      using b(1,5,7) b(8)[of "Susp b"] ipc_frameD(1)[OF b(2)] block
      by (simp add: sem_abs_def spec_take_def)
  qed
  then show "wf_kernel lo k'" "sem_abs a k' = spec_take ?enq (time \<noteq> 0) (sem_abs a k)"
    "b \<noteq> a \<Longrightarrow> sem_abs b k' = sem_abs b k" "lock_nest k = 0 \<Longrightarrow> run_ready k'" by simp_all
qed

lemma rt_sem_take_blocks:
  assumes w: "wf_kernel lo k" "lo \<le> 1" "run_ready k"
    and flag: "ipc_flag a k = RT_IPC_FLAG_FIFO \<or> ipc_flag a k = RT_IPC_FLAG_PRIO"
    and r: "rt_sem_take a time k = Some (Wait t, k')"
  shows "waiting (Susp a) t k'" "error (thread k' t) = RT_EOK" "lock_nest k = 0 \<Longrightarrow> current k' \<noteq> Some t"
proof -
  have c: "current k = Some t"
    "block_current (Susp a) (ipc_flag a k) time t (upd_thread t (\<lambda>th. th\<lparr>error := RT_EOK\<rparr>) k) = Some k'"
    using r by (cases rule: rt_sem_take_cases; simp)+
  note b = block_self_ok[OF w c(1) wait_queue_Susp(1) flag c(2)]
  show "waiting (Susp a) t k'" "error (thread k' t) = RT_EOK" "lock_nest k = 0 \<Longrightarrow> current k' \<noteq> Some t"
    using b(3,4,6) by simp_all
qed

lemma rt_sem_release_ok:
  assumes w: "wf_kernel lo k" and r: "rt_sem_release a k = Some (e, k')"
  shows "wf_kernel lo k'" "e = RT_EOK" "sem_abs a k' = spec_release (sem_abs a k)"
    "b \<noteq> a \<Longrightarrow> sem_abs b k' = sem_abs b k" "run_ready k \<Longrightarrow> run_ready k'"
proof -
  have "wf_kernel lo k' \<and> e = RT_EOK \<and> sem_abs a k' = spec_release (sem_abs a k) \<and>
    (b \<noteq> a \<longrightarrow> sem_abs b k' = sem_abs b k) \<and> (run_ready k \<longrightarrow> run_ready k')"
  proof (cases "lists k (Susp a)")
    case Nil
    then have "k' = upd_sem a (\<lambda>s. s\<lparr>sem_value := sem_value s + 1\<rparr>) k" "e = RT_EOK"
      using r by (simp_all add: rt_sem_release_def)
    then show ?thesis
      using w Nil by (simp add: sem_abs_def spec_release_def run_ready_def tstat_def)
  next
    case (Cons t ts)
    then have "resume_one_and_schedule (Susp a) k = Some k' \<and> e = RT_EOK"
      using r by (auto simp: rt_sem_release_def resume_one_and_schedule_def bind_eq_Some_conv)
    then have e: "e = RT_EOK" and s: "resume_one_and_schedule (Susp a) k = Some k'" by simp_all
    note o = resume_one_and_schedule_ok[OF w wait_queue_Susp(1) s]
    show ?thesis
      using e o(1,3,5) o(4)[of "Susp b"] ipc_frameD(1)[OF o(2)] Cons
      by (simp add: sem_abs_def spec_release_def)
  qed
  then show "wf_kernel lo k'" "e = RT_EOK" "sem_abs a k' = spec_release (sem_abs a k)"
    "b \<noteq> a \<Longrightarrow> sem_abs b k' = sem_abs b k" "run_ready k \<Longrightarrow> run_ready k'" by simp_all
qed

lemma rt_sem_control_ok:
  assumes w: "wf_kernel lo k" and r: "rt_sem_control a cmd arg k = Some (e, k')"
  shows "wf_kernel lo k'" "cmd = RT_IPC_CMD_RESET \<Longrightarrow> e = RT_EOK \<and> sem_abs a k' = (ucast arg, [])"
    "cmd \<noteq> RT_IPC_CMD_RESET \<Longrightarrow> e = - RT_ERROR \<and> k' = k"
proof -
  show "cmd \<noteq> RT_IPC_CMD_RESET \<Longrightarrow> e = - RT_ERROR \<and> k' = k"
    using r by (simp add: rt_sem_control_def)
  obtain k1 where k1: "rt_ipc_list_resume_all (Susp a) k = Some k1" "wf_kernel lo k1"
    "lists k1 (Susp a) = []" using rt_ipc_list_resume_all_ok[OF w, of "Susp a"] by auto
  let ?k = "upd_sem a (\<lambda>s. s\<lparr>sem_value := ucast arg\<rparr>) k1"
  have c: "cmd = RT_IPC_CMD_RESET \<Longrightarrow> rt_schedule ?k = Some k' \<and> e = RT_EOK"
    using r k1(1) by (auto simp: rt_sem_control_def bind_eq_Some_conv)
  then show "cmd = RT_IPC_CMD_RESET \<Longrightarrow> e = RT_EOK \<and> sem_abs a k' = (ucast arg, [])"
    using k1(3) rt_schedule_frame[of ?k k'] cpu_frameD(2,10)[of ?k k'] by (simp add: sem_abs_def)
  show "wf_kernel lo k'"
  proof (cases "cmd = RT_IPC_CMD_RESET")
    case True
    then show ?thesis using wf_kernel_schedule[of lo ?k k'] c k1(2) by simp
  qed (use r w in \<open>simp add: rt_sem_control_def\<close>)
qed

lemma wf_kernel_sem_setup:
  assumes w: "wf_kernel lo k" and t: "Obj a \<notin> set (timer_list k)"
    and r: "sem_setup a val flag k = Some k'"
  shows "wf_kernel lo k'" "sem_abs a k' = (ucast val, [])" "ipc_flag a k' = flag"
proof -
  have "k' = upd_flag a flag (upd_sem a (\<lambda>s. s\<lparr>sem_value := ucast val\<rparr>) k)" "lists k (Susp a) = []"
    using r by (auto simp: sem_setup_def rt_ipc_object_init_def)
  then show "wf_kernel lo k'" "sem_abs a k' = (ucast val, [])" "ipc_flag a k' = flag"
    using w t wf_kernel_upd_flag[of lo "upd_sem a (\<lambda>s. s\<lparr>sem_value := ucast val\<rparr>) k" a flag]
    by (simp_all add: sem_abs_def upd_flag_def upd_object_def ipc_flag_def)
qed

lemma rt_sem_init_ok:
  assumes w: "wf_kernel lo k" and t: "Obj a \<notin> set (timer_list k)"
    and r: "rt_sem_init a name val flag k = Some (e, k')"
  shows "wf_kernel lo k'" "sem_abs a k' = (ucast val, [])" "ipc_flag a k' = flag"
proof -
  obtain k1 where k1: "rt_object_init (Obj a) RT_Object_Class_Semaphore name k = Some k1"
    "sem_setup a val flag k1 = Some k'"
    using r unfolding rt_sem_init_def bind_eq_Some_conv by blast
  have "Obj a \<notin> set (timer_list k1)" using t rt_object_init_frame(4)[OF k1(1)] by simp
  then show "wf_kernel lo k'" "sem_abs a k' = (ucast val, [])" "ipc_flag a k' = flag"
    using wf_kernel_sem_setup[OF wf_kernel_object_init[OF w k1(1)] _ k1(2)] by simp_all
qed

lemma wf_kernel_sem_create:
  assumes w: "wf_kernel lo k" and r: "rt_sem_create name val flag k = Some (a, k')"
    and t: "Obj a \<notin> set (timer_list k)"
  shows "wf_kernel lo k'"
proof -
  obtain k1 where k1: "rt_object_allocate RT_Object_Class_Semaphore name k = Some (a, k1)"
    "a = 0 \<and> k' = k1 \<or> sem_setup a val flag k1 = Some k'"
    using r by (auto simp: rt_sem_create_def bind_eq_Some_conv split: if_splits)
  have "Obj a \<notin> set (timer_list k1)" using t rt_object_allocate_frame(3)[OF k1(1)] by simp
  then show ?thesis
    using k1(2) wf_kernel_allocate[OF w k1(1) t] wf_kernel_sem_setup(1)[of lo k1 a] by blast
qed

lemma wf_kernel_sem_delete: "wf_kernel lo k \<Longrightarrow> rt_sem_delete a k = Some (e, k') \<Longrightarrow> wf_kernel lo k'"
  using wf_kernel_ipc_delete[of lo k a k'] by (simp add: rt_sem_delete_def bind_eq_Some_conv)

lemma wf_kernel_sem_detach: "wf_kernel lo k \<Longrightarrow> rt_sem_detach a k = Some (e, k') \<Longrightarrow> wf_kernel lo k'"
  using wf_kernel_ipc_detach[of lo k a k'] by (simp add: rt_sem_detach_def bind_eq_Some_conv)

end
