(* ===== verification/Mutex.thy ===== *)
theory Mutex
  imports Semaphore
begin

text \<open>
  Mutexes with recursion and priority inheritance (\<^verbatim>\<open>src/ipc.c\<close>, lines 525 to 878). The owner is
  \<open>None\<close> for \<^verbatim>\<open>RT_NULL\<close>.
\<close>

section \<open>The operations\<close>

definition mutex_setup :: "nat \<Rightarrow> u8 \<Rightarrow> kernel \<Rightarrow> kernel option" where
  "mutex_setup a flag k = do {
     k \<leftarrow> rt_ipc_object_init a k;
     let k = upd_mutex a (\<lambda>_. \<lparr>mutex_value = 1, original_priority = 0xFF, hold = 0, owner = None\<rparr>) k;
     Some (upd_flag a flag k)
   }"

definition rt_mutex_init :: "nat \<Rightarrow> u8 list \<Rightarrow> u8 \<Rightarrow> kernel \<Rightarrow> (rt_err \<times> kernel) option" where
  "rt_mutex_init a name flag k = do {
     RT_ASSERT (a \<noteq> 0);
     k \<leftarrow> rt_object_init (Obj a) RT_Object_Class_Mutex name k;
     k \<leftarrow> mutex_setup a flag k;
     Some (RT_EOK, k)
   }"

definition rt_mutex_detach :: "nat \<Rightarrow> kernel \<Rightarrow> (rt_err \<times> kernel) option" where
  "rt_mutex_detach a k = do {
     k \<leftarrow> ipc_detach a k;
     Some (RT_EOK, k)
   }"

definition rt_mutex_create :: "u8 list \<Rightarrow> u8 \<Rightarrow> kernel \<Rightarrow> (nat \<times> kernel) option" where
  "rt_mutex_create name flag k = do {
     RT_DEBUG_NOT_IN_INTERRUPT k;
     (a, k) \<leftarrow> rt_object_allocate RT_Object_Class_Mutex name k;
     if a = 0 then Some (0, k)
     else do {
       k \<leftarrow> mutex_setup a flag k;
       Some (a, k)
     }
   }"

definition rt_mutex_delete :: "nat \<Rightarrow> kernel \<Rightarrow> (rt_err \<times> kernel) option" where
  "rt_mutex_delete a k = do {
     k \<leftarrow> ipc_delete a k;
     Some (RT_EOK, k)
   }"

text \<open>The owner inherits the priority of a more urgent caller.\<close>

definition mutex_inherit :: "nat \<Rightarrow> nat \<Rightarrow> kernel \<Rightarrow> kernel option" where
  "mutex_inherit t ow k =
     (if current_priority (thread k t) < current_priority (thread k ow) then do {
        (_, k) \<leftarrow> rt_thread_control ow 2 (current_priority (thread k t)) k;
        Some k
      } else Some k)"

text \<open>The code after the label \<^verbatim>\<open>__again\<close>, up to the switch.\<close>

definition mutex_again :: "nat \<Rightarrow> int \<Rightarrow> nat \<Rightarrow> kernel \<Rightarrow> ((rt_err, nat) outcome \<times> kernel) option" where
  "mutex_again a time t k =
     (if mutex_value (mutexes k a) > 0 then
        Some (Ret RT_EOK, upd_mutex a (\<lambda>m. m\<lparr>mutex_value := mutex_value m - 1, owner := Some t,
          original_priority := current_priority (thread k t), hold := hold m + 1\<rparr>) k)
      else if time = 0 then
        Some (Ret (- RT_ETIMEOUT), upd_thread t (\<lambda>th. th\<lparr>error := - RT_ETIMEOUT\<rparr>) k)
      else do {
        ow \<leftarrow> owner (mutexes k a);
        k \<leftarrow> mutex_inherit t ow k;
        k \<leftarrow> block_current (Susp a) (ipc_flag a k) time t k;
        Some (Wait t, k)
      })"

definition rt_mutex_take :: "nat \<Rightarrow> int \<Rightarrow> kernel \<Rightarrow> ((rt_err, nat) outcome \<times> kernel) option" where
  "rt_mutex_take a time k = do {
     RT_DEBUG_IN_THREAD_CONTEXT k;
     RT_ASSERT (a \<noteq> 0);
     t \<leftarrow> rt_thread_self k;
     let k = upd_thread t (\<lambda>th. th\<lparr>error := RT_EOK\<rparr>) k;
     if owner (mutexes k a) = Some t then
       Some (Ret RT_EOK, upd_mutex a (\<lambda>m. m\<lparr>hold := hold m + 1\<rparr>) k)
     else mutex_again a time t k
   }"

definition rt_mutex_take_cont ::
  "nat \<Rightarrow> int \<Rightarrow> nat \<Rightarrow> kernel \<Rightarrow> ((rt_err, nat) outcome \<times> kernel) option" where
  "rt_mutex_take_cont a time t k =
     (if error (thread k t) \<noteq> RT_EOK then
        if error (thread k t) = - RT_EINTR then mutex_again a time t k
        else Some (Ret (error (thread k t)), k)
      else Some (Ret RT_EOK, k))"

text \<open>The last release gives the owner its original priority back.\<close>

definition mutex_restore :: "nat \<Rightarrow> nat \<Rightarrow> kernel \<Rightarrow> kernel option" where
  "mutex_restore a t k =
     (if original_priority (mutexes k a) \<noteq> current_priority (thread k t) then do {
        (_, k) \<leftarrow> rt_thread_control t 2 (original_priority (mutexes k a)) k;
        Some k
      } else Some k)"

text \<open>The mutex goes to the first waiting thread, or becomes free.\<close>

definition mutex_pass :: "nat \<Rightarrow> kernel \<Rightarrow> (rt_err \<times> kernel) option" where
  "mutex_pass a k =
     (case lists k (Susp a) of
        u # _ \<Rightarrow> do {
          let k = upd_mutex a (\<lambda>m. m\<lparr>owner := Some u,
                    original_priority := current_priority (thread k u), hold := hold m + 1\<rparr>) k;
          k \<leftarrow> rt_ipc_list_resume (Susp a) k;
          k \<leftarrow> rt_schedule k;
          Some (RT_EOK, k)
        }
      | [] \<Rightarrow> Some (RT_EOK, upd_mutex a (\<lambda>m. m\<lparr>mutex_value := mutex_value m + 1, owner := None,
                        original_priority := 0xFF\<rparr>) k))"

definition rt_mutex_release :: "nat \<Rightarrow> kernel \<Rightarrow> (rt_err \<times> kernel) option" where
  "rt_mutex_release a k = do {
     RT_DEBUG_IN_THREAD_CONTEXT k;
     t \<leftarrow> rt_thread_self k;
     if owner (mutexes k a) \<noteq> Some t then
       Some (- RT_ERROR, upd_thread t (\<lambda>th. th\<lparr>error := - RT_ERROR\<rparr>) k)
     else do {
       let k = upd_mutex a (\<lambda>m. m\<lparr>hold := hold m - 1\<rparr>) k;
       if hold (mutexes k a) = 0 then do {
         k \<leftarrow> mutex_restore a t k;
         mutex_pass a k
       } else Some (RT_EOK, k)
     }
   }"

definition rt_mutex_control :: "nat \<Rightarrow> nat \<Rightarrow> u32 \<Rightarrow> kernel \<Rightarrow> rt_err" where
  "rt_mutex_control a cmd arg k = - RT_ERROR"

section \<open>The invariant\<close>

text \<open>A free mutex has the count 1, no owner, no holds and no waiting thread; a taken one has the
  count 0, an owner and at least one hold.\<close>

definition mutex_inv :: "nat \<Rightarrow> kernel \<Rightarrow> bool" where
  "mutex_inv a k \<longleftrightarrow>
     (let m = mutexes k a in
      mutex_value m = 1 \<and> owner m = None \<and> hold m = 0 \<and> lists k (Susp a) = [] \<or>
      mutex_value m = 0 \<and> owner m \<noteq> None \<and> hold m \<noteq> 0 \<and> unat (original_priority m) < 32)"

lemma wf_kernel_upd_mutex [simp]: "wf_kernel lo k \<Longrightarrow> wf_kernel lo (upd_mutex a f k)"
  by (rule wf_kernel_same[of lo k]) (simp_all add: upd_mutex_def)

lemma upd_mutex_sel [simp]:
  "mutexes (upd_mutex a f k) = (mutexes k)(a := f (mutexes k a))" "lists (upd_mutex a f k) = lists k"
  "thread (upd_mutex a f k) = thread k" "current (upd_mutex a f k) = current k"
  "lock_nest (upd_mutex a f k) = lock_nest k" "timer_list (upd_mutex a f k) = timer_list k"
  by (simp_all add: upd_mutex_def)

text \<open>What \<^verbatim>\<open>RT_THREAD_CTRL_CHANGE_PRIORITY\<close> does.\<close>

lemma change_priority_cases:
  assumes w: "wf_kernel lo k" and r: "change_priority t p k = Some k'"
  obtains (other) "k' = upd_thread t (\<lambda>th. th\<lparr>current_priority := p, number_mask := prio_mask (unat p)\<rparr>) k"
    | (ready) "tstat k t = RT_THREAD_READY"
        "k' = sched_inserted t (upd_thread t
           (\<lambda>th. th\<lparr>current_priority := p, number_mask := prio_mask (unat p)\<rparr>) (sched_removed t k))"
proof -
  let ?f = "\<lambda>th. th\<lparr>current_priority := p, number_mask := prio_mask (unat p)\<rparr>"
  let ?k1 = "upd_thread t ?f (sched_removed t k)"
  have "k' = upd_thread t ?f k \<or> tstat k t = RT_THREAD_READY \<and> k' = sched_inserted t ?k1"
  proof (cases "tstat k t = RT_THREAD_READY")
    case False
    then show ?thesis using r by (auto simp: change_priority_def set_priority_eq split: if_splits)
  next
    case True
    have p: "unat p < 32" and k': "rt_schedule_insert_thread t ?k1 = Some k'"
      using r True rt_schedule_remove_wf[OF w, of t]
      by (auto simp: change_priority_def set_priority_eq split: if_splits)
    have "tlist (thread ?k1 t) = None" "tprio ?k1 t < 32"
      using p by (simp_all add: sched_removed_def tprio_def)
    then show ?thesis using True k' rt_schedule_insert_thread_eq[of ?k1 t] by simp
  qed
  then show thesis using that by blast
qed

lemma change_priority_ok:
  assumes w: "wf_kernel lo k" and r: "change_priority t p k = Some k'"
  shows "wf_kernel lo k'" "ipc_frame k k'" "current k' = current k"
    "thread k' = (thread k)(t := (thread k' t))" "tstat k' t = tstat k t"
    "current_priority (thread k' t) = p" "error (thread k' t) = error (thread k t)"
    "wait_queue q \<Longrightarrow> lists k' q = lists k q" "objects k' = objects k"
proof -
  let ?f = "\<lambda>th. th\<lparr>current_priority := p, number_mask := prio_mask (unat p)\<rparr>"
  let ?k1 = "upd_thread t ?f (sched_removed t k)"
  show "wf_kernel lo k'" by (rule wf_kernel_change_priority[OF w r])
  consider "k' = upd_thread t ?f k"
    | "tstat k t = RT_THREAD_READY" "k' = sched_inserted t ?k1" by (rule change_priority_cases[OF w r])
  note c = this
  have fr: "ipc_frame k ?k1"
    by (rule ipc_frame_trans[OF ipc_frame_sched_removed ipc_frame_upd_thread])
  show "ipc_frame k k'"
    using c by cases (simp_all add: ipc_frame_trans[OF fr ipc_frame_sched_inserted])
  show "current k' = current k" using c by cases (simp_all add: sched_inserted_def sched_removed_def)
  show "thread k' = (thread k)(t := (thread k' t))"
    using c by cases (simp_all add: sched_inserted_def sched_removed_def)
  show "tstat k' t = tstat k t"
    using c by cases (simp_all add: sched_inserted_def sched_removed_def tstat_def)
  show "current_priority (thread k' t) = p"
    using c by cases (simp_all add: sched_inserted_def sched_removed_def)
  show "error (thread k' t) = error (thread k t)"
    using c by cases (simp_all add: sched_inserted_def sched_removed_def)
  show "objects k' = objects k" using c by cases (simp_all add: sched_inserted_def sched_removed_def)
  assume q: "wait_queue q"
  have n: "t \<notin> set (lists k q)" if "tstat k t = RT_THREAD_READY"
    using waiting_iff[OF w q, of t] that by (simp add: waiting_def)
  have "\<And>p. q \<noteq> Ready p" using q by (auto simp: wait_queue_def)
  then have l: "lists (sched_inserted t ?k1) q = removeAll t (lists k q)"
    by (simp add: sched_inserted_def sched_removed_def)
  show "lists k' q = lists k q" using c by cases (simp_all add: l n removeAll_id)
qed

lemma change_priority_returns:
  assumes w: "wf_kernel lo k" and p: "unat p < 32"
  shows "\<exists>k'. change_priority t p k = Some k'"
proof (cases "tstat k t = RT_THREAD_READY")
  case True
  let ?f = "\<lambda>th. th\<lparr>current_priority := p, number_mask := prio_mask (unat p)\<rparr>"
  let ?k1 = "upd_thread t ?f (sched_removed t k)"
  have "tlist (thread ?k1 t) = None" "tprio ?k1 t < 32"
    using p by (simp_all add: sched_removed_def tprio_def)
  then have "rt_schedule_insert_thread t ?k1 = Some (sched_inserted t ?k1)"
    by (rule rt_schedule_insert_thread_eq)
  then show ?thesis using True rt_schedule_remove_wf[OF w, of t] p
    by (simp add: change_priority_def set_priority_eq)
qed (use p in \<open>simp add: change_priority_def set_priority_eq\<close>)

lemma rt_thread_control_priority:
  "rt_thread_control t 2 p k = map_option (Pair RT_EOK) (change_priority t p k)"
  by (simp add: rt_thread_control_def map_option_case bind_eq_None_conv split: option.splits)

lemma mutex_inherit_ok:
  assumes w: "wf_kernel lo k" and r: "mutex_inherit t ow k = Some k'"
  shows "wf_kernel lo k'" "ipc_frame k k'" "current k' = current k"
    "tstat k' u = tstat k u" "u \<noteq> ow \<Longrightarrow> thread k' u = thread k u"
    "current_priority (thread k' ow) = min (current_priority (thread k t)) (current_priority (thread k ow))"
    "current_priority (thread k' t) = current_priority (thread k t)"
    "error (thread k' t) = error (thread k t)" "wait_queue q \<Longrightarrow> lists k' q = lists k q"
    "ipc_flag b k' = ipc_flag b k"
proof -
  let ?p = "current_priority (thread k t)"
  consider (up) "?p < current_priority (thread k ow)" "change_priority ow ?p k = Some k'"
    | (same) "\<not> ?p < current_priority (thread k ow)" "k' = k"
    using r by (auto simp: mutex_inherit_def rt_thread_control_priority bind_eq_Some_conv split: if_splits)
  then have "wf_kernel lo k' \<and> ipc_frame k k' \<and> current k' = current k \<and> tstat k' u = tstat k u \<and>
    (u \<noteq> ow \<longrightarrow> thread k' u = thread k u) \<and>
    current_priority (thread k' ow) = min ?p (current_priority (thread k ow)) \<and>
    current_priority (thread k' t) = ?p \<and> error (thread k' t) = error (thread k t) \<and>
    (wait_queue q \<longrightarrow> lists k' q = lists k q) \<and> ipc_flag b k' = ipc_flag b k"
  proof cases
    case up
    note c = change_priority_ok[OF w up(2)]
    have o: "thread k' v = thread k v" if "v \<noteq> ow" for v
      using fun_cong[OF c(4), of v] that by simp
    then have "tstat k' u = tstat k u" using c(5) by (cases "u = ow") (simp_all add: tstat_def)
    moreover have "t \<noteq> ow" using up(1) by auto
    ultimately show ?thesis using c(1-3,6,8,9) o up(1) by (auto simp: min_def ipc_flag_def)
  next
    case same
    then show ?thesis using w by (simp add: min_def)
  qed
  then show "wf_kernel lo k'" "ipc_frame k k'" "current k' = current k"
    "tstat k' u = tstat k u" "u \<noteq> ow \<Longrightarrow> thread k' u = thread k u"
    "current_priority (thread k' ow) = min ?p (current_priority (thread k ow))"
    "current_priority (thread k' t) = ?p"
    "error (thread k' t) = error (thread k t)" "wait_queue q \<Longrightarrow> lists k' q = lists k q"
    "ipc_flag b k' = ipc_flag b k" by auto
qed

section \<open>Taking\<close>

lemma mutex_again_cases:
  assumes "mutex_again a time t k = Some (res, k')"
  obtains (taken) "mutex_value (mutexes k a) > 0" "res = Ret RT_EOK"
      "k' = upd_mutex a (\<lambda>m. m\<lparr>mutex_value := mutex_value m - 1, owner := Some t,
          original_priority := current_priority (thread k t), hold := hold m + 1\<rparr>) k"
    | (busy) "mutex_value (mutexes k a) = 0" "time = 0" "res = Ret (- RT_ETIMEOUT)"
        "k' = upd_thread t (\<lambda>th. th\<lparr>error := - RT_ETIMEOUT\<rparr>) k"
    | (block) ow k1 where "mutex_value (mutexes k a) = 0" "time \<noteq> 0" "res = Wait t"
        "owner (mutexes k a) = Some ow" "mutex_inherit t ow k = Some k1"
        "block_current (Susp a) (ipc_flag a k1) time t k1 = Some k'"
proof (cases "mutex_value (mutexes k a) > 0")
  case True
  then show thesis using taken assms by (simp add: mutex_again_def)
next
  case False
  then have z: "mutex_value (mutexes k a) = 0" by (simp add: word_gt_0)
  show thesis
  proof (cases "time = 0")
    case True
    then show thesis using busy z assms by (simp add: mutex_again_def)
  next
    case False
    have e: "mutex_again a time t k = Option.bind (owner (mutexes k a)) (\<lambda>ow.
      Option.bind (mutex_inherit t ow k) (\<lambda>k1.
      Option.bind (block_current (Susp a) (ipc_flag a k1) time t k1) (\<lambda>k. Some (Wait t, k))))"
      using z False by (simp add: mutex_again_def)
    show thesis using assms block[OF z False] unfolding e bind_eq_Some_conv by blast
  qed
qed

lemma prio_lt: "wf_kernel lo k \<Longrightarrow> unat (current_priority (thread k t)) < 32"
  using tprio_lt[of k t] by (auto simp: tprio_def)

lemma mutex_again_ok:
  assumes w: "wf_kernel lo k" and lo: "lo \<le> 1" and cur: "run_ready k" "current k = Some t"
    and flag: "ipc_flag a k = RT_IPC_FLAG_FIFO \<or> ipc_flag a k = RT_IPC_FLAG_PRIO"
    and inv: "mutex_inv a k" and r: "mutex_again a time t k = Some (res, k')"
  shows "wf_kernel lo k'" "mutex_inv a k'" "b \<noteq> a \<Longrightarrow> mutexes k' b = mutexes k b"
    "lock_nest k = 0 \<Longrightarrow> run_ready k'"
    "res = Ret RT_EOK \<Longrightarrow> owner (mutexes k a) = None \<and> owner (mutexes k' a) = Some t \<and> hold (mutexes k' a) = 1"
    "res \<noteq> Ret RT_EOK \<Longrightarrow> mutexes k' a = mutexes k a \<and> owner (mutexes k a) \<noteq> None"
    "res = Wait u \<Longrightarrow> u = t \<and> waiting (Susp a) t k' \<and>
       (ipc_flag a k = RT_IPC_FLAG_FIFO \<longrightarrow> lists k' (Susp a) = lists k (Susp a) @ [t]) \<and>
       error (thread k' t) = error (thread k t) \<and>
       current_priority (thread k' (the (owner (mutexes k a)))) \<le> current_priority (thread k t)"
proof -
  let ?th = "wf_kernel lo k' \<and> mutex_inv a k' \<and> (b \<noteq> a \<longrightarrow> mutexes k' b = mutexes k b) \<and>
    (lock_nest k = 0 \<longrightarrow> run_ready k') \<and>
    (res = Ret RT_EOK \<longrightarrow> owner (mutexes k a) = None \<and> owner (mutexes k' a) = Some t \<and> hold (mutexes k' a) = 1) \<and>
    (res \<noteq> Ret RT_EOK \<longrightarrow> mutexes k' a = mutexes k a \<and> owner (mutexes k a) \<noteq> None) \<and>
    (res = Wait u \<longrightarrow> u = t \<and> waiting (Susp a) t k' \<and>
       (ipc_flag a k = RT_IPC_FLAG_FIFO \<longrightarrow> lists k' (Susp a) = lists k (Susp a) @ [t]) \<and>
       error (thread k' t) = error (thread k t) \<and>
       current_priority (thread k' (the (owner (mutexes k a)))) \<le> current_priority (thread k t))"
  have ?th
    using r
  proof (cases rule: mutex_again_cases)
    case taken
    then show ?thesis
      using w inv cur prio_lt[OF w, of t] by (auto simp: mutex_inv_def Let_def run_ready_def tstat_def)
  next
    case busy
    then show ?thesis using w inv cur wf_kernel_set_error[OF w]
      by (auto simp: mutex_inv_def Let_def run_ready_def tstat_def)
  next
    case (block ow k1)
    note i = mutex_inherit_ok[OF w block(5)]
    have rdy: "tstat k1 t = RT_THREAD_READY" using cur i(4) by (simp add: run_ready_def)
    note b = block_current_ok[OF i(1) lo rdy wait_queue_Susp(1) block(6)]
    have fl: "ipc_flag a k1 = ipc_flag a k" by (rule i(10))
    have q: "lists k1 (Susp a) = lists k (Susp a)" by (rule i(9)) simp
    have m: "mutexes k' = mutexes k" using ipc_frameD(2)[OF b(2)] ipc_frameD(2)[OF i(2)] by simp
    have ln: "lock_nest k1 = lock_nest k" using ipc_frameD(11)[OF i(2)] .
    have pow: "current_priority (thread k' ow) = current_priority (thread k1 ow)"
      using b(9) by (cases "ow = t") simp_all
    have er: "error (thread k' t) = error (thread k t)" using b(9) i(8) by simp
    have "mutex_inv a k'" using inv m block(4) by (auto simp: mutex_inv_def Let_def)
    then show ?thesis
      using b(1,4,5,8) fl flag q m ln pow er block(3,4) i(6) by auto
  qed
  then show "wf_kernel lo k'" "mutex_inv a k'" "b \<noteq> a \<Longrightarrow> mutexes k' b = mutexes k b"
    "lock_nest k = 0 \<Longrightarrow> run_ready k'"
    "res = Ret RT_EOK \<Longrightarrow> owner (mutexes k a) = None \<and> owner (mutexes k' a) = Some t \<and> hold (mutexes k' a) = 1"
    "res \<noteq> Ret RT_EOK \<Longrightarrow> mutexes k' a = mutexes k a \<and> owner (mutexes k a) \<noteq> None"
    "res = Wait u \<Longrightarrow> u = t \<and> waiting (Susp a) t k' \<and>
       (ipc_flag a k = RT_IPC_FLAG_FIFO \<longrightarrow> lists k' (Susp a) = lists k (Susp a) @ [t]) \<and>
       error (thread k' t) = error (thread k t) \<and>
       current_priority (thread k' (the (owner (mutexes k a)))) \<le> current_priority (thread k t)"
    by auto
qed

lemma mutex_inv_upd_thread [simp]:
  "mutex_inv a (upd_thread t f k) = mutex_inv a k"
  by (simp add: mutex_inv_def)

lemma run_ready_upd_thread:
  "run_ready k \<Longrightarrow> stat (f (thread k t)) = stat (thread k t) \<Longrightarrow> run_ready (upd_thread t f k)"
  by (simp add: run_ready_def tstat_def)

lemma rt_mutex_take_cases:
  assumes "rt_mutex_take a time k = Some (res, k')"
  obtains t where "current k = Some t" "interrupt_nest k = 0"
    "owner (mutexes k a) = Some t" "res = Ret RT_EOK"
    "k' = upd_mutex a (\<lambda>m. m\<lparr>hold := hold m + 1\<rparr>) (upd_thread t (\<lambda>th. th\<lparr>error := RT_EOK\<rparr>) k)"
  | t where "current k = Some t" "interrupt_nest k = 0" "owner (mutexes k a) \<noteq> Some t"
    "mutex_again a time t (upd_thread t (\<lambda>th. th\<lparr>error := RT_EOK\<rparr>) k) = Some (res, k')"
  using assms
  by (auto simp: rt_mutex_take_def RT_DEBUG_IN_THREAD_CONTEXT_def RT_DEBUG_NOT_IN_INTERRUPT_def
      rt_interrupt_get_nest_def rt_thread_self_def Let_def split: if_splits)

lemma rt_mutex_take_ok:
  assumes w: "wf_kernel lo k" and lo: "lo \<le> 1" and cur: "run_ready k" "current k = Some t"
    and flag: "ipc_flag a k = RT_IPC_FLAG_FIFO \<or> ipc_flag a k = RT_IPC_FLAG_PRIO"
    and inv: "mutex_inv a k" and hold: "hold (mutexes k a) \<noteq> 0xFF"
    and r: "rt_mutex_take a time k = Some (res, k')"
  shows "wf_kernel lo k'" "mutex_inv a k'" "b \<noteq> a \<Longrightarrow> mutexes k' b = mutexes k b"
    "lock_nest k = 0 \<Longrightarrow> run_ready k'"
    "res = Ret RT_EOK \<Longrightarrow> owner (mutexes k a) \<in> {None, Some t} \<and> owner (mutexes k' a) = Some t \<and>
       hold (mutexes k' a) = hold (mutexes k a) + 1"
    "res \<noteq> Ret RT_EOK \<Longrightarrow> mutexes k' a = mutexes k a \<and> owner (mutexes k a) \<notin> {None, Some t}"
    "res = Wait u \<Longrightarrow> u = t \<and> waiting (Susp a) t k' \<and>
       (ipc_flag a k = RT_IPC_FLAG_FIFO \<longrightarrow> lists k' (Susp a) = lists k (Susp a) @ [t]) \<and>
       error (thread k' t) = RT_EOK \<and>
       current_priority (thread k' (the (owner (mutexes k a)))) \<le> current_priority (thread k t)"
proof -
  let ?k = "upd_thread t (\<lambda>th. th\<lparr>error := RT_EOK\<rparr>) k"
  have wk: "wf_kernel lo ?k" by (rule wf_kernel_set_error[OF w])
  have rk: "run_ready ?k" by (rule run_ready_upd_thread[OF cur(1)]) simp
  have flk: "ipc_flag a ?k = ipc_flag a k" by (simp add: ipc_flag_def)
  consider (again) "owner (mutexes k a) \<noteq> Some t" "mutex_again a time t ?k = Some (res, k')"
    | (own) "owner (mutexes k a) = Some t" "res = Ret RT_EOK"
      "k' = upd_mutex a (\<lambda>m. m\<lparr>hold := hold m + 1\<rparr>) ?k"
    using r by (cases rule: rt_mutex_take_cases) (use cur(2) in auto)
  then have "wf_kernel lo k' \<and> mutex_inv a k' \<and> (b \<noteq> a \<longrightarrow> mutexes k' b = mutexes k b) \<and>
    (lock_nest k = 0 \<longrightarrow> run_ready k') \<and>
    (res = Ret RT_EOK \<longrightarrow> owner (mutexes k a) \<in> {None, Some t} \<and> owner (mutexes k' a) = Some t \<and>
       hold (mutexes k' a) = hold (mutexes k a) + 1) \<and>
    (res \<noteq> Ret RT_EOK \<longrightarrow> mutexes k' a = mutexes k a \<and> owner (mutexes k a) \<notin> {None, Some t}) \<and>
    (res = Wait u \<longrightarrow> u = t \<and> waiting (Susp a) t k' \<and>
       (ipc_flag a k = RT_IPC_FLAG_FIFO \<longrightarrow> lists k' (Susp a) = lists k (Susp a) @ [t]) \<and>
       error (thread k' t) = RT_EOK \<and>
       current_priority (thread k' (the (owner (mutexes k a)))) \<le> current_priority (thread k t))"
  proof cases
    case again
    have c: "current ?k = Some t" using cur by simp
    have fl: "ipc_flag a ?k = RT_IPC_FLAG_FIFO \<or> ipc_flag a ?k = RT_IPC_FLAG_PRIO"
      using flag flk by simp
    note m = mutex_again_ok[OF wk lo rk c fl _ again(2)]
    have i: "mutex_inv a ?k" using inv by simp
    show ?thesis
      using m[OF i] again(1) flk inv by (auto simp: mutex_inv_def Let_def)
  next
    case own
    have "(- 1 :: u8) = 0xFF" by simp
    then have "hold (mutexes k a) + 1 \<noteq> 0" using hold by (metis eq_neg_iff_add_eq_0)
    then have "mutex_inv a k'" using inv own by (auto simp: mutex_inv_def Let_def)
    moreover have "run_ready k'" using rk own(3) by (simp add: run_ready_def tstat_def)
    ultimately show ?thesis using own wk by simp
  qed
  then show "wf_kernel lo k'" "mutex_inv a k'" "b \<noteq> a \<Longrightarrow> mutexes k' b = mutexes k b"
    "lock_nest k = 0 \<Longrightarrow> run_ready k'"
    "res = Ret RT_EOK \<Longrightarrow> owner (mutexes k a) \<in> {None, Some t} \<and> owner (mutexes k' a) = Some t \<and>
       hold (mutexes k' a) = hold (mutexes k a) + 1"
    "res \<noteq> Ret RT_EOK \<Longrightarrow> mutexes k' a = mutexes k a \<and> owner (mutexes k a) \<notin> {None, Some t}"
    "res = Wait u \<Longrightarrow> u = t \<and> waiting (Susp a) t k' \<and>
       (ipc_flag a k = RT_IPC_FLAG_FIFO \<longrightarrow> lists k' (Susp a) = lists k (Susp a) @ [t]) \<and>
       error (thread k' t) = RT_EOK \<and>
       current_priority (thread k' (the (owner (mutexes k a)))) \<le> current_priority (thread k t)"
    by auto
qed

lemma rt_mutex_take_cont_done:
  assumes "error (thread k t) \<noteq> - RT_EINTR"
  shows "rt_mutex_take_cont a time t k = Some (Ret (error (thread k t)), k)"
  using assms by (simp add: rt_mutex_take_cont_def)

section \<open>Releasing\<close>

lemma mutex_restore_ok:
  assumes w: "wf_kernel lo k" and r: "mutex_restore a t k = Some k'"
  shows "wf_kernel lo k'" "ipc_frame k k'" "current k' = current k" "tstat k' u = tstat k u"
    "u \<noteq> t \<Longrightarrow> thread k' u = thread k u"
    "current_priority (thread k' t) = original_priority (mutexes k a)"
    "wait_queue q \<Longrightarrow> lists k' q = lists k q"
proof -
  let ?p = "original_priority (mutexes k a)"
  have "if ?p \<noteq> current_priority (thread k t) then change_priority t ?p k = Some k' else k' = k"
    using r by (auto simp: mutex_restore_def rt_thread_control_priority bind_eq_Some_conv split: if_splits)
  then consider (up) "change_priority t ?p k = Some k'"
    | (same) "?p = current_priority (thread k t)" "k' = k" by argo
  then have "wf_kernel lo k' \<and> ipc_frame k k' \<and> current k' = current k \<and> tstat k' u = tstat k u \<and>
    (u \<noteq> t \<longrightarrow> thread k' u = thread k u) \<and> current_priority (thread k' t) = ?p \<and>
    (wait_queue q \<longrightarrow> lists k' q = lists k q)"
  proof cases
    case up
    note c = change_priority_ok[OF w up]
    have o: "thread k' v = thread k v" if "v \<noteq> t" for v
      using fun_cong[OF c(4), of v] that by simp
    then have "tstat k' u = tstat k u" using c(5) by (cases "u = t") (simp_all add: tstat_def)
    then show ?thesis using c(1-3,6,8) o by auto
  next
    case same
    then show ?thesis using w by simp
  qed
  then show "wf_kernel lo k'" "ipc_frame k k'" "current k' = current k" "tstat k' u = tstat k u"
    "u \<noteq> t \<Longrightarrow> thread k' u = thread k u"
    "current_priority (thread k' t) = original_priority (mutexes k a)"
    "wait_queue q \<Longrightarrow> lists k' q = lists k q" by auto
qed

text \<open>The four ways out of \<^verbatim>\<open>rt_mutex_release\<close>.\<close>

lemma rt_mutex_release_cases:
  assumes "rt_mutex_release a k = Some (e, k')" "current k = Some t"
  obtains (foreign) "owner (mutexes k a) \<noteq> Some t" "e = - RT_ERROR"
      "k' = upd_thread t (\<lambda>th. th\<lparr>error := - RT_ERROR\<rparr>) k"
    | (held) "owner (mutexes k a) = Some t" "hold (mutexes k a) \<noteq> 1" "e = RT_EOK"
        "k' = upd_mutex a (\<lambda>m. m\<lparr>hold := hold m - 1\<rparr>) k"
    | (free) k1 where "owner (mutexes k a) = Some t" "hold (mutexes k a) = 1" "e = RT_EOK"
        "mutex_restore a t (upd_mutex a (\<lambda>m. m\<lparr>hold := hold m - 1\<rparr>) k) = Some k1"
        "lists k1 (Susp a) = []"
        "k' = upd_mutex a (\<lambda>m. m\<lparr>mutex_value := mutex_value m + 1, owner := None,
                           original_priority := 0xFF\<rparr>) k1"
    | (pass) k1 u us where "owner (mutexes k a) = Some t" "hold (mutexes k a) = 1" "e = RT_EOK"
        "mutex_restore a t (upd_mutex a (\<lambda>m. m\<lparr>hold := hold m - 1\<rparr>) k) = Some k1"
        "lists k1 (Susp a) = u # us"
        "resume_one_and_schedule (Susp a) (upd_mutex a (\<lambda>m. m\<lparr>owner := Some u,
           original_priority := current_priority (thread k1 u), hold := hold m + 1\<rparr>) k1) = Some k'"
proof -
  let ?k = "upd_mutex a (\<lambda>m. m\<lparr>hold := hold m - 1\<rparr>) k"
  have n: "RT_DEBUG_IN_THREAD_CONTEXT k = Some ()"
    using assms unfolding rt_mutex_release_def bind_eq_Some_conv by auto
  consider "owner (mutexes k a) \<noteq> Some t" | "owner (mutexes k a) = Some t" "hold (mutexes k a) \<noteq> 1"
    | "owner (mutexes k a) = Some t" "hold (mutexes k a) = 1" by blast
  then show thesis
  proof cases
    case 1
    then have "e = - RT_ERROR \<and> k' = upd_thread t (\<lambda>th. th\<lparr>error := - RT_ERROR\<rparr>) k"
      using assms by (auto simp: rt_mutex_release_def rt_thread_self_def n)
    then show thesis using foreign[OF 1] by blast
  next
    case 2
    then have "e = RT_EOK \<and> k' = ?k"
      using assms by (auto simp: rt_mutex_release_def rt_thread_self_def n)
    then show thesis using held[OF 2] by blast
  next
    case 3
    then have "Option.bind (mutex_restore a t ?k) (mutex_pass a) = Some (e, k')"
      using assms by (simp add: rt_mutex_release_def rt_thread_self_def n)
    then obtain k1 where k1: "mutex_restore a t ?k = Some k1" "mutex_pass a k1 = Some (e, k')"
      unfolding bind_eq_Some_conv by blast
    show thesis
    proof (cases "lists k1 (Susp a)")
      case Nil
      then have "e = RT_EOK \<and> k' = upd_mutex a (\<lambda>m. m\<lparr>mutex_value := mutex_value m + 1,
          owner := None, original_priority := 0xFF\<rparr>) k1"
        using k1(2) by (auto simp: mutex_pass_def)
      then show thesis using free[OF 3 _ k1(1) Nil] by blast
    next
      case (Cons u us)
      then have "resume_one_and_schedule (Susp a) (upd_mutex a (\<lambda>m. m\<lparr>owner := Some u,
           original_priority := current_priority (thread k1 u), hold := hold m + 1\<rparr>) k1) = Some k' \<and>
         e = RT_EOK"
        using k1(2) by (auto simp: mutex_pass_def resume_one_and_schedule_def bind_eq_Some_conv)
      then show thesis using pass[OF 3 _ k1(1) Cons] by blast
    qed
  qed
qed

lemma rt_mutex_release_ok:
  assumes w: "wf_kernel lo k" and cur: "run_ready k" "current k = Some t" and inv: "mutex_inv a k"
    and r: "rt_mutex_release a k = Some (e, k')"
  shows "wf_kernel lo k'" "mutex_inv a k'" "b \<noteq> a \<Longrightarrow> mutexes k' b = mutexes k b" "run_ready k'"
    "owner (mutexes k a) \<noteq> Some t \<Longrightarrow> e = - RT_ERROR \<and> mutexes k' = mutexes k \<and> lists k' = lists k"
    "owner (mutexes k a) = Some t \<Longrightarrow> e = RT_EOK"
    "owner (mutexes k a) = Some t \<Longrightarrow> hold (mutexes k a) = 1 \<Longrightarrow>
       (case lists k (Susp a) of
          [] \<Rightarrow> owner (mutexes k' a) = None \<and> mutex_value (mutexes k' a) = 1
        | u # us \<Rightarrow> owner (mutexes k' a) = Some u \<and> hold (mutexes k' a) = 1 \<and>
            lists k' (Susp a) = us)"
proof -
  let ?k = "upd_mutex a (\<lambda>m. m\<lparr>hold := hold m - 1\<rparr>) k"
  let ?pass = "owner (mutexes k a) = Some t \<longrightarrow> hold (mutexes k a) = 1 \<longrightarrow>
       (case lists k (Susp a) of
          [] \<Rightarrow> owner (mutexes k' a) = None \<and> mutex_value (mutexes k' a) = 1
        | u # us \<Rightarrow> owner (mutexes k' a) = Some u \<and> hold (mutexes k' a) = 1 \<and>
            lists k' (Susp a) = us)"
  have "wf_kernel lo k' \<and> mutex_inv a k' \<and> (b \<noteq> a \<longrightarrow> mutexes k' b = mutexes k b) \<and> run_ready k' \<and>
    (owner (mutexes k a) \<noteq> Some t \<longrightarrow> e = - RT_ERROR \<and> mutexes k' = mutexes k \<and> lists k' = lists k) \<and>
    (owner (mutexes k a) = Some t \<longrightarrow> e = RT_EOK) \<and> ?pass"
    using r cur(2)
  proof (cases rule: rt_mutex_release_cases)
    case foreign
    then show ?thesis
      using w inv cur wf_kernel_set_error[OF w] run_ready_upd_thread[OF cur(1)] by simp
  next
    case held
    then have "hold (mutexes k a) - 1 \<noteq> 0" by simp
    then show ?thesis using held w inv cur(1)
      by (auto simp: mutex_inv_def Let_def run_ready_def tstat_def)
  next
    case (free k1)
    note m = mutex_restore_ok[OF wf_kernel_upd_mutex[OF w] free(4)]
    have mu: "mutexes k1 = mutexes ?k" by (rule ipc_frameD(2)[OF m(2)])
    have q: "lists k (Susp a) = []" using m(7)[of "Susp a"] free(5) by simp
    have "mutex_value (mutexes k a) = 0" using inv free(1) by (auto simp: mutex_inv_def Let_def)
    moreover have "run_ready k'" using cur m(3,4) free(6) by (simp add: run_ready_def tstat_def)
    ultimately show ?thesis
      using m(1) mu free(1-3,5,6) q by (auto simp: mutex_inv_def Let_def)
  next
    case (pass k1 u us)
    note m = mutex_restore_ok[OF wf_kernel_upd_mutex[OF w] pass(4)]
    have mu: "mutexes k1 = mutexes ?k" by (rule ipc_frameD(2)[OF m(2)])
    have q: "lists k (Susp a) = u # us" using m(7)[of "Susp a"] pass(5) by simp
    have v: "mutex_value (mutexes k a) = 0" using inv pass(1) by (auto simp: mutex_inv_def Let_def)
    note o = resume_one_and_schedule_ok[OF wf_kernel_upd_mutex[OF m(1)] wait_queue_Susp(1) pass(6)]
    have "run_ready k1" using cur m(3,4) by (simp add: run_ready_def tstat_def)
    then have "run_ready k'" using o(5) by (simp add: run_ready_def tstat_def)
    then show ?thesis
      using o(1,3) ipc_frameD(2)[OF o(2)] mu pass(1-3,5) q v prio_lt[OF m(1), of u]
      by (auto simp: mutex_inv_def Let_def)
  qed
  then show "wf_kernel lo k'" "mutex_inv a k'" "b \<noteq> a \<Longrightarrow> mutexes k' b = mutexes k b" "run_ready k'"
    "owner (mutexes k a) \<noteq> Some t \<Longrightarrow> e = - RT_ERROR \<and> mutexes k' = mutexes k \<and> lists k' = lists k"
    "owner (mutexes k a) = Some t \<Longrightarrow> e = RT_EOK"
    "owner (mutexes k a) = Some t \<Longrightarrow> hold (mutexes k a) = 1 \<Longrightarrow>
       (case lists k (Susp a) of
          [] \<Rightarrow> owner (mutexes k' a) = None \<and> mutex_value (mutexes k' a) = 1
        | u # us \<Rightarrow> owner (mutexes k' a) = Some u \<and> hold (mutexes k' a) = 1 \<and>
            lists k' (Susp a) = us)" by simp_all
qed

section \<open>Creating and deleting\<close>

lemma resume_one_and_schedule_priority:
  assumes w: "wf_kernel lo k" and q: "wait_queue q" and r: "resume_one_and_schedule q k = Some k'"
  shows "current_priority (thread k' u) = current_priority (thread k u)"
proof (cases "lists k q")
  case Nil
  then show ?thesis using r by (simp add: resume_one_and_schedule_def)
next
  case (Cons t ts)
  have s: "rt_schedule (thread_resumed t k) = Some k'"
    using r Cons rt_ipc_list_resume_ok(1)[OF w q Cons] by (simp add: resume_one_and_schedule_def)
  have "cpu_frame (thread_resumed t k) k'" using rt_schedule_frame[OF s] by simp
  then show ?thesis using cpu_frameD(1) by (simp add: thread_resumed_thread)
qed

text \<open>The last release gives the owner back the priority it had when it took the mutex.\<close>

lemma rt_mutex_release_priority:
  assumes w: "wf_kernel lo k" and c: "current k = Some t" and o: "owner (mutexes k a) = Some t"
    and h: "hold (mutexes k a) = 1" and r: "rt_mutex_release a k = Some (e, k')"
  shows "current_priority (thread k' t) = original_priority (mutexes k a)"
  using r c
proof (cases rule: rt_mutex_release_cases)
  case (free k1)
  then show ?thesis using mutex_restore_ok(6)[OF wf_kernel_upd_mutex[OF w] free(4)] by simp
next
  case (pass k1 u us)
  note m = mutex_restore_ok[OF wf_kernel_upd_mutex[OF w] pass(4)]
  show ?thesis
    using resume_one_and_schedule_priority[OF wf_kernel_upd_mutex[OF m(1)] wait_queue_Susp(1) pass(6)] m(6)
    by simp
qed (use o h in simp_all)

lemma wf_kernel_mutex_setup:
  assumes w: "wf_kernel lo k" and t: "Obj a \<notin> set (timer_list k)"
    and r: "mutex_setup a flag k = Some k'"
  shows "wf_kernel lo k'" "mutex_inv a k'" "owner (mutexes k' a) = None"
proof -
  let ?k = "upd_mutex a (\<lambda>_. \<lparr>mutex_value = 1, original_priority = 0xFF, hold = 0, owner = None\<rparr>) k"
  have k': "k' = upd_flag a flag ?k" and l: "lists k (Susp a) = []"
    using r by (auto simp: mutex_setup_def rt_ipc_object_init_def)
  have m: "mutexes k' = mutexes ?k" unfolding k' by (rule ipc_frameD(2)) simp
  show "wf_kernel lo k'" unfolding k' by (rule wf_kernel_upd_flag) (use w t in simp_all)
  show "mutex_inv a k'" "owner (mutexes k' a) = None"
    using l m by (simp_all add: mutex_inv_def k')
qed

lemma rt_mutex_init_ok:
  assumes w: "wf_kernel lo k" and t: "Obj a \<notin> set (timer_list k)"
    and r: "rt_mutex_init a name flag k = Some (e, k')"
  shows "wf_kernel lo k'" "mutex_inv a k'" "owner (mutexes k' a) = None"
proof -
  obtain k1 where k1: "rt_object_init (Obj a) RT_Object_Class_Mutex name k = Some k1"
    "mutex_setup a flag k1 = Some k'"
    using r unfolding rt_mutex_init_def bind_eq_Some_conv by blast
  have "Obj a \<notin> set (timer_list k1)" using t rt_object_init_frame(4)[OF k1(1)] by simp
  then show "wf_kernel lo k'" "mutex_inv a k'" "owner (mutexes k' a) = None"
    using wf_kernel_mutex_setup[OF wf_kernel_object_init[OF w k1(1)] _ k1(2)] by simp_all
qed

lemma wf_kernel_mutex_create:
  assumes w: "wf_kernel lo k" and r: "rt_mutex_create name flag k = Some (a, k')"
    and t: "Obj a \<notin> set (timer_list k)"
  shows "wf_kernel lo k'"
proof -
  obtain k1 where k1: "rt_object_allocate RT_Object_Class_Mutex name k = Some (a, k1)"
    "a = 0 \<and> k' = k1 \<or> mutex_setup a flag k1 = Some k'"
    using r by (auto simp: rt_mutex_create_def bind_eq_Some_conv split: if_splits)
  have "Obj a \<notin> set (timer_list k1)" using t rt_object_allocate_frame(3)[OF k1(1)] by simp
  then show ?thesis
    using k1(2) wf_kernel_allocate[OF w k1(1) t] wf_kernel_mutex_setup(1)[of lo k1 a] by blast
qed

lemma wf_kernel_mutex_delete: "wf_kernel lo k \<Longrightarrow> rt_mutex_delete a k = Some (e, k') \<Longrightarrow> wf_kernel lo k'"
  using wf_kernel_ipc_delete[of lo k a k'] by (simp add: rt_mutex_delete_def bind_eq_Some_conv)

lemma wf_kernel_mutex_detach: "wf_kernel lo k \<Longrightarrow> rt_mutex_detach a k = Some (e, k') \<Longrightarrow> wf_kernel lo k'"
  using wf_kernel_ipc_detach[of lo k a k'] by (simp add: rt_mutex_detach_def bind_eq_Some_conv)

end
