(* ===== verification/Event.thy ===== *)
theory Event
  imports Mutex
begin

text \<open>
  Event sets (\<^verbatim>\<open>src/ipc.c\<close>, lines 893 to 1242): 32 flags, and threads that wait for all or for any
  of the flags they name. The received set is \<open>None\<close> when the call does not write it.
\<close>

section \<open>The operations\<close>

definition event_setup :: "nat \<Rightarrow> u8 \<Rightarrow> kernel \<Rightarrow> kernel option" where
  "event_setup a flag k = do {
     let k = upd_flag a flag k;
     k \<leftarrow> rt_ipc_object_init a k;
     Some (upd_event a (\<lambda>e. e\<lparr>ev_set := 0\<rparr>) k)
   }"

definition rt_event_init :: "nat \<Rightarrow> u8 list \<Rightarrow> u8 \<Rightarrow> kernel \<Rightarrow> (rt_err \<times> kernel) option" where
  "rt_event_init a name flag k = do {
     RT_ASSERT (a \<noteq> 0);
     k \<leftarrow> rt_object_init (Obj a) RT_Object_Class_Event name k;
     k \<leftarrow> event_setup a flag k;
     Some (RT_EOK, k)
   }"

definition rt_event_detach :: "nat \<Rightarrow> kernel \<Rightarrow> (rt_err \<times> kernel) option" where
  "rt_event_detach a k = do {
     k \<leftarrow> ipc_detach a k;
     Some (RT_EOK, k)
   }"

definition rt_event_create :: "u8 list \<Rightarrow> u8 \<Rightarrow> kernel \<Rightarrow> (nat \<times> kernel) option" where
  "rt_event_create name flag k = do {
     RT_DEBUG_NOT_IN_INTERRUPT k;
     (a, k) \<leftarrow> rt_object_allocate RT_Object_Class_Event name k;
     if a = 0 then Some (0, k)
     else do {
       k \<leftarrow> event_setup a flag k;
       Some (a, k)
     }
   }"

definition rt_event_delete :: "nat \<Rightarrow> kernel \<Rightarrow> (rt_err \<times> kernel) option" where
  "rt_event_delete a k = do {
     k \<leftarrow> ipc_delete a k;
     Some (RT_EOK, k)
   }"

text \<open>The condition of a wait, as both \<^verbatim>\<open>rt_event_send\<close> and \<^verbatim>\<open>rt_event_recv\<close> test it: all flags with
  \<^verbatim>\<open>RT_EVENT_FLAG_AND\<close>, any flag with \<^verbatim>\<open>RT_EVENT_FLAG_OR\<close>.\<close>

definition satisfied :: "u8 \<Rightarrow> u32 \<Rightarrow> u32 \<Rightarrow> bool" where
  "satisfied info want cur =
     (if info AND RT_EVENT_FLAG_AND \<noteq> 0 then want AND cur = want
      else info AND RT_EVENT_FLAG_OR \<noteq> 0 \<and> want AND cur \<noteq> 0)"

definition event_ready :: "nat \<Rightarrow> nat \<Rightarrow> kernel \<Rightarrow> bool" where
  "event_ready a t k =
     satisfied (event_info (thread k t)) (event_set (thread k t)) (ev_set (events k a))"

text \<open>What happens to a waiting thread whose condition holds: the received flags of an OR wait are
  recorded, the flags are cleared when the wait asks for it, and the thread is resumed.\<close>

definition event_deliver :: "nat \<Rightarrow> nat \<Rightarrow> kernel \<Rightarrow> kernel option" where
  "event_deliver a t k = do {
     let k = (if event_info (thread k t) AND RT_EVENT_FLAG_AND \<noteq> 0 then k
              else upd_thread t (\<lambda>th. th\<lparr>event_set := event_set th AND ev_set (events k a)\<rparr>) k);
     let k = (if event_info (thread k t) AND RT_EVENT_FLAG_CLEAR \<noteq> 0
              then upd_event a (\<lambda>e. e\<lparr>ev_set := ev_set e AND NOT (event_set (thread k t))\<rparr>) k else k);
     (_, k) \<leftarrow> rt_thread_resume t k;
     Some k
   }"

text \<open>The walk over the queue. The next node is read before a thread is resumed and resuming
  changes no other node of the queue, so that the walk visits the threads that waited at its
  start.\<close>

fun event_wake :: "nat \<Rightarrow> nat list \<Rightarrow> bool \<Rightarrow> kernel \<Rightarrow> (bool \<times> kernel) option" where
  "event_wake a [] need k = Some (need, k)"
| "event_wake a (t # ts) need k =
     (if event_ready a t k then do {
        k \<leftarrow> event_deliver a t k;
        event_wake a ts True k
      } else event_wake a ts need k)"

definition rt_event_send :: "nat \<Rightarrow> u32 \<Rightarrow> kernel \<Rightarrow> (rt_err \<times> kernel) option" where
  "rt_event_send a evs k = do {
     RT_ASSERT (a \<noteq> 0);
     if evs = 0 then Some (- RT_ERROR, k)
     else do {
       let k = upd_event a (\<lambda>e. e\<lparr>ev_set := ev_set e OR evs\<rparr>) k;
       (need, k) \<leftarrow> event_wake a (lists k (Susp a)) False k;
       k \<leftarrow> (if need then rt_schedule k else Some k);
       Some (RT_EOK, k)
     }
   }"

definition rt_event_recv ::
  "nat \<Rightarrow> u32 \<Rightarrow> u8 \<Rightarrow> int \<Rightarrow> kernel \<Rightarrow> ((rt_err \<times> u32 option, nat) outcome \<times> kernel) option" where
  "rt_event_recv a evs opt timeout k = do {
     RT_DEBUG_IN_THREAD_CONTEXT k;
     RT_ASSERT (a \<noteq> 0);
     if evs = 0 then Some (Ret (- RT_ERROR, None), k)
     else do {
       t \<leftarrow> rt_thread_self k;
       let k = upd_thread t (\<lambda>th. th\<lparr>error := RT_EOK\<rparr>) k;
       RT_ASSERT (opt AND RT_EVENT_FLAG_AND \<noteq> 0 \<or> opt AND RT_EVENT_FLAG_OR \<noteq> 0);
       if satisfied opt evs (ev_set (events k a)) then
         Some (Ret (RT_EOK, Some (ev_set (events k a) AND evs)),
               if opt AND RT_EVENT_FLAG_CLEAR \<noteq> 0
               then upd_event a (\<lambda>e. e\<lparr>ev_set := ev_set e AND NOT evs\<rparr>) k else k)
       else if timeout = 0 then
         Some (Ret (- RT_ETIMEOUT, None), upd_thread t (\<lambda>th. th\<lparr>error := - RT_ETIMEOUT\<rparr>) k)
       else do {
         let k = upd_thread t (\<lambda>th. th\<lparr>event_set := evs, event_info := opt\<rparr>) k;
         k \<leftarrow> block_current (Susp a) (ipc_flag a k) timeout t k;
         Some (Wait t, k)
       }
     }
   }"

definition rt_event_recv_cont :: "nat \<Rightarrow> kernel \<Rightarrow> rt_err \<times> u32 option" where
  "rt_event_recv_cont t k =
     (if error (thread k t) \<noteq> RT_EOK then (error (thread k t), None)
      else (error (thread k t), Some (event_set (thread k t))))"

definition rt_event_control :: "nat \<Rightarrow> nat \<Rightarrow> kernel \<Rightarrow> (rt_err \<times> kernel) option" where
  "rt_event_control a cmd k = do {
     RT_ASSERT (a \<noteq> 0);
     if cmd = RT_IPC_CMD_RESET then do {
       k \<leftarrow> rt_ipc_list_resume_all (Susp a) k;
       let k = upd_event a (\<lambda>e. e\<lparr>ev_set := 0\<rparr>) k;
       k \<leftarrow> rt_schedule k;
       Some (RT_EOK, k)
     } else Some (- RT_ERROR, k)
   }"

section \<open>What sending means\<close>

text \<open>The abstract event set: the condition of a wait on the bits of the words, what a satisfied wait
  receives and leaves, and the walk over the waiting threads in the order of the queue. It yields
  the woken threads with what they receive, the threads that go on waiting, and the flags left.\<close>

definition event_cond :: "u8 \<Rightarrow> u32 \<Rightarrow> u32 \<Rightarrow> bool" where
  "event_cond info want flags \<longleftrightarrow>
     (if bit info 0 then \<forall>i<32. bit want i \<longrightarrow> bit flags i
      else bit info 1 \<and> (\<exists>i<32. bit want i \<and> bit flags i))"

definition spec_got :: "u8 \<Rightarrow> u32 \<Rightarrow> u32 \<Rightarrow> u32" where
  "spec_got info want flags = (if bit info 0 then want else want AND flags)"

definition spec_left :: "u8 \<Rightarrow> u32 \<Rightarrow> u32 \<Rightarrow> u32" where
  "spec_left info got flags = (if bit info 2 then flags AND NOT got else flags)"

fun spec_send :: "(nat \<times> u8 \<times> u32) list \<Rightarrow> u32 \<Rightarrow> (nat \<times> u32) list \<times> nat list \<times> u32" where
  "spec_send [] flags = ([], [], flags)"
| "spec_send ((t, info, want) # ws) flags =
     (if event_cond info want flags then
        let got = spec_got info want flags; (woken, queue, flags) = spec_send ws (spec_left info got flags)
        in ((t, got) # woken, queue, flags)
      else let (woken, queue, flags) = spec_send ws flags in (woken, t # queue, flags))"

definition event_waits :: "kernel \<Rightarrow> nat list \<Rightarrow> (nat \<times> u8 \<times> u32) list" where
  "event_waits k ts = map (\<lambda>t. (t, event_info (thread k t), event_set (thread k t))) ts"

lemma event_flag_bits:
  "info AND RT_EVENT_FLAG_AND = 0 \<longleftrightarrow> \<not> bit info 0" "info AND RT_EVENT_FLAG_OR = 0 \<longleftrightarrow> \<not> bit info 1"
  "info AND RT_EVENT_FLAG_CLEAR = 0 \<longleftrightarrow> \<not> bit info 2"
  using and_exp_eq_0_iff_not_bit[of info 0] and_exp_eq_0_iff_not_bit[of info 1] and_exp_eq_0_iff_not_bit[of info 2]
  by simp_all

lemma satisfied_cond: "satisfied info want flags = event_cond info want flags"
proof -
  have b: "x = y \<longleftrightarrow> (\<forall>i<32. bit x i = bit y i)" for x y :: u32 by (auto intro: bit_word_eqI)
  have "want AND flags = want \<longleftrightarrow> (\<forall>i<32. bit want i \<longrightarrow> bit flags i)"
    "want AND flags \<noteq> 0 \<longleftrightarrow> (\<exists>i<32. bit want i \<and> bit flags i)"
    unfolding b by (auto simp: bit_and_iff)
  then show ?thesis by (simp add: satisfied_def event_cond_def event_flag_bits)
qed

section \<open>No lost wake-up\<close>

text \<open>No thread waits on the event while its condition holds.\<close>

definition event_inv :: "nat \<Rightarrow> kernel \<Rightarrow> bool" where
  "event_inv a k \<longleftrightarrow> (\<forall>t\<in>set (lists k (Susp a)). \<not> event_ready a t k)"

lemma wf_kernel_upd_event [simp]: "wf_kernel lo k \<Longrightarrow> wf_kernel lo (upd_event a f k)"
  by (rule wf_kernel_same[of lo k]) (simp_all add: upd_event_def)

lemma upd_event_sel [simp]:
  "events (upd_event a f k) = (events k)(a := f (events k a))" "lists (upd_event a f k) = lists k"
  "thread (upd_event a f k) = thread k" "current (upd_event a f k) = current k"
  "lock_nest (upd_event a f k) = lock_nest k" "timer_list (upd_event a f k) = timer_list k"
  by (simp_all add: upd_event_def)

text \<open>A condition that does not hold does not come to hold when flags are cleared.\<close>

lemma satisfied_mono:
  assumes "\<not> satisfied info want cur" "cur' AND cur = cur'"
  shows "\<not> satisfied info want cur'"
proof
  assume s: "satisfied info want cur'"
  have sub: "bit cur' i \<Longrightarrow> bit cur i" for i using assms(2) by (metis bit_and_iff)
  have "want AND cur = want" if "want AND cur' = want"
    using that sub by (auto simp: bit_eq_iff bit_and_iff)
  moreover have "want AND cur \<noteq> 0" if "want AND cur' \<noteq> 0"
    using that sub by (auto simp: bit_eq_iff bit_and_iff)
  ultimately show False using s assms(1) by (auto simp: satisfied_def split: if_splits)
qed

lemma event_deliver_ok:
  assumes w: "wf_kernel lo k" and l: "t \<in> set (lists k (Susp a))"
  shows "\<exists>k'. event_deliver a t k = Some k' \<and> wf_kernel lo k' \<and> current k' = current k \<and>
    lock_nest k' = lock_nest k \<and> (run_ready k \<longrightarrow> run_ready k') \<and>
    lists k' (Susp a) = removeAll t (lists k (Susp a)) \<and>
    (\<forall>u. u \<noteq> t \<longrightarrow> thread k' u = thread k u) \<and> tstat k' t = RT_THREAD_READY \<and>
    error (thread k' t) = error (thread k t) \<and>
    ev_set (events k' a) AND ev_set (events k a) = ev_set (events k' a) \<and>
    event_set (thread k' t) = spec_got (event_info (thread k t)) (event_set (thread k t)) (ev_set (events k a)) \<and>
    ev_set (events k' a) = spec_left (event_info (thread k t)) (event_set (thread k' t)) (ev_set (events k a))"
proof -
  define k1 where "k1 = (if event_info (thread k t) AND RT_EVENT_FLAG_AND \<noteq> 0 then k
    else upd_thread t (\<lambda>th. th\<lparr>event_set := event_set th AND ev_set (events k a)\<rparr>) k)"
  define k2 where "k2 = (if event_info (thread k1 t) AND RT_EVENT_FLAG_CLEAR \<noteq> 0
    then upd_event a (\<lambda>e. e\<lparr>ev_set := ev_set e AND NOT (event_set (thread k1 t))\<rparr>) k1 else k1)"
  have w1: "wf_kernel lo k1"
    using w wf_kernel_thread_fields[OF w, of _ t] by (simp add: k1_def)
  then have w2: "wf_kernel lo k2" by (simp add: k2_def)
  have th: "lists k2 = lists k" "current k2 = current k" "lock_nest k2 = lock_nest k"
    "u \<noteq> t \<Longrightarrow> thread k2 u = thread k u" "stat (thread k2 u) = stat (thread k u)"
    "error (thread k2 u) = error (thread k u)" for u
    by (simp_all add: k1_def k2_def)
  have ev: "events k1 = events k" "event_info (thread k1 t) = event_info (thread k t)"
    by (simp_all add: k1_def)
  have s2: "tstat k2 t = RT_THREAD_SUSPEND"
    using waiting_iff[OF w wait_queue_Susp(1), of a t] l th(5) by (simp add: waiting_def tstat_def)
  let ?k = "thread_resumed t k2"
  have d: "event_deliver a t k = Some ?k"
    using rt_thread_resume_eq[OF wf_kernelD(1)[OF w2], of t] s2
    unfolding event_deliver_def k1_def[symmetric] Let_def k2_def[symmetric] by simp
  have fr: "ipc_frame k2 ?k" by (rule ipc_frame_resumed)
  have "run_ready k2" if "run_ready k"
    using that th(2,5) by (simp add: run_ready_def tstat_def)
  then have "run_ready k \<longrightarrow> run_ready ?k" using run_ready_resumed by blast
  moreover have "wf_queues k2" using w2 by auto
  then have "lists ?k (Susp a) = removeAll t (lists k (Susp a))"
    using th(1) by (simp add: thread_resumed_lists)
  moreover have "ev_set (events k2 a) AND ev_set (events k a) = ev_set (events k2 a)"
    using ev by (auto simp: k2_def bit_eq_iff bit_and_iff)
  moreover have "event_set (thread k2 t) = spec_got (event_info (thread k t)) (event_set (thread k t)) (ev_set (events k a))"
    "ev_set (events k2 a) = spec_left (event_info (thread k t)) (event_set (thread k2 t)) (ev_set (events k a))"
    using ev by (simp_all add: k2_def spec_left_def event_flag_bits) (simp_all add: k1_def spec_got_def event_flag_bits)
  ultimately show ?thesis
    using d wf_kernel_resumed[OF w2 s2] th ipc_frameD(3,11)[OF fr] tstat_resumed[of t k2]
    by (simp add: thread_resumed_thread)
qed

text \<open>The walk: the threads that stay in the queue keep their order and their records and their
  conditions do not hold for the final set; the others are ready.\<close>

lemma event_wake_ok:
  assumes "wf_kernel lo k" "lists k (Susp a) = us @ ts" "\<And>u. u \<in> set us \<Longrightarrow> \<not> event_ready a u k"
  shows "\<exists>need' k' vs. event_wake a ts need k = Some (need', k') \<and> wf_kernel lo k' \<and>
    current k' = current k \<and> lock_nest k' = lock_nest k \<and> (run_ready k \<longrightarrow> run_ready k') \<and>
    lists k' (Susp a) = us @ vs \<and> set vs \<subseteq> set ts \<and>
    (\<forall>u\<in>set (us @ vs). \<not> event_ready a u k' \<and> thread k' u = thread k u) \<and>
    (\<forall>u\<in>set ts - set vs. tstat k' u = RT_THREAD_READY \<and> error (thread k' u) = error (thread k u)) \<and>
    (need' \<longleftrightarrow> need \<or> set ts \<noteq> set vs) \<and>
    (\<forall>u. u \<notin> set ts \<longrightarrow> thread k' u = thread k u) \<and>
    ev_set (events k' a) AND ev_set (events k a) = ev_set (events k' a)"
  using assms
proof (induction ts arbitrary: k us need)
  case Nil
  then show ?case by (intro exI[of _ need] exI[of _ k] exI[of _ "[]"]) auto
next
  case (Cons t ts)
  have "wf_queues k" using Cons.prems(1) by auto
  then have dist: "distinct (us @ t # ts)" using wf_queuesD(1)[of k "Susp a"] Cons.prems(2) by simp
  show ?case
  proof (cases "event_ready a t k")
    case False
    have "lists k (Susp a) = (us @ [t]) @ ts" using Cons.prems(2) by simp
    moreover have "\<not> event_ready a u k" if "u \<in> set (us @ [t])" for u
      using that Cons.prems(3) False by auto
    ultimately obtain need' k' vs where
      k': "event_wake a ts need k = Some (need', k')" "wf_kernel lo k'" "current k' = current k"
        "lock_nest k' = lock_nest k" "run_ready k \<longrightarrow> run_ready k'"
        "lists k' (Susp a) = (us @ [t]) @ vs" "set vs \<subseteq> set ts"
        "\<forall>u\<in>set ((us @ [t]) @ vs). \<not> event_ready a u k' \<and> thread k' u = thread k u"
        "\<forall>u\<in>set ts - set vs. tstat k' u = RT_THREAD_READY \<and> error (thread k' u) = error (thread k u)"
        "need' \<longleftrightarrow> need \<or> set ts \<noteq> set vs" "\<forall>u. u \<notin> set ts \<longrightarrow> thread k' u = thread k u"
        "ev_set (events k' a) AND ev_set (events k a) = ev_set (events k' a)"
      using Cons.IH[of k "us @ [t]" need] Cons.prems(1) by blast
    have "set (t # ts) \<noteq> set (t # vs) \<longleftrightarrow> set ts \<noteq> set vs" using dist k'(7) by auto
    then show ?thesis
      using k' False by (intro exI[of _ need'] exI[of _ k'] exI[of _ "t # vs"]) auto
  next
    case True
    have "t \<in> set (lists k (Susp a))" using Cons.prems(2) by simp
    from event_deliver_ok[OF Cons.prems(1) this] obtain k1 where
      k1: "event_deliver a t k = Some k1" "wf_kernel lo k1" "current k1 = current k"
        "lock_nest k1 = lock_nest k" "run_ready k \<longrightarrow> run_ready k1"
        "lists k1 (Susp a) = removeAll t (lists k (Susp a))"
        "\<forall>u. u \<noteq> t \<longrightarrow> thread k1 u = thread k u" "tstat k1 t = RT_THREAD_READY"
        "error (thread k1 t) = error (thread k t)"
        "ev_set (events k1 a) AND ev_set (events k a) = ev_set (events k1 a)"
      by blast
    have l1: "lists k1 (Susp a) = us @ ts"
      using k1(6) Cons.prems(2) dist by (simp add: removeAll_distinct_append)
    have us: "\<not> event_ready a u k1" if "u \<in> set us" for u
    proof -
      have "thread k1 u = thread k u" using k1(7) that dist by auto
      then show ?thesis using satisfied_mono[OF _ k1(10)] Cons.prems(3)[OF that]
        by (simp add: event_ready_def)
    qed
    obtain need' k' vs where
      k': "event_wake a ts True k1 = Some (need', k')" "wf_kernel lo k'" "current k' = current k1"
        "lock_nest k' = lock_nest k1" "run_ready k1 \<longrightarrow> run_ready k'"
        "lists k' (Susp a) = us @ vs" "set vs \<subseteq> set ts"
        "\<forall>u\<in>set (us @ vs). \<not> event_ready a u k' \<and> thread k' u = thread k1 u"
        "\<forall>u\<in>set ts - set vs. tstat k' u = RT_THREAD_READY \<and> error (thread k' u) = error (thread k1 u)"
        "need' \<longleftrightarrow> True \<or> set ts \<noteq> set vs" "\<forall>u. u \<notin> set ts \<longrightarrow> thread k' u = thread k1 u"
        "ev_set (events k' a) AND ev_set (events k1 a) = ev_set (events k' a)"
      using Cons.IH[of k1 us True] k1(2) l1 us by blast
    have tn: "t \<notin> set ts" "t \<notin> set us" "t \<notin> set vs" using dist k'(7) by auto
    have "ev_set (events k' a) AND ev_set (events k a) = ev_set (events k' a)"
      using k'(12) k1(10) by (metis and.assoc)
    moreover have "thread k' t = thread k1 t" using k'(11) tn by blast
    then have "tstat k' t = RT_THREAD_READY" "error (thread k' t) = error (thread k t)"
      using k1(8,9) by (simp_all add: tstat_def)
    moreover have "thread k1 u = thread k u" if "u \<in> set us \<union> set ts" for u
      using k1(7) that tn by (cases "u = t") auto
    ultimately show ?thesis
      using True k1(1,3,4,5,7) k'(1-11) tn
      by (intro exI[of _ need'] exI[of _ k'] exI[of _ vs]) auto
  qed
qed

text \<open>The walk does what the abstract one says.\<close>

lemma event_wake_spec:
  assumes "wf_kernel lo k" "lists k (Susp a) = us @ ts" "event_wake a ts need k = Some (need', k')"
    "spec_send (event_waits k ts) (ev_set (events k a)) = (woken, queue, flags)"
  shows "lists k' (Susp a) = us @ queue \<and> ev_set (events k' a) = flags \<and>
    (\<forall>(u, got)\<in>set woken. tstat k' u = RT_THREAD_READY \<and> event_set (thread k' u) = got) \<and>
    (\<forall>u. u \<notin> set ts \<longrightarrow> thread k' u = thread k u)"
  using assms
proof (induction ts arbitrary: k us need woken queue flags)
  case Nil
  then show ?case by (simp add: event_waits_def)
next
  case (Cons t ts)
  have "wf_queues k" using Cons.prems(1) by auto
  then have dist: "distinct (us @ t # ts)" using wf_queuesD(1)[of k "Susp a"] Cons.prems(2) by simp
  let ?i = "event_info (thread k t)" and ?w = "event_set (thread k t)" and ?f = "ev_set (events k a)"
  show ?case
  proof (cases "event_cond ?i ?w ?f")
    case False
    obtain q where q: "spec_send (event_waits k ts) ?f = (woken, q, flags)" "queue = t # q"
      using Cons.prems(4) False by (auto simp: event_waits_def split: prod.splits)
    have "event_wake a ts need k = Some (need', k')"
      using Cons.prems(3) False by (simp add: event_ready_def satisfied_cond)
    then show ?thesis using Cons.IH[of k "us @ [t]", OF Cons.prems(1) _ _ q(1)] Cons.prems(2) q(2) by simp
  next
    case True
    have "t \<in> set (lists k (Susp a))" using Cons.prems(2) by simp
    from event_deliver_ok[OF Cons.prems(1) this] obtain k1 where
      k1: "event_deliver a t k = Some k1" "wf_kernel lo k1" "lists k1 (Susp a) = removeAll t (lists k (Susp a))"
        "\<forall>u. u \<noteq> t \<longrightarrow> thread k1 u = thread k u" "tstat k1 t = RT_THREAD_READY"
        "event_set (thread k1 t) = spec_got ?i ?w ?f" "ev_set (events k1 a) = spec_left ?i (event_set (thread k1 t)) ?f"
      by blast
    have w: "event_waits k1 ts = event_waits k ts"
      using k1(4) dist by (auto simp: event_waits_def intro!: map_cong)
    obtain w' where w': "spec_send (event_waits k1 ts) (ev_set (events k1 a)) = (w', queue, flags)"
      "woken = (t, spec_got ?i ?w ?f) # w'"
      using Cons.prems(4) True unfolding k1(6,7) w by (auto simp: event_waits_def Let_def split: prod.splits)
    have e: "event_wake a ts True k1 = Some (need', k')"
      using Cons.prems(3) True k1(1) by (simp add: event_ready_def satisfied_cond)
    have "lists k1 (Susp a) = us @ ts" using k1(3) Cons.prems(2) dist by (simp add: removeAll_distinct_append)
    note IH = Cons.IH[OF k1(2) this e w'(1)]
    then have "thread k' t = thread k1 t" using dist by simp
    then show ?thesis using IH k1(4-6) w'(2) by (auto simp: tstat_def)
  qed
qed

lemma rt_event_send_spec:
  assumes w: "wf_kernel lo k" and r: "rt_event_send a evs k = Some (e, k')" and z: "evs \<noteq> 0"
    and sp: "spec_send (event_waits k (lists k (Susp a))) (ev_set (events k a) OR evs) = (woken, queue, flags)"
  shows "lists k' (Susp a) = queue" "ev_set (events k' a) = flags"
    "(u, got) \<in> set woken \<Longrightarrow> tstat k' u = RT_THREAD_READY \<and> event_set (thread k' u) = got"
proof -
  let ?k = "upd_event a (\<lambda>e. e\<lparr>ev_set := ev_set e OR evs\<rparr>) k"
  obtain need k1 where k1: "event_wake a (lists k (Susp a)) False ?k = Some (need, k1)"
    and s: "(if need then rt_schedule k1 else Some k1) = Some k'"
    using r z by (auto simp: rt_event_send_def bind_eq_Some_conv)
  have "event_waits ?k ts = event_waits k ts" for ts by (simp add: event_waits_def)
  then have "lists k1 (Susp a) = queue \<and> ev_set (events k1 a) = flags \<and>
    (\<forall>(u, got)\<in>set woken. tstat k1 u = RT_THREAD_READY \<and> event_set (thread k1 u) = got)"
    using event_wake_spec[of lo ?k a "[]", OF _ _ k1] w sp by simp
  moreover have "cpu_frame k1 k'" using s rt_schedule_frame[of k1 k'] by (auto split: if_splits)
  note d = cpu_frameD[OF this]
  ultimately show "lists k' (Susp a) = queue" "ev_set (events k' a) = flags"
    "(u, got) \<in> set woken \<Longrightarrow> tstat k' u = RT_THREAD_READY \<and> event_set (thread k' u) = got"
    using d(1,2,12) by (auto simp: tstat_def)
qed

lemma rt_event_send_ok:
  assumes w: "wf_kernel lo k" and r: "rt_event_send a evs k = Some (e, k')" and z: "evs \<noteq> 0"
  shows "wf_kernel lo k'" "event_inv a k'" "run_ready k \<Longrightarrow> run_ready k'" "e = RT_EOK"
    "t \<in> set (lists k (Susp a)) \<Longrightarrow>
       (if t \<in> set (lists k' (Susp a)) then thread k' t = thread k t
        else tstat k' t = RT_THREAD_READY \<and> error (thread k' t) = error (thread k t))"
    "set (lists k' (Susp a)) \<subseteq> set (lists k (Susp a))"
proof -
  let ?k = "upd_event a (\<lambda>e. e\<lparr>ev_set := ev_set e OR evs\<rparr>) k"
  have w1: "wf_kernel lo ?k" using w by simp
  obtain need k1 vs where
    k1: "event_wake a (lists ?k (Susp a)) False ?k = Some (need, k1)" "wf_kernel lo k1"
      "current k1 = current ?k" "run_ready ?k \<longrightarrow> run_ready k1" "lists k1 (Susp a) = vs"
      "set vs \<subseteq> set (lists ?k (Susp a))"
      "\<forall>u\<in>set vs. \<not> event_ready a u k1 \<and> thread k1 u = thread ?k u"
      "\<forall>u\<in>set (lists ?k (Susp a)) - set vs.
         tstat k1 u = RT_THREAD_READY \<and> error (thread k1 u) = error (thread ?k u)"
    using event_wake_ok[OF w1, of a "[]" "lists ?k (Susp a)" False] by auto
  have "Option.bind (if need then rt_schedule k1 else Some k1) (\<lambda>k. Some (RT_EOK, k)) = Some (e, k')"
    using r z k1(1) by (simp add: rt_event_send_def)
  then have "e = RT_EOK" and s: "rt_schedule k1 = Some k' \<or> k' = k1"
    by (auto simp: bind_eq_Some_conv split: if_splits)
  then show "e = RT_EOK" by simp
  have f: "cpu_frame k1 k'" using s rt_schedule_frame[of k1 k'] by auto
  show "wf_kernel lo k'" by (rule wf_kernel_cpu_frame[OF k1(2) f])
  note d = cpu_frameD[OF f]
  show "event_inv a k'" using k1(5,7) d(1,2,12) by (auto simp: event_inv_def event_ready_def)
  show "run_ready k'" if "run_ready k"
  proof -
    have "run_ready ?k" using that by (simp add: run_ready_def tstat_def)
    then show ?thesis
      using k1(4) s run_ready_schedule_any[OF wf_kernelD(1)[OF k1(2)], of k'] by blast
  qed
  show "set (lists k' (Susp a)) \<subseteq> set (lists k (Susp a))" using k1(5,6) d(2) by simp
  show "if t \<in> set (lists k' (Susp a)) then thread k' t = thread k t
        else tstat k' t = RT_THREAD_READY \<and> error (thread k' t) = error (thread k t)"
    if "t \<in> set (lists k (Susp a))"
    using that k1(5,7,8) d(1,2) by (simp add: tstat_def)
qed

section \<open>Receiving\<close>

lemma rt_event_recv_cases:
  assumes "rt_event_recv a evs opt timeout k = Some (res, k')" "current k = Some t"
  obtains (bad) "evs = 0" "res = Ret (- RT_ERROR, None)" "k' = k"
    | (got) "evs \<noteq> 0" "satisfied opt evs (ev_set (events k a))"
        "res = Ret (RT_EOK, Some (ev_set (events k a) AND evs))"
        "k' = (if opt AND RT_EVENT_FLAG_CLEAR \<noteq> 0
           then upd_event a (\<lambda>e. e\<lparr>ev_set := ev_set e AND NOT evs\<rparr>)
             (upd_thread t (\<lambda>th. th\<lparr>error := RT_EOK\<rparr>) k)
           else upd_thread t (\<lambda>th. th\<lparr>error := RT_EOK\<rparr>) k)"
    | (none) "evs \<noteq> 0" "\<not> satisfied opt evs (ev_set (events k a))" "timeout = 0"
        "res = Ret (- RT_ETIMEOUT, None)"
        "k' = upd_thread t (\<lambda>th. th\<lparr>error := - RT_ETIMEOUT\<rparr>) (upd_thread t (\<lambda>th. th\<lparr>error := RT_EOK\<rparr>) k)"
    | (block) "evs \<noteq> 0" "\<not> satisfied opt evs (ev_set (events k a))" "timeout \<noteq> 0" "res = Wait t"
        "block_current (Susp a) (ipc_flag a k) timeout t
          (upd_thread t (\<lambda>th. th\<lparr>error := RT_EOK\<rparr>)
            (upd_thread t (\<lambda>th. th\<lparr>event_set := evs, event_info := opt\<rparr>) k)) = Some k'"
proof -
  have n: "RT_DEBUG_IN_THREAD_CONTEXT k = Some ()"
    using assms unfolding rt_event_recv_def bind_eq_Some_conv by auto
  have sw: "upd_thread t (\<lambda>th. th\<lparr>event_set := evs, event_info := opt\<rparr>)
      (upd_thread t (\<lambda>th. th\<lparr>error := RT_EOK\<rparr>) k) =
    upd_thread t (\<lambda>th. th\<lparr>error := RT_EOK\<rparr>)
      (upd_thread t (\<lambda>th. th\<lparr>event_set := evs, event_info := opt\<rparr>) k)"
    by (cases "thread k t") (simp add: upd_thread_def)
  consider "evs = 0" | "evs \<noteq> 0" "satisfied opt evs (ev_set (events k a))"
    | "evs \<noteq> 0" "\<not> satisfied opt evs (ev_set (events k a))" "timeout = 0"
    | "evs \<noteq> 0" "\<not> satisfied opt evs (ev_set (events k a))" "timeout \<noteq> 0" by blast
  then show thesis
  proof cases
    case 1
    then have "res = Ret (- RT_ERROR, None) \<and> k' = k"
      using assms by (auto simp: rt_event_recv_def n)
    then show thesis using bad[OF 1] by blast
  next
    case 2
    then have "res = Ret (RT_EOK, Some (ev_set (events k a) AND evs)) \<and>
        k' = (if opt AND RT_EVENT_FLAG_CLEAR \<noteq> 0
           then upd_event a (\<lambda>e. e\<lparr>ev_set := ev_set e AND NOT evs\<rparr>)
             (upd_thread t (\<lambda>th. th\<lparr>error := RT_EOK\<rparr>) k)
           else upd_thread t (\<lambda>th. th\<lparr>error := RT_EOK\<rparr>) k)"
      using assms by (auto simp: rt_event_recv_def rt_thread_self_def n)
    then show thesis using got[OF 2] by blast
  next
    case 3
    then have "res = Ret (- RT_ETIMEOUT, None) \<and>
      k' = upd_thread t (\<lambda>th. th\<lparr>error := - RT_ETIMEOUT\<rparr>) (upd_thread t (\<lambda>th. th\<lparr>error := RT_EOK\<rparr>) k)"
      using assms by (auto simp: rt_event_recv_def rt_thread_self_def n)
    then show thesis using none[OF 3] by blast
  next
    case 4
    then have "res = Wait t \<and> block_current (Susp a) (ipc_flag a k) timeout t
          (upd_thread t (\<lambda>th. th\<lparr>error := RT_EOK\<rparr>)
            (upd_thread t (\<lambda>th. th\<lparr>event_set := evs, event_info := opt\<rparr>) k)) = Some k'"
      using assms
      by (auto simp: rt_event_recv_def rt_thread_self_def n bind_eq_Some_conv sw ipc_flag_def)
    then show thesis using block[OF 4] by blast
  qed
qed

lemma rt_event_recv_ok:
  assumes w: "wf_kernel lo k" and lo: "lo \<le> 1" and cur: "run_ready k" "current k = Some t"
    and flag: "ipc_flag a k = RT_IPC_FLAG_FIFO \<or> ipc_flag a k = RT_IPC_FLAG_PRIO"
    and inv: "event_inv a k" and r: "rt_event_recv a evs opt timeout k = Some (res, k')"
  shows "wf_kernel lo k'" "event_inv a k'" "lock_nest k = 0 \<Longrightarrow> run_ready k'"
    "res = Wait u \<Longrightarrow> u = t \<and> waiting (Susp a) t k' \<and> \<not> satisfied opt evs (ev_set (events k a))"
proof -
  have nq: "t \<notin> set (lists k (Susp a))"
    using waiting_iff[OF w wait_queue_Susp(1), of a t] cur by (auto simp: waiting_def run_ready_def)
  have "wf_kernel lo k' \<and> event_inv a k' \<and> (lock_nest k = 0 \<longrightarrow> run_ready k') \<and>
    (res = Wait u \<longrightarrow> u = t \<and> waiting (Susp a) t k' \<and> \<not> satisfied opt evs (ev_set (events k a)))"
    using r cur(2)
  proof (cases rule: rt_event_recv_cases)
    case bad
    then show ?thesis using w inv cur by simp
  next
    case got
    let ?k = "upd_thread t (\<lambda>th. th\<lparr>error := RT_EOK\<rparr>) k"
    have w1: "wf_kernel lo ?k" by (rule wf_kernel_set_error[OF w])
    have th: "lists k' = lists k" "\<And>u. u \<noteq> t \<Longrightarrow> thread k' u = thread k u" "current k' = current k"
      "stat (thread k' u) = stat (thread k u)" for u using got(4) by simp_all
    have "ev_set (events k' a) AND ev_set (events k a) = ev_set (events k' a)"
      using got(4) by (auto simp: bit_eq_iff bit_and_iff)
    then have "\<not> event_ready a u k'" if "u \<in> set (lists k (Susp a))" for u
      using satisfied_mono inv th(2)[of u] nq that
      by (metis event_inv_def event_ready_def)
    then have "event_inv a k'" using th(1) by (simp add: event_inv_def)
    moreover have "run_ready k'" using cur(1) th(3,4) by (simp add: run_ready_def tstat_def)
    ultimately show ?thesis using got(3,4) w1 by simp
  next
    case none
    then have "wf_kernel lo k'" using wf_kernel_set_error[OF wf_kernel_set_error[OF w]] by simp
    moreover have "event_inv a k'" using none inv nq by (auto simp: event_inv_def event_ready_def)
    moreover have "run_ready k'" using none cur by (simp add: run_ready_def tstat_def)
    ultimately show ?thesis using none by simp
  next
    case block
    let ?k = "upd_thread t (\<lambda>th. th\<lparr>event_set := evs, event_info := opt\<rparr>) k"
    have w1: "wf_kernel lo ?k" by (rule wf_kernel_thread_fields[OF w]) simp_all
    have r1: "run_ready ?k" by (rule run_ready_upd_thread[OF cur(1)]) simp
    have c1: "current ?k = Some t" using cur by simp
    note b = block_self_ok[OF w1 lo r1 c1 wait_queue_Susp(1) flag block(5)]
    have e: "events k' = events k" using ipc_frameD(3)[OF b(2)] by simp
    have q: "set (lists k' (Susp a)) = Set.insert t (set (lists k (Susp a)))"
      using b(5) by simp
    have "event_set (thread k' t) = evs" "event_info (thread k' t) = opt"
      using b(10) by simp_all
    then have "\<not> event_ready a t k'" using block(2) e by (simp add: event_ready_def)
    moreover have "\<not> event_ready a u k'" if "u \<in> set (lists k (Susp a))" for u
    proof -
      have "u \<noteq> t" using nq that by blast
      then have "thread k' u = thread k u" using b(9)[of u] by simp
      then show ?thesis using inv that e by (auto simp: event_inv_def event_ready_def)
    qed
    ultimately have "event_inv a k'" using q by (simp add: event_inv_def)
    then show ?thesis using b(1,3,7) block(2,4) by auto
  qed
  then show "wf_kernel lo k'" "event_inv a k'" "lock_nest k = 0 \<Longrightarrow> run_ready k'"
    "res = Wait u \<Longrightarrow> u = t \<and> waiting (Susp a) t k' \<and> \<not> satisfied opt evs (ev_set (events k a))"
    by auto
qed

lemma rt_event_control_ok:
  assumes w: "wf_kernel lo k" and r: "rt_event_control a cmd k = Some (e, k')"
  shows "wf_kernel lo k'" "cmd = RT_IPC_CMD_RESET \<Longrightarrow> lists k' (Susp a) = [] \<and> ev_set (events k' a) = 0"
proof -
  obtain k1 where k1: "rt_ipc_list_resume_all (Susp a) k = Some k1" "wf_kernel lo k1"
    "lists k1 (Susp a) = []" using rt_ipc_list_resume_all_ok[OF w, of "Susp a"] by auto
  let ?k = "upd_event a (\<lambda>e. e\<lparr>ev_set := 0\<rparr>) k1"
  have c: "cmd = RT_IPC_CMD_RESET \<Longrightarrow> rt_schedule ?k = Some k'"
    using r k1(1) by (auto simp: rt_event_control_def bind_eq_Some_conv)
  then show "cmd = RT_IPC_CMD_RESET \<Longrightarrow> lists k' (Susp a) = [] \<and> ev_set (events k' a) = 0"
    using k1(3) rt_schedule_frame[of ?k k'] cpu_frameD(2,12)[of ?k k'] by simp
  show "wf_kernel lo k'"
  proof (cases "cmd = RT_IPC_CMD_RESET")
    case True
    then show ?thesis using wf_kernel_schedule[of lo ?k k'] c k1(2) by simp
  qed (use r w in \<open>simp add: rt_event_control_def\<close>)
qed

section \<open>Creating and deleting\<close>

lemma wf_kernel_event_setup:
  assumes w: "wf_kernel lo k" and t: "Obj a \<notin> set (timer_list k)"
    and r: "event_setup a flag k = Some k'"
  shows "wf_kernel lo k'" "event_inv a k'"
proof -
  have k': "k' = upd_event a (\<lambda>e. e\<lparr>ev_set := 0\<rparr>) (upd_flag a flag k)" and l: "lists k (Susp a) = []"
    using r by (auto simp: event_setup_def rt_ipc_object_init_def)
  show "wf_kernel lo k'" unfolding k' using wf_kernel_upd_flag[OF w t] by simp
  show "event_inv a k'" using l by (simp add: k' event_inv_def)
qed

lemma rt_event_init_ok:
  assumes w: "wf_kernel lo k" and t: "Obj a \<notin> set (timer_list k)"
    and r: "rt_event_init a name flag k = Some (e, k')"
  shows "wf_kernel lo k'" "event_inv a k'"
proof -
  obtain k1 where k1: "rt_object_init (Obj a) RT_Object_Class_Event name k = Some k1"
    "event_setup a flag k1 = Some k'"
    using r unfolding rt_event_init_def bind_eq_Some_conv by blast
  have "Obj a \<notin> set (timer_list k1)" using t rt_object_init_frame(4)[OF k1(1)] by simp
  then show "wf_kernel lo k'" "event_inv a k'"
    using wf_kernel_event_setup[OF wf_kernel_object_init[OF w k1(1)] _ k1(2)] by simp_all
qed

lemma wf_kernel_event_create:
  assumes w: "wf_kernel lo k" and r: "rt_event_create name flag k = Some (a, k')"
    and t: "Obj a \<notin> set (timer_list k)"
  shows "wf_kernel lo k'"
proof -
  obtain k1 where k1: "rt_object_allocate RT_Object_Class_Event name k = Some (a, k1)"
    "a = 0 \<and> k' = k1 \<or> event_setup a flag k1 = Some k'"
    using r by (auto simp: rt_event_create_def bind_eq_Some_conv split: if_splits)
  have "Obj a \<notin> set (timer_list k1)" using t rt_object_allocate_frame(3)[OF k1(1)] by simp
  then show ?thesis
    using k1(2) wf_kernel_allocate[OF w k1(1) t] wf_kernel_event_setup(1)[of lo k1 a] by blast
qed

lemma wf_kernel_event_delete: "wf_kernel lo k \<Longrightarrow> rt_event_delete a k = Some (e, k') \<Longrightarrow> wf_kernel lo k'"
  using wf_kernel_ipc_delete[of lo k a k'] by (simp add: rt_event_delete_def bind_eq_Some_conv)

lemma wf_kernel_event_detach: "wf_kernel lo k \<Longrightarrow> rt_event_detach a k = Some (e, k') \<Longrightarrow> wf_kernel lo k'"
  using wf_kernel_ipc_detach[of lo k a k'] by (simp add: rt_event_detach_def bind_eq_Some_conv)

end
