(* ===== verification/Ring.thy ===== *)
theory Ring
  imports KService
begin

text \<open>
  What the bounded queues of the system share: the contents of a circular array as a list, the
  laws of a 32-bit word in memory, and the interface of a bounded first-in first-out queue, which
  the mailbox interprets.
\<close>

section \<open>Circular arrays\<close>

text \<open>The \<open>n\<close> elements from index \<open>out\<close> of an array of \<open>size\<close> cells read by \<open>rd\<close>.\<close>

definition ring_list :: "(nat \<Rightarrow> 'a) \<Rightarrow> nat \<Rightarrow> nat \<Rightarrow> nat \<Rightarrow> 'a list" where
  "ring_list rd out n sz = map (\<lambda>i. rd ((out + i) mod sz)) [0..<n]"

lemma length_ring_list [simp]: "length (ring_list rd out n sz) = n"
  by (simp add: ring_list_def)

lemma ring_list_0 [simp]: "ring_list rd out 0 sz = []"
  by (simp add: ring_list_def)

lemma ring_list_cong:
  "(\<And>i. i < n \<Longrightarrow> rd' ((out + i) mod sz) = rd ((out + i) mod sz)) \<Longrightarrow>
   ring_list rd' out n sz = ring_list rd out n sz"
  by (simp add: ring_list_def)

lemma ring_index_inj:
  assumes "i < (sz :: nat)" "j < sz" "(out + i) mod sz = (out + j) mod sz"
  shows "i = j"
proof -
  have *: "j = i" if "i \<le> j" "j < sz" "(out + i) mod sz = (out + j) mod sz" for i j
  proof -
    have "sz dvd (out + j) - (out + i)"
      using that mod_eq_dvd_iff_nat[of "out + i" "out + j" sz] by simp
    then have "sz dvd j - i" by simp
    then have "j - i = 0" using that(2) nat_dvd_not_less[of "j - i" sz] by (cases "j - i = 0") auto
    then show ?thesis using that(1) by simp
  qed
  show ?thesis
  proof (cases "i \<le> j")
    case True
    show ?thesis using *[OF True assms(2,3)] by (rule sym)
  next
    case False
    then have "j \<le> i" by simp
    then show ?thesis using assms(1) assms(3)[symmetric] by (rule *)
  qed
qed

lemma ring_list_put:
  assumes "n < sz"
  shows "ring_list (rd((out + n) mod sz := v)) out (Suc n) sz = ring_list rd out n sz @ [v]"
proof -
  have "(out + i) mod sz \<noteq> (out + n) mod sz" if "i < n" for i
    using ring_index_inj[of i sz n out] that assms by auto
  then show ?thesis by (simp add: ring_list_def)
qed

lemma ring_list_get:
  assumes "out < sz"
  shows "ring_list rd out (Suc n) sz = rd out # ring_list rd ((out + 1) mod sz) n sz"
proof -
  have "rd ((out + Suc i) mod sz) = rd (((out + 1) mod sz + i) mod sz)" for i
    by (simp add: mod_simps)
  then show ?thesis using assms by (simp add: ring_list_def upt_conv_Cons map_Suc_upt [symmetric] del: upt_Suc)
qed

section \<open>Words in memory\<close>

lemma load32_store32_same [simp]: "load32 a (store32 a v m) = v"
proof (rule bit_eqI)
  fix i assume "possible_bit TYPE(u32) i"
  then have "i < 32" by (simp add: possible_bit_def)
  then show "bit (load32 a (store32 a v m)) i = bit v i"
    by (auto simp: load32_def store32_def bit_word_cat_iff bit_ucast_iff bit_drop_bit_eq
        possible_bit_def)
qed

lemma load32_store32_other: "a + 4 \<le> b \<or> b + 4 \<le> a \<Longrightarrow> load32 b (store32 a v m) = load32 b m"
  by (auto simp: load32_def store32_def)

section \<open>Bounded queues\<close>

locale bounded_fifo =
  fixes inv :: "'s \<Rightarrow> bool" and contents :: "'s \<Rightarrow> 'v list" and capacity :: "'s \<Rightarrow> nat"
    and put :: "'v \<Rightarrow> 's \<Rightarrow> 's option" and get :: "'s \<Rightarrow> ('v \<times> 's) option"
  assumes bound: "inv s \<Longrightarrow> length (contents s) \<le> capacity s"
    and put_full: "inv s \<Longrightarrow> length (contents s) = capacity s \<Longrightarrow> put v s = None"
    and put_room: "inv s \<Longrightarrow> length (contents s) < capacity s \<Longrightarrow>
      \<exists>s'. put v s = Some s' \<and> inv s' \<and> contents s' = contents s @ [v] \<and> capacity s' = capacity s"
    and get_empty: "inv s \<Longrightarrow> contents s = [] \<Longrightarrow> get s = None"
    and get_first: "inv s \<Longrightarrow> contents s = v # vs \<Longrightarrow>
      \<exists>s'. get s = Some (v, s') \<and> inv s' \<and> contents s' = vs \<and> capacity s' = capacity s"
begin

fun put_all :: "'v list \<Rightarrow> 's \<Rightarrow> 's option" where
  "put_all [] s = Some s"
| "put_all (v # vs) s = Option.bind (put v s) (put_all vs)"

fun get_all :: "nat \<Rightarrow> 's \<Rightarrow> ('v list \<times> 's) option" where
  "get_all 0 s = Some ([], s)"
| "get_all (Suc n) s = Option.bind (get s) (\<lambda>(v, s).
     Option.bind (get_all n s) (\<lambda>(vs, s). Some (v # vs, s)))"

lemma put_all_ok:
  "inv s \<Longrightarrow> length (contents s) + length vs \<le> capacity s \<Longrightarrow>
   \<exists>s'. put_all vs s = Some s' \<and> inv s' \<and> contents s' = contents s @ vs \<and> capacity s' = capacity s"
proof (induction vs arbitrary: s)
  case (Cons v vs)
  then obtain s1 where "put v s = Some s1" "inv s1" "contents s1 = contents s @ [v]"
    "capacity s1 = capacity s" using put_room[of s v] by auto
  then show ?case using Cons.IH[of s1] Cons.prems by simp
qed simp

lemma get_all_ok:
  "inv s \<Longrightarrow> n \<le> length (contents s) \<Longrightarrow>
   \<exists>s'. get_all n s = Some (take n (contents s), s') \<and> inv s' \<and> contents s' = drop n (contents s) \<and>
     capacity s' = capacity s"
proof (induction n arbitrary: s)
  case (Suc n)
  then obtain v vs where c: "contents s = v # vs" by (cases "contents s") auto
  then obtain s1 where "get s = Some (v, s1)" "inv s1" "contents s1 = vs" "capacity s1 = capacity s"
    using get_first Suc.prems(1) by blast
  then show ?case using Suc.IH[of s1] Suc.prems c by auto
qed simp

text \<open>What was put in comes out, in the same order.\<close>

lemma fifo:
  assumes "inv s" "contents s = []" "length vs \<le> capacity s"
  shows "\<exists>s1 s2. put_all vs s = Some s1 \<and> get_all (length vs) s1 = Some (vs, s2) \<and> contents s2 = []"
proof -
  obtain s1 where s1: "put_all vs s = Some s1" "inv s1" "contents s1 = vs"
    using put_all_ok[of s vs] assms by auto
  then show ?thesis using get_all_ok[of s1 "length vs"] by auto
qed

lemma put_all_full:
  assumes "inv s" "length (contents s) + length vs > capacity s"
  shows "put_all vs s = None"
  using assms
proof (induction vs arbitrary: s)
  case Nil
  then show ?case using bound[of s] by simp
next
  case (Cons v vs)
  show ?case
  proof (cases "length (contents s) = capacity s")
    case False
    then have "length (contents s) < capacity s" using bound[OF Cons.prems(1)] by simp
    then obtain s1 where "put v s = Some s1" "inv s1" "contents s1 = contents s @ [v]"
      "capacity s1 = capacity s" using put_room Cons.prems(1) by blast
    then show ?thesis using Cons.IH[of s1] Cons.prems by simp
  qed (use put_full Cons.prems in simp)
qed

end

end
