(* ===== verification/Mailbox.thy ===== *)
theory Mailbox
  imports Event Ring
begin

text \<open>
  Mailboxes (\<^verbatim>\<open>src/ipc.c\<close>, lines 1259 to 1721): a circular array of 32-bit words in memory, with one
  queue of waiting receivers and one of waiting senders.
\<close>

section \<open>The operations\<close>

definition mb_setup :: "nat \<Rightarrow> nat \<Rightarrow> u32 \<Rightarrow> u8 \<Rightarrow> kernel \<Rightarrow> kernel option" where
  "mb_setup a msgpool sz flag k = do {
     let k = upd_flag a flag k;
     k \<leftarrow> rt_ipc_object_init a k;
     let k = upd_mb a (\<lambda>_. \<lparr>mb_pool = msgpool, mb_size = ucast sz, mb_entry = 0, in_offset = 0,
                            out_offset = 0\<rparr>) k;
     RT_ASSERT (lists k (SuspSender a) = []);
     Some k
   }"

definition rt_mb_init ::
  "nat \<Rightarrow> u8 list \<Rightarrow> nat \<Rightarrow> u32 \<Rightarrow> u8 \<Rightarrow> kernel \<Rightarrow> (rt_err \<times> kernel) option" where
  "rt_mb_init a name msgpool sz flag k = do {
     RT_ASSERT (a \<noteq> 0);
     k \<leftarrow> rt_object_init (Obj a) RT_Object_Class_MailBox name k;
     k \<leftarrow> mb_setup a msgpool sz flag k;
     Some (RT_EOK, k)
   }"

definition rt_mb_detach :: "nat \<Rightarrow> kernel \<Rightarrow> (rt_err \<times> kernel) option" where
  "rt_mb_detach a k = do {
     RT_ASSERT (a \<noteq> 0);
     k \<leftarrow> rt_ipc_list_resume_all (Susp a) k;
     k \<leftarrow> rt_ipc_list_resume_all (SuspSender a) k;
     Some (RT_EOK, rt_object_detach (Obj a) k)
   }"

definition rt_mb_create :: "u8 list \<Rightarrow> u32 \<Rightarrow> u8 \<Rightarrow> kernel \<Rightarrow> (nat \<times> kernel) option" where
  "rt_mb_create name sz flag k = do {
     RT_DEBUG_NOT_IN_INTERRUPT k;
     (a, k) \<leftarrow> rt_object_allocate RT_Object_Class_MailBox name k;
     if a = 0 then Some (0, k)
     else do {
       let k = upd_flag a flag k;
       k \<leftarrow> rt_ipc_object_init a k;
       let k = upd_mb a (\<lambda>m. m\<lparr>mb_size := ucast sz\<rparr>) k;
       (p, k) \<leftarrow> k_malloc (unat (mb_size (mailboxes k a)) * 4) k;
       let k = upd_mb a (\<lambda>m. m\<lparr>mb_pool := p\<rparr>) k;
       if p = 0 then do {
         k \<leftarrow> rt_object_delete a k;
         Some (0, k)
       } else do {
         let k = upd_mb a (\<lambda>m. m\<lparr>mb_entry := 0, in_offset := 0, out_offset := 0\<rparr>) k;
         RT_ASSERT (lists k (SuspSender a) = []);
         Some (a, k)
       }
     }
   }"

definition rt_mb_delete :: "nat \<Rightarrow> kernel \<Rightarrow> (rt_err \<times> kernel) option" where
  "rt_mb_delete a k = do {
     RT_DEBUG_NOT_IN_INTERRUPT k;
     RT_ASSERT (a \<noteq> 0);
     k \<leftarrow> rt_ipc_list_resume_all (Susp a) k;
     k \<leftarrow> rt_ipc_list_resume_all (SuspSender a) k;
     k \<leftarrow> k_free (mb_pool (mailboxes k a)) k;
     k \<leftarrow> rt_object_delete a k;
     Some (RT_EOK, k)
   }"

text \<open>Storing a mail and fetching one.\<close>

definition next_offset :: "u16 \<Rightarrow> u16 \<Rightarrow> u16" where
  "next_offset sz i = (if i + 1 \<ge> sz then 0 else i + 1)"

definition mb_put :: "nat \<Rightarrow> u32 \<Rightarrow> kernel \<Rightarrow> kernel" where
  "mb_put a v k =
     (let m = mailboxes k a;
          k = upd_ram (store32 (mb_pool m + 4 * unat (in_offset m)) v) k
      in upd_mb a (\<lambda>m. m\<lparr>in_offset := next_offset (mb_size m) (in_offset m),
                         mb_entry := mb_entry m + 1\<rparr>) k)"

definition mb_get :: "nat \<Rightarrow> kernel \<Rightarrow> u32 \<times> kernel" where
  "mb_get a k =
     (let m = mailboxes k a
      in (load32 (mb_pool m + 4 * unat (out_offset m)) (kram k),
          upd_mb a (\<lambda>m. m\<lparr>out_offset := next_offset (mb_size m) (out_offset m),
                          mb_entry := mb_entry m - 1\<rparr>) k))"

text \<open>One round of the loop of \<^verbatim>\<open>rt_mb_send_wait\<close> and what follows it. A wait keeps the thread, the
  waiting time and the tick at which it began.\<close>

type_synonym wait_state = "nat \<times> int \<times> u32"

definition mb_send_loop ::
  "nat \<Rightarrow> u32 \<Rightarrow> int \<Rightarrow> kernel \<Rightarrow> ((rt_err, wait_state) outcome \<times> kernel) option" where
  "mb_send_loop a v timeout k =
     (if mb_entry (mailboxes k a) = mb_size (mailboxes k a) then do {
        t \<leftarrow> rt_thread_self k;
        let k = upd_thread t (\<lambda>th. th\<lparr>error := RT_EOK\<rparr>) k;
        if timeout = 0 then Some (Ret (- RT_EFULL), k)
        else do {
          RT_DEBUG_IN_THREAD_CONTEXT k;
          let start = tick k;
          k \<leftarrow> block_current (SuspSender a) (ipc_flag a k) timeout t k;
          Some (Wait (t, timeout, start), k)
        }
      } else do {
        k \<leftarrow> resume_one_and_schedule (Susp a) (mb_put a v k);
        Some (Ret RT_EOK, k)
      })"

definition rt_mb_send_wait ::
  "nat \<Rightarrow> u32 \<Rightarrow> int \<Rightarrow> kernel \<Rightarrow> ((rt_err, wait_state) outcome \<times> kernel) option" where
  "rt_mb_send_wait a v timeout k = do {
     RT_ASSERT (a \<noteq> 0);
     if mb_entry (mailboxes k a) = mb_size (mailboxes k a) \<and> timeout = 0
     then Some (Ret (- RT_EFULL), k)
     else mb_send_loop a v timeout k
   }"

definition rt_mb_send_wait_cont ::
  "nat \<Rightarrow> u32 \<Rightarrow> wait_state \<Rightarrow> kernel \<Rightarrow> ((rt_err, wait_state) outcome \<times> kernel) option" where
  "rt_mb_send_wait_cont a v w k =
     (case w of (t, timeout, start) \<Rightarrow>
        if error (thread k t) \<noteq> RT_EOK then Some (Ret (error (thread k t)), k)
        else mb_send_loop a v (remaining_time timeout start k) k)"

definition rt_mb_send :: "nat \<Rightarrow> u32 \<Rightarrow> kernel \<Rightarrow> ((rt_err, wait_state) outcome \<times> kernel) option" where
  "rt_mb_send a v k = rt_mb_send_wait a v 0 k"

definition mb_recv_loop ::
  "nat \<Rightarrow> int \<Rightarrow> kernel \<Rightarrow> ((rt_err \<times> u32 option, wait_state) outcome \<times> kernel) option" where
  "mb_recv_loop a timeout k =
     (if mb_entry (mailboxes k a) = 0 then do {
        t \<leftarrow> rt_thread_self k;
        let k = upd_thread t (\<lambda>th. th\<lparr>error := RT_EOK\<rparr>) k;
        if timeout = 0 then
          Some (Ret (- RT_ETIMEOUT, None), upd_thread t (\<lambda>th. th\<lparr>error := - RT_ETIMEOUT\<rparr>) k)
        else do {
          RT_DEBUG_IN_THREAD_CONTEXT k;
          let start = tick k;
          k \<leftarrow> block_current (Susp a) (ipc_flag a k) timeout t k;
          Some (Wait (t, timeout, start), k)
        }
      } else do {
        let (v, k) = mb_get a k;
        k \<leftarrow> resume_one_and_schedule (SuspSender a) k;
        Some (Ret (RT_EOK, Some v), k)
      })"

definition rt_mb_recv ::
  "nat \<Rightarrow> int \<Rightarrow> kernel \<Rightarrow> ((rt_err \<times> u32 option, wait_state) outcome \<times> kernel) option" where
  "rt_mb_recv a timeout k = do {
     RT_ASSERT (a \<noteq> 0);
     if mb_entry (mailboxes k a) = 0 \<and> timeout = 0 then Some (Ret (- RT_ETIMEOUT, None), k)
     else mb_recv_loop a timeout k
   }"

definition rt_mb_recv_cont ::
  "nat \<Rightarrow> wait_state \<Rightarrow> kernel \<Rightarrow> ((rt_err \<times> u32 option, wait_state) outcome \<times> kernel) option" where
  "rt_mb_recv_cont a w k =
     (case w of (t, timeout, start) \<Rightarrow>
        if error (thread k t) \<noteq> RT_EOK then Some (Ret (error (thread k t), None), k)
        else mb_recv_loop a (remaining_time timeout start k) k)"

definition rt_mb_control :: "nat \<Rightarrow> nat \<Rightarrow> kernel \<Rightarrow> (rt_err \<times> kernel) option" where
  "rt_mb_control a cmd k = do {
     RT_ASSERT (a \<noteq> 0);
     if cmd = RT_IPC_CMD_RESET then do {
       k \<leftarrow> rt_ipc_list_resume_all (Susp a) k;
       k \<leftarrow> rt_ipc_list_resume_all (SuspSender a) k;
       let k = upd_mb a (\<lambda>m. m\<lparr>mb_entry := 0, in_offset := 0, out_offset := 0\<rparr>) k;
       k \<leftarrow> rt_schedule k;
       Some (RT_EOK, k)
     } else Some (- RT_ERROR, k)
   }"

section \<open>The mailbox as a bounded queue\<close>

definition mb_inv :: "nat \<Rightarrow> kernel \<Rightarrow> bool" where
  "mb_inv a k \<longleftrightarrow>
     (let m = mailboxes k a; s = unat (mb_size m) in
      unat (mb_entry m) \<le> s \<and>
      (0 < s \<longrightarrow> unat (out_offset m) < s \<and>
         unat (in_offset m) = (unat (out_offset m) + unat (mb_entry m)) mod s))"

definition mb_contents :: "nat \<Rightarrow> kernel \<Rightarrow> u32 list" where
  "mb_contents a k =
     (let m = mailboxes k a in
      ring_list (\<lambda>i. load32 (mb_pool m + 4 * i) (kram k)) (unat (out_offset m)) (unat (mb_entry m))
        (unat (mb_size m)))"

definition mb_capacity :: "nat \<Rightarrow> kernel \<Rightarrow> nat" where
  "mb_capacity a k = unat (mb_size (mailboxes k a))"

lemma upd_mb_sel [simp]:
  "mailboxes (upd_mb a f k) = (mailboxes k)(a := f (mailboxes k a))" "lists (upd_mb a f k) = lists k"
  "thread (upd_mb a f k) = thread k" "current (upd_mb a f k) = current k" "kheap (upd_mb a f k) = kheap k"
  "lock_nest (upd_mb a f k) = lock_nest k" "timer_list (upd_mb a f k) = timer_list k"
  by (simp_all add: upd_mb_def)

lemma wf_kernel_upd_mb [simp]: "wf_kernel lo k \<Longrightarrow> wf_kernel lo (upd_mb a f k)"
  by (rule wf_kernel_same[of lo k]) (simp_all add: upd_mb_def)

lemma upd_ram_sel [simp]:
  "mailboxes (upd_ram f k) = mailboxes k" "mqueues (upd_ram f k) = mqueues k"
  "mempools (upd_ram f k) = mempools k" "lists (upd_ram f k) = lists k"
  "thread (upd_ram f k) = thread k" "current (upd_ram f k) = current k"
  "lock_nest (upd_ram f k) = lock_nest k" "timer_list (upd_ram f k) = timer_list k"
  "kram (upd_ram f k) = f (kram k)" "interrupt_nest (upd_ram f k) = interrupt_nest k"
  by (simp_all add: upd_ram_def kram_def)

lemma kram_upd_mb [simp]: "kram (upd_mb a f k) = kram k"
  by (simp add: kram_def)

lemma next_offset_mod:
  assumes "unat i < unat sz"
  shows "unat (next_offset sz i) = (unat i + 1) mod unat sz"
proof -
  have "unat i + 1 < 2 ^ 16" using assms unsigned_less[of sz, where ?'a = nat] by simp
  then have "unat (i + 1) = unat i + 1" by (simp add: unat_word_ariths)
  then show ?thesis
    using assms by (cases "Suc (unat i) = unat sz") (auto simp: next_offset_def word_le_nat_alt)
qed

lemma mb_put_ok:
  assumes inv: "mb_inv a k" and room: "mb_entry (mailboxes k a) \<noteq> mb_size (mailboxes k a)"
  shows "mb_inv a (mb_put a v k)" "mb_contents a (mb_put a v k) = mb_contents a k @ [v]"
    "mb_capacity a (mb_put a v k) = mb_capacity a k"
proof -
  let ?m = "mailboxes k a" and ?k = "mb_put a v k"
  let ?s = "unat (mb_size ?m)" and ?n = "unat (mb_entry ?m)" and ?o = "unat (out_offset ?m)"
  have n: "?n < ?s" using inv room by (auto simp: mb_inv_def Let_def le_less word_unat_eq_iff)
  then have o: "?o < ?s" and i: "unat (in_offset ?m) = (?o + ?n) mod ?s"
    using inv by (auto simp: mb_inv_def Let_def)
  have "?n + 1 < 2 ^ 16" using n unsigned_less[of "mb_size ?m", where ?'a = nat] by simp
  then have e: "unat (mb_entry ?m + 1) = Suc ?n" by (simp add: unat_word_ariths)
  have i': "unat (next_offset (mb_size ?m) (in_offset ?m)) = (?o + Suc ?n) mod ?s"
    using next_offset_mod[of "in_offset ?m" "mb_size ?m"] n i by (simp add: mod_Suc_eq)
  let ?rd = "\<lambda>j. load32 (mb_pool ?m + 4 * j) (kram k)"
  let ?rd' = "\<lambda>j. load32 (mb_pool ?m + 4 * j) (store32 (mb_pool ?m + 4 * unat (in_offset ?m)) v (kram k))"
  have "?rd' j = (?rd((?o + ?n) mod ?s := v)) j" for j
    using i load32_store32_other by (auto simp: linorder_neq_iff)
  then have "?rd' = ?rd((?o + ?n) mod ?s := v)" by (rule ext)
  then show "mb_contents a ?k = mb_contents a k @ [v]"
    using ring_list_put[OF n, of ?rd ?o v] e by (simp add: mb_contents_def mb_put_def Let_def)
  show "mb_inv a ?k" using n o e i' by (simp add: mb_inv_def mb_put_def Let_def)
  show "mb_capacity a ?k = mb_capacity a k" by (simp add: mb_capacity_def mb_put_def Let_def)
qed

lemma mb_get_ok:
  assumes inv: "mb_inv a k" and r: "mb_get a k = (v, k')" and ne: "mb_entry (mailboxes k a) \<noteq> 0"
  shows "mb_inv a k'" "mb_contents a k = v # mb_contents a k'" "mb_capacity a k' = mb_capacity a k"
proof -
  let ?m = "mailboxes k a"
  let ?s = "unat (mb_size ?m)" and ?n = "unat (mb_entry ?m)" and ?o = "unat (out_offset ?m)"
  obtain n where n: "?n = Suc n" using ne by (metis not0_implies_Suc unat_eq_zero)
  then have o: "?o < ?s" and le: "Suc n \<le> ?s" and i: "unat (in_offset ?m) = (?o + Suc n) mod ?s"
    using inv by (auto simp: mb_inv_def Let_def)
  have e: "unat (mb_entry ?m - 1) = n" using n ne by (simp add: unat_minus_one)
  have o': "unat (next_offset (mb_size ?m) (out_offset ?m)) = (?o + 1) mod ?s"
    by (rule next_offset_mod[OF o])
  have k': "k' = upd_mb a (\<lambda>m. m\<lparr>out_offset := next_offset (mb_size m) (out_offset m),
                          mb_entry := mb_entry m - 1\<rparr>) k"
    and v: "v = load32 (mb_pool ?m + 4 * ?o) (kram k)" using r by (auto simp: mb_get_def Let_def)
  show "mb_contents a k = v # mb_contents a k'"
    using ring_list_get[OF o, of _ n] n e o' by (simp add: mb_contents_def k' v Let_def)
  show "mb_inv a k'" using e o o' le i by (simp add: mb_inv_def k' Let_def mod_simps)
  show "mb_capacity a k' = mb_capacity a k" by (simp add: mb_capacity_def k')
qed

definition mb_try_put :: "nat \<Rightarrow> u32 \<Rightarrow> kernel \<Rightarrow> kernel option" where
  "mb_try_put a v k =
     (if mb_entry (mailboxes k a) = mb_size (mailboxes k a) then None else Some (mb_put a v k))"

definition mb_try_get :: "nat \<Rightarrow> kernel \<Rightarrow> (u32 \<times> kernel) option" where
  "mb_try_get a k = (if mb_entry (mailboxes k a) = 0 then None else Some (mb_get a k))"

lemma length_mb_contents: "length (mb_contents a k) = unat (mb_entry (mailboxes k a))"
  by (simp add: mb_contents_def Let_def)

interpretation mbq: bounded_fifo "mb_inv a" "mb_contents a" "mb_capacity a" "mb_try_put a" "mb_try_get a"
  for a
proof unfold_locales
  fix k v vs assume i: "mb_inv a k"
  show "length (mb_contents a k) \<le> mb_capacity a k"
    using i by (simp add: length_mb_contents mb_capacity_def mb_inv_def Let_def)
  show "mb_try_put a v k = None" if "length (mb_contents a k) = mb_capacity a k"
    using that by (simp add: length_mb_contents mb_capacity_def mb_try_put_def word_unat_eq_iff)
  show "\<exists>s'. mb_try_put a v k = Some s' \<and> mb_inv a s' \<and> mb_contents a s' = mb_contents a k @ [v] \<and>
      mb_capacity a s' = mb_capacity a k" if "length (mb_contents a k) < mb_capacity a k"
    using that mb_put_ok[OF i, of v] by (auto simp: length_mb_contents mb_capacity_def mb_try_put_def)
  show "mb_try_get a k = None" if "mb_contents a k = []"
    using that length_mb_contents[of a k] by (simp add: mb_try_get_def unat_eq_zero)
  show "\<exists>s'. mb_try_get a k = Some (v, s') \<and> mb_inv a s' \<and> mb_contents a s' = vs \<and>
      mb_capacity a s' = mb_capacity a k" if c: "mb_contents a k = v # vs"
  proof -
    have ne: "mb_entry (mailboxes k a) \<noteq> 0" using c length_mb_contents[of a k] by auto
    obtain w k' where g: "mb_get a k = (w, k')" by (cases "mb_get a k")
    show ?thesis using mb_get_ok[OF i g ne] g ne c by (simp add: mb_try_get_def)
  qed
qed

section \<open>Sending and receiving\<close>

lemma mb_frame:
  assumes "ipc_frame k k'"
  shows "mb_inv a k' = mb_inv a k" "mb_contents a k' = mb_contents a k" "mb_capacity a k' = mb_capacity a k"
  using ipc_frameD(4,7)[OF assms] by (simp_all add: mb_inv_def mb_contents_def mb_capacity_def kram_def)

lemma mb_put_frame [simp]:
  "thread (mb_put a v k) = thread k" "lists (mb_put a v k) = lists k" "current (mb_put a v k) = current k"
  "lock_nest (mb_put a v k) = lock_nest k"
  by (simp_all add: mb_put_def Let_def)

lemma wf_kernel_mb_put: "wf_kernel lo k \<Longrightarrow> wf_kernel lo (mb_put a v k)"
  by (simp add: mb_put_def Let_def wf_kernel_ram)

lemma run_ready_mb_put: "run_ready (mb_put a v k) = run_ready k"
  by (simp add: run_ready_def tstat_def)

lemma mb_get_frame:
  assumes "mb_get a k = (v, k')"
  shows "thread k' = thread k" "lists k' = lists k" "current k' = current k"
    "lock_nest k' = lock_nest k" "wf_kernel lo k \<Longrightarrow> wf_kernel lo k'"
  using assms by (auto simp: mb_get_def Let_def)

lemma mb_send_loop_cases:
  assumes "mb_send_loop a v timeout k = Some (res, k')"
  obtains (sent) "mb_entry (mailboxes k a) \<noteq> mb_size (mailboxes k a)" "res = Ret RT_EOK"
      "resume_one_and_schedule (Susp a) (mb_put a v k) = Some k'"
    | (full) t where "mb_entry (mailboxes k a) = mb_size (mailboxes k a)" "timeout = 0"
        "res = Ret (- RT_EFULL)" "k' = upd_thread t (\<lambda>th. th\<lparr>error := RT_EOK\<rparr>) k"
    | (block) t where "mb_entry (mailboxes k a) = mb_size (mailboxes k a)" "timeout \<noteq> 0"
        "res = Wait (t, timeout, tick k)" "current k = Some t"
        "block_current (SuspSender a) (ipc_flag a k) timeout t
           (upd_thread t (\<lambda>th. th\<lparr>error := RT_EOK\<rparr>) k) = Some k'"
proof (cases "mb_entry (mailboxes k a) = mb_size (mailboxes k a)")
  case False
  then have "res = Ret RT_EOK \<and> resume_one_and_schedule (Susp a) (mb_put a v k) = Some k'"
    using assms by (auto simp: mb_send_loop_def bind_eq_Some_conv)
  then show thesis using sent[OF False] by blast
next
  case True
  then obtain t where t: "current k = Some t"
    using assms by (auto simp: mb_send_loop_def rt_thread_self_def bind_eq_Some_conv)
  show thesis
  proof (cases "timeout = 0")
    case z: True
    then have "res = Ret (- RT_EFULL) \<and> k' = upd_thread t (\<lambda>th. th\<lparr>error := RT_EOK\<rparr>) k"
      using assms True t by (auto simp: mb_send_loop_def rt_thread_self_def)
    then show thesis using full[OF True z] by blast
  next
    case nz: False
    then have "res = Wait (t, timeout, tick k) \<and> block_current (SuspSender a) (ipc_flag a k) timeout t
           (upd_thread t (\<lambda>th. th\<lparr>error := RT_EOK\<rparr>) k) = Some k'"
      using assms True t
      by (auto simp: mb_send_loop_def rt_thread_self_def bind_eq_Some_conv ipc_flag_def Let_def)
    then show thesis using block[OF True nz _ t] by blast
  qed
qed

lemma mb_send_loop_ok:
  assumes w: "wf_kernel lo k" and lo: "lo \<le> 1" and cur: "run_ready k"
    and flag: "ipc_flag a k = RT_IPC_FLAG_FIFO \<or> ipc_flag a k = RT_IPC_FLAG_PRIO"
    and inv: "mb_inv a k" and r: "mb_send_loop a v timeout k = Some (res, k')"
  shows "wf_kernel lo k'" "mb_inv a k'" "lock_nest k = 0 \<Longrightarrow> run_ready k'"
    "mb_contents a k' = (if res = Ret RT_EOK then mb_contents a k @ [v] else mb_contents a k)"
    "res = Ret RT_EOK \<longleftrightarrow> length (mb_contents a k) < mb_capacity a k"
    "res = Wait (t, tm, st) \<Longrightarrow> waiting (SuspSender a) t k'"
proof -
  let ?th = "wf_kernel lo k' \<and> mb_inv a k' \<and> (lock_nest k = 0 \<longrightarrow> run_ready k') \<and>
    mb_contents a k' = (if res = Ret RT_EOK then mb_contents a k @ [v] else mb_contents a k) \<and>
    (res = Ret RT_EOK \<longleftrightarrow> length (mb_contents a k) < mb_capacity a k) \<and>
    (res = Wait (t, tm, st) \<longrightarrow> waiting (SuspSender a) t k')"
  have lt: "length (mb_contents a k) < mb_capacity a k \<longleftrightarrow>
      mb_entry (mailboxes k a) \<noteq> mb_size (mailboxes k a)"
    using inv by (auto simp: length_mb_contents mb_capacity_def mb_inv_def Let_def le_less word_unat_eq_iff)
  have ?th
    using r
  proof (cases rule: mb_send_loop_cases)
    case sent
    note p = mb_put_ok[OF inv sent(1), of v]
    note o = resume_one_and_schedule_ok[OF wf_kernel_mb_put[OF w] wait_queue_Susp(1) sent(3)]
    show ?thesis
      using o(1,5) mb_frame[OF o(2)] p cur lt sent(1,2) run_ready_mb_put by simp
  next
    case (full u)
    have "ipc_frame k k'" unfolding full(4) by simp
    from mb_frame[OF this] show ?thesis
      using full inv lt wf_kernel_set_error[OF w] run_ready_upd_thread[OF cur] by simp
  next
    case (block u)
    note b = block_self_ok[OF w lo cur block(4) wait_queue_Susp(2) flag block(5)]
    show ?thesis using b(1,3,7) mb_frame[OF b(2)] inv lt block(1,3) by auto
  qed
  then show "wf_kernel lo k'" "mb_inv a k'" "lock_nest k = 0 \<Longrightarrow> run_ready k'"
    "mb_contents a k' = (if res = Ret RT_EOK then mb_contents a k @ [v] else mb_contents a k)"
    "res = Ret RT_EOK \<longleftrightarrow> length (mb_contents a k) < mb_capacity a k"
    "res = Wait (t, tm, st) \<Longrightarrow> waiting (SuspSender a) t k'" by auto
qed

lemma mb_recv_loop_cases:
  assumes "mb_recv_loop a timeout k = Some (res, k')"
  obtains (got) v k1 where "mb_entry (mailboxes k a) \<noteq> 0" "mb_get a k = (v, k1)"
      "res = Ret (RT_EOK, Some v)" "resume_one_and_schedule (SuspSender a) k1 = Some k'"
    | (none) t where "mb_entry (mailboxes k a) = 0" "timeout = 0" "res = Ret (- RT_ETIMEOUT, None)"
        "k' = upd_thread t (\<lambda>th. th\<lparr>error := - RT_ETIMEOUT\<rparr>) (upd_thread t (\<lambda>th. th\<lparr>error := RT_EOK\<rparr>) k)"
    | (block) t where "mb_entry (mailboxes k a) = 0" "timeout \<noteq> 0"
        "res = Wait (t, timeout, tick k)" "current k = Some t"
        "block_current (Susp a) (ipc_flag a k) timeout t
           (upd_thread t (\<lambda>th. th\<lparr>error := RT_EOK\<rparr>) k) = Some k'"
proof (cases "mb_entry (mailboxes k a) = 0")
  case False
  obtain v k1 where g: "mb_get a k = (v, k1)" by (cases "mb_get a k")
  then have "res = Ret (RT_EOK, Some v) \<and> resume_one_and_schedule (SuspSender a) k1 = Some k'"
    using assms False by (auto simp: mb_recv_loop_def bind_eq_Some_conv)
  then show thesis using got[OF False g] by blast
next
  case True
  then obtain t where t: "current k = Some t"
    using assms by (auto simp: mb_recv_loop_def rt_thread_self_def bind_eq_Some_conv)
  show thesis
  proof (cases "timeout = 0")
    case z: True
    then have "res = Ret (- RT_ETIMEOUT, None) \<and> k' = upd_thread t (\<lambda>th. th\<lparr>error := - RT_ETIMEOUT\<rparr>)
        (upd_thread t (\<lambda>th. th\<lparr>error := RT_EOK\<rparr>) k)"
      using assms True t by (auto simp: mb_recv_loop_def rt_thread_self_def)
    then show thesis using none[OF True z] by blast
  next
    case nz: False
    then have "res = Wait (t, timeout, tick k) \<and> block_current (Susp a) (ipc_flag a k) timeout t
           (upd_thread t (\<lambda>th. th\<lparr>error := RT_EOK\<rparr>) k) = Some k'"
      using assms True t
      by (auto simp: mb_recv_loop_def rt_thread_self_def bind_eq_Some_conv ipc_flag_def Let_def)
    then show thesis using block[OF True nz _ t] by blast
  qed
qed

lemma mb_recv_loop_ok:
  assumes w: "wf_kernel lo k" and lo: "lo \<le> 1" and cur: "run_ready k"
    and flag: "ipc_flag a k = RT_IPC_FLAG_FIFO \<or> ipc_flag a k = RT_IPC_FLAG_PRIO"
    and inv: "mb_inv a k" and r: "mb_recv_loop a timeout k = Some (res, k')"
  shows "wf_kernel lo k'" "mb_inv a k'" "lock_nest k = 0 \<Longrightarrow> run_ready k'"
    "case mb_contents a k of
       [] \<Rightarrow> mb_contents a k' = [] \<and> (\<forall>v. res \<noteq> Ret (RT_EOK, v))
     | v # vs \<Rightarrow> mb_contents a k' = vs \<and> res = Ret (RT_EOK, Some v)"
    "res = Wait (t, tm, st) \<Longrightarrow> waiting (Susp a) t k'"
proof -
  let ?th = "wf_kernel lo k' \<and> mb_inv a k' \<and> (lock_nest k = 0 \<longrightarrow> run_ready k') \<and>
    (case mb_contents a k of
       [] \<Rightarrow> mb_contents a k' = [] \<and> (\<forall>v. res \<noteq> Ret (RT_EOK, v))
     | v # vs \<Rightarrow> mb_contents a k' = vs \<and> res = Ret (RT_EOK, Some v)) \<and>
    (res = Wait (t, tm, st) \<longrightarrow> waiting (Susp a) t k')"
  have ln: "mb_contents a k = [] \<longleftrightarrow> mb_entry (mailboxes k a) = 0"
    using length_mb_contents[of a k] by (auto simp: unat_eq_zero)
  have ?th
    using r
  proof (cases rule: mb_recv_loop_cases)
    case (got v k1)
    note p = mb_get_ok[OF inv got(2,1)]
    note f = mb_get_frame[OF got(2)]
    note o = resume_one_and_schedule_ok[OF f(5)[OF w] wait_queue_Susp(2) got(4)]
    have "run_ready k1" using cur f by (simp add: run_ready_def tstat_def)
    then show ?thesis using o(1,5) mb_frame[OF o(2)] p got(3) by simp
  next
    case (none u)
    have "ipc_frame k k'" unfolding none(4) using ipc_frame_trans ipc_frame_upd_thread by blast
    note f = mb_frame[OF this]
    have "run_ready k'" unfolding none(4) using cur by (simp add: run_ready_def tstat_def)
    then show ?thesis
      using none inv ln f wf_kernel_set_error[OF wf_kernel_set_error[OF w]] by simp
  next
    case (block u)
    note b = block_self_ok[OF w lo cur block(4) wait_queue_Susp(1) flag block(5)]
    show ?thesis using b(1,3,7) mb_frame[OF b(2)] inv ln block(1,3) by auto
  qed
  then show "wf_kernel lo k'" "mb_inv a k'" "lock_nest k = 0 \<Longrightarrow> run_ready k'"
    "case mb_contents a k of
       [] \<Rightarrow> mb_contents a k' = [] \<and> (\<forall>v. res \<noteq> Ret (RT_EOK, v))
     | v # vs \<Rightarrow> mb_contents a k' = vs \<and> res = Ret (RT_EOK, Some v)"
    "res = Wait (t, tm, st) \<Longrightarrow> waiting (Susp a) t k'" by auto
qed

lemma rt_mb_send_wait_eq:
  "rt_mb_send_wait a v timeout k = Some (res, k') \<longleftrightarrow> a \<noteq> 0 \<and>
     (if mb_entry (mailboxes k a) = mb_size (mailboxes k a) \<and> timeout = 0
      then res = Ret (- RT_EFULL) \<and> k' = k else mb_send_loop a v timeout k = Some (res, k'))"
  by (auto simp: rt_mb_send_wait_def)

lemma rt_mb_recv_eq:
  "rt_mb_recv a timeout k = Some (res, k') \<longleftrightarrow> a \<noteq> 0 \<and>
     (if mb_entry (mailboxes k a) = 0 \<and> timeout = 0
      then res = Ret (- RT_ETIMEOUT, None) \<and> k' = k else mb_recv_loop a timeout k = Some (res, k'))"
  by (auto simp: rt_mb_recv_def)

lemma rt_mb_send_wait_ok:
  assumes w: "wf_kernel lo k" and lo: "lo \<le> 1" and cur: "run_ready k"
    and flag: "ipc_flag a k = RT_IPC_FLAG_FIFO \<or> ipc_flag a k = RT_IPC_FLAG_PRIO"
    and inv: "mb_inv a k" and r: "rt_mb_send_wait a v timeout k = Some (res, k')"
  shows "wf_kernel lo k'" "mb_inv a k'" "lock_nest k = 0 \<Longrightarrow> run_ready k'"
    "mb_contents a k' = (if res = Ret RT_EOK then mb_contents a k @ [v] else mb_contents a k)"
    "res = Ret RT_EOK \<longleftrightarrow> length (mb_contents a k) < mb_capacity a k"
    "res = Wait (t, tm, st) \<Longrightarrow> waiting (SuspSender a) t k'"
proof -
  let ?full = "mb_entry (mailboxes k a) = mb_size (mailboxes k a) \<and> timeout = 0"
  have "wf_kernel lo k' \<and> mb_inv a k' \<and> (lock_nest k = 0 \<longrightarrow> run_ready k') \<and>
    mb_contents a k' = (if res = Ret RT_EOK then mb_contents a k @ [v] else mb_contents a k) \<and>
    (res = Ret RT_EOK \<longleftrightarrow> length (mb_contents a k) < mb_capacity a k) \<and>
    (res = Wait (t, tm, st) \<longrightarrow> waiting (SuspSender a) t k')"
  proof (cases ?full)
    case True
    then have "res = Ret (- RT_EFULL)" "k' = k" using r by (simp_all add: rt_mb_send_wait_eq)
    then show ?thesis using w cur inv True by (simp add: length_mb_contents mb_capacity_def)
  next
    case False
    then have "mb_send_loop a v timeout k = Some (res, k')" using r by (simp only: rt_mb_send_wait_eq if_False)
    from mb_send_loop_ok[OF w lo cur flag inv this] show ?thesis by blast
  qed
  then show "wf_kernel lo k'" "mb_inv a k'" "lock_nest k = 0 \<Longrightarrow> run_ready k'"
    "mb_contents a k' = (if res = Ret RT_EOK then mb_contents a k @ [v] else mb_contents a k)"
    "res = Ret RT_EOK \<longleftrightarrow> length (mb_contents a k) < mb_capacity a k"
    "res = Wait (t, tm, st) \<Longrightarrow> waiting (SuspSender a) t k'" by blast+
qed

lemma rt_mb_recv_ok:
  assumes w: "wf_kernel lo k" and lo: "lo \<le> 1" and cur: "run_ready k"
    and flag: "ipc_flag a k = RT_IPC_FLAG_FIFO \<or> ipc_flag a k = RT_IPC_FLAG_PRIO"
    and inv: "mb_inv a k" and r: "rt_mb_recv a timeout k = Some (res, k')"
  shows "wf_kernel lo k'" "mb_inv a k'" "lock_nest k = 0 \<Longrightarrow> run_ready k'"
    "case mb_contents a k of
       [] \<Rightarrow> mb_contents a k' = [] \<and> (\<forall>v. res \<noteq> Ret (RT_EOK, v))
     | v # vs \<Rightarrow> mb_contents a k' = vs \<and> res = Ret (RT_EOK, Some v)"
    "res = Wait (t, tm, st) \<Longrightarrow> waiting (Susp a) t k'"
proof -
  have "wf_kernel lo k' \<and> mb_inv a k' \<and> (lock_nest k = 0 \<longrightarrow> run_ready k') \<and>
    (case mb_contents a k of
       [] \<Rightarrow> mb_contents a k' = [] \<and> (\<forall>v. res \<noteq> Ret (RT_EOK, v))
     | v # vs \<Rightarrow> mb_contents a k' = vs \<and> res = Ret (RT_EOK, Some v)) \<and>
    (res = Wait (t, tm, st) \<longrightarrow> waiting (Susp a) t k')"
  proof (cases "mb_entry (mailboxes k a) = 0 \<and> timeout = 0")
    case True
    then have c: "res = Ret (- RT_ETIMEOUT, None)" "k' = k" using r by (simp_all add: rt_mb_recv_eq)
    have "mb_contents a k = []" using True length_mb_contents[of a k] by simp
    then show ?thesis using w cur inv c by simp
  next
    case False
    then have "mb_recv_loop a timeout k = Some (res, k')" using r by (simp only: rt_mb_recv_eq if_False)
    from mb_recv_loop_ok[OF w lo cur flag inv this] show ?thesis by blast
  qed
  then show "wf_kernel lo k'" "mb_inv a k'" "lock_nest k = 0 \<Longrightarrow> run_ready k'"
    "case mb_contents a k of
       [] \<Rightarrow> mb_contents a k' = [] \<and> (\<forall>v. res \<noteq> Ret (RT_EOK, v))
     | v # vs \<Rightarrow> mb_contents a k' = vs \<and> res = Ret (RT_EOK, Some v)"
    "res = Wait (t, tm, st) \<Longrightarrow> waiting (Susp a) t k'" by blast+
qed

section \<open>Resetting, creating and deleting\<close>

text \<open>Both queues of a mailbox are emptied.\<close>

lemma mb_resume_both:
  assumes w: "wf_kernel lo k" and r: "rt_ipc_list_resume_all (Susp a) k = Some k1"
    "rt_ipc_list_resume_all (SuspSender a) k1 = Some k2"
  shows "wf_kernel lo k2" "lists k2 (Susp a) = []" "lists k2 (SuspSender a) = []" "ipc_frame k k2"
proof -
  have 1: "wf_kernel lo k1" "lists k1 (Susp a) = []" "ipc_frame k k1"
    using rt_ipc_list_resume_all_ok[OF w wait_queue_Susp(1), of a] r(1) by auto
  have 2: "wf_kernel lo k2" "lists k2 (SuspSender a) = []" "ipc_frame k1 k2"
    "lists k2 (Susp a) = lists k1 (Susp a)"
    using rt_ipc_list_resume_all_ok[OF 1(1) wait_queue_Susp(2), of a] r(2) by auto
  show "wf_kernel lo k2" "lists k2 (Susp a) = []" "lists k2 (SuspSender a) = []" "ipc_frame k k2"
    using 1 2 ipc_frame_trans by auto
qed

lemma rt_mb_control_ok:
  assumes w: "wf_kernel lo k" and r: "rt_mb_control a cmd k = Some (e, k')"
  shows "wf_kernel lo k'" "cmd = RT_IPC_CMD_RESET \<Longrightarrow> mb_inv a k' \<and> mb_contents a k' = []"
proof -
  have "wf_kernel lo k' \<and> (cmd = RT_IPC_CMD_RESET \<longrightarrow> mb_inv a k' \<and> mb_contents a k' = [])"
  proof (cases "cmd = RT_IPC_CMD_RESET")
    case True
    let ?f = "\<lambda>m. m\<lparr>mb_entry := 0, in_offset := 0, out_offset := 0\<rparr>"
    obtain k1 k2 where k: "rt_ipc_list_resume_all (Susp a) k = Some k1"
      "rt_ipc_list_resume_all (SuspSender a) k1 = Some k2" "rt_schedule (upd_mb a ?f k2) = Some k'"
      using r True by (auto simp: rt_mb_control_def bind_eq_Some_conv)
    have "wf_kernel lo (upd_mb a ?f k2)" using mb_resume_both(1)[OF w k(1,2)] by simp
    moreover have "mb_inv a (upd_mb a ?f k2)" "mb_contents a (upd_mb a ?f k2) = []"
      by (auto simp: mb_inv_def mb_contents_def Let_def)
    ultimately show ?thesis
      using wf_kernel_schedule[OF _ k(3)] mb_frame[OF ipc_frame_schedule[OF k(3)]] by simp
  next
    case False
    then show ?thesis using r w by (simp add: rt_mb_control_def)
  qed
  then show "wf_kernel lo k'" "cmd = RT_IPC_CMD_RESET \<Longrightarrow> mb_inv a k' \<and> mb_contents a k' = []" by auto
qed

lemma rt_mb_init_ok:
  assumes w: "wf_kernel lo k" and t: "Obj a \<notin> set (timer_list k)"
    and r: "rt_mb_init a name p sz flag k = Some (e, k')"
  shows "wf_kernel lo k'" "mb_inv a k'" "mb_contents a k' = []" "mb_capacity a k' = unat (ucast sz :: u16)"
proof -
  obtain k1 where k1: "rt_object_init (Obj a) RT_Object_Class_MailBox name k = Some k1"
    "mb_setup a p sz flag k1 = Some k'"
    using r unfolding rt_mb_init_def bind_eq_Some_conv by blast
  have n: "Obj a \<notin> set (timer_list k1)" using t rt_object_init_frame(4)[OF k1(1)] by simp
  have k': "k' = upd_mb a (\<lambda>_. \<lparr>mb_pool = p, mb_size = ucast sz, mb_entry = 0, in_offset = 0,
      out_offset = 0\<rparr>) (upd_flag a flag k1)"
    using k1(2) by (auto simp: mb_setup_def rt_ipc_object_init_def)
  show "wf_kernel lo k'" unfolding k'
    using wf_kernel_upd_flag[OF wf_kernel_object_init[OF w k1(1)] n] by simp
  show "mb_inv a k'" "mb_contents a k' = []" "mb_capacity a k' = unat (ucast sz :: u16)"
    by (auto simp: k' mb_inv_def mb_contents_def mb_capacity_def Let_def)
qed

lemma wf_kernel_mb_detach:
  assumes w: "wf_kernel lo k" and r: "rt_mb_detach a k = Some (e, k')"
  shows "wf_kernel lo k'"
proof -
  obtain k1 k2 where k: "rt_ipc_list_resume_all (Susp a) k = Some k1"
    "rt_ipc_list_resume_all (SuspSender a) k1 = Some k2" "k' = rt_object_detach (Obj a) k2"
    using r by (auto simp: rt_mb_detach_def bind_eq_Some_conv)
  show ?thesis unfolding k(3) by (rule wf_kernel_object_detach[OF mb_resume_both(1)[OF w k(1,2)]])
qed

lemma wf_kernel_mb_delete:
  assumes w: "wf_kernel lo k" and r: "rt_mb_delete a k = Some (e, k')"
  shows "wf_kernel lo k'"
proof -
  obtain k1 k2 k3 where k: "rt_ipc_list_resume_all (Susp a) k = Some k1"
    "rt_ipc_list_resume_all (SuspSender a) k1 = Some k2" "k_free (mb_pool (mailboxes k2 a)) k2 = Some k3"
    "rt_object_delete a k3 = Some k'"
    using r unfolding rt_mb_delete_def bind_eq_Some_conv by blast
  have "wf_kernel lo k3" using mb_resume_both(1)[OF w k(1,2)] k(3) by (auto simp: k_free_eq_Some)
  then show ?thesis by (rule wf_kernel_object_delete[OF _ k(4)])
qed

lemma wf_kernel_mb_create:
  assumes w: "wf_kernel lo k" and r: "rt_mb_create name sz flag k = Some (b, k')"
    and t: "\<And>a. Obj a \<in> set (timer_list k) \<Longrightarrow> a \<noteq> 0 \<Longrightarrow>
      \<forall>k1. rt_object_allocate RT_Object_Class_MailBox name k \<noteq> Some (a, k1)"
  shows "wf_kernel lo k'"
proof -
  obtain a k1 where k1: "rt_object_allocate RT_Object_Class_MailBox name k = Some (a, k1)"
    and c: "(if a = 0 then Some (0, k1)
     else do {
       let k = upd_flag a flag k1;
       k \<leftarrow> rt_ipc_object_init a k;
       let k = upd_mb a (\<lambda>m. m\<lparr>mb_size := ucast sz\<rparr>) k;
       (p, k) \<leftarrow> k_malloc (unat (mb_size (mailboxes k a)) * 4) k;
       let k = upd_mb a (\<lambda>m. m\<lparr>mb_pool := p\<rparr>) k;
       if p = 0 then do {
         k \<leftarrow> rt_object_delete a k;
         Some (0, k)
       } else do {
         let k = upd_mb a (\<lambda>m. m\<lparr>mb_entry := 0, in_offset := 0, out_offset := 0\<rparr>) k;
         RT_ASSERT (lists k (SuspSender a) = []);
         Some (a, k)
       }
     }) = Some (b, k')"
    using r by (auto simp: rt_mb_create_def bind_eq_Some_conv)
  show ?thesis
  proof (cases "a = 0")
    case True
    then have e: "k' = k1" using c by simp
    from k1 show ?thesis
    proof (cases rule: rt_object_allocate_cases)
      case failed
      then show ?thesis using w e by simp
    next
      case linked
      then show ?thesis using True by simp
    qed
  next
    case False
    have ta: "Obj a \<notin> set (timer_list k)" using t False k1 by blast
    have w1: "wf_kernel lo k1" by (rule wf_kernel_allocate[OF w k1 ta])
    have "Obj a \<notin> set (timer_list k1)" using ta rt_object_allocate_frame(3)[OF k1] by simp
    then have w2: "wf_kernel lo (upd_mb a (\<lambda>m. m\<lparr>mb_size := ucast sz\<rparr>) (upd_flag a flag k1))"
      using wf_kernel_upd_flag[OF w1] by simp
    from c False obtain p k3 where
      m: "k_malloc (unat (ucast sz :: u16) * 4)
        (upd_mb a (\<lambda>m. m\<lparr>mb_size := ucast sz\<rparr>) (upd_flag a flag k1)) = Some (p, k3)"
      and d: "if p = 0 then rt_object_delete a (upd_mb a (\<lambda>m. m\<lparr>mb_pool := p\<rparr>) k3) = Some k'
        else k' = upd_mb a (\<lambda>m. m\<lparr>mb_entry := 0, in_offset := 0, out_offset := 0\<rparr>)
          (upd_mb a (\<lambda>m. m\<lparr>mb_pool := p\<rparr>) k3)"
      by (auto simp: rt_ipc_object_init_def Let_def bind_eq_Some_conv split: if_splits)
    have w3: "wf_kernel lo k3" using m w2 by (auto simp: k_malloc_eq_Some)
    show ?thesis
    proof (cases "p = 0")
      case True
      then show ?thesis using d wf_kernel_object_delete[of lo "upd_mb a (\<lambda>m. m\<lparr>mb_pool := p\<rparr>) k3" a k'] w3
        by simp
    qed (use d w3 in simp)
  qed
qed

end
