(* ===== verification/MemChain.thy ===== *)
theory MemChain
  imports Ring
begin

text \<open>
  Lists threaded through memory by 32-bit words, as the message queue and the memory pool keep
  their blocks: the word at the address of a block is the address of the next one, 0 at the end.
\<close>

fun mchain :: "cmem \<Rightarrow> nat \<Rightarrow> nat list \<Rightarrow> bool" where
  "mchain m p [] \<longleftrightarrow> p = 0"
| "mchain m p (x # xs) \<longleftrightarrow> p = x \<and> x \<noteq> 0 \<and> mchain m (unat (load32 x m)) xs"

definition apart :: "nat \<Rightarrow> nat \<Rightarrow> nat \<Rightarrow> nat \<Rightarrow> bool" where
  "apart x n y l \<longleftrightarrow> x + n \<le> y \<or> y + l \<le> x"

lemma mchain_cong:
  "(\<And>x. x \<in> set xs \<Longrightarrow> load32 x m' = load32 x m) \<Longrightarrow> mchain m' p xs = mchain m p xs"
  by (induction xs arbitrary: p) auto

lemma load32_cong:
  assumes "\<And>i. i < 4 \<Longrightarrow> m' (a + i) = m (a + i)"
  shows "load32 a m' = load32 a m"
  using assms[of 0] assms[of 1] assms[of 2] assms[of 3] by (simp add: load32_def)

lemma mchain_unique: "mchain m p xs \<Longrightarrow> mchain m p ys \<Longrightarrow> xs = ys"
proof (induction xs arbitrary: p ys)
  case Nil
  then show ?case by (cases ys) auto
next
  case (Cons x xs)
  then show ?case by (cases ys) auto
qed

lemma load32_store32_apart: "apart x 4 y 4 \<Longrightarrow> load32 y (store32 x v m) = load32 y m"
  using load32_store32_other by (auto simp: apart_def)

lemma load32_copy_apart: "apart d n y 4 \<Longrightarrow> load32 y (byte_copy d s n m) = load32 y m"
  by (rule load32_cong) (auto simp: apart_def byte_copy_def)

lemma store32_apart: "apart x 4 y 1 \<Longrightarrow> store32 x v m y = m y"
  by (auto simp: apart_def store32_def)

lemma mchain_snoc:
  assumes "mchain m p xs" "xs \<noteq> []" "0 < x" "x < 2 ^ 32"
    and "\<And>y. y \<in> set (butlast xs) \<Longrightarrow> apart (last xs) 4 y 4" "apart (last xs) 4 x 4"
    and "load32 x m = 0"
  shows "mchain (store32 (last xs) (of_nat x) m) p (xs @ [x])"
  using assms
proof (induction xs arbitrary: p)
  case (Cons y ys)
  show ?case
  proof (cases ys)
    case Nil
    then show ?thesis using Cons.prems by (simp add: unat_of_nat load32_store32_apart)
  next
    case (Cons z zs)
    have "mchain (store32 (last ys) (of_nat x) m) (unat (load32 y m)) (ys @ [x])"
      by (rule Cons.IH) (use Cons.prems Cons in auto)
    moreover have "apart (last ys) 4 y 4" using Cons.prems(5)[of y] Cons by simp
    ultimately show ?thesis using Cons.prems(1) Cons by (simp add: load32_store32_apart)
  qed
qed simp

section \<open>Equal blocks in a row\<close>

definition slot :: "nat \<Rightarrow> nat \<Rightarrow> nat \<Rightarrow> nat \<Rightarrow> bool" where
  "slot pool step n x \<longleftrightarrow> (\<exists>i<n. x = pool + i * step)"

lemma slot_sep:
  assumes "slot pool step n x" "slot pool step n y" "x \<noteq> y"
  shows "x + step \<le> y \<or> y + step \<le> x"
proof -
  obtain i j where ij: "x = pool + i * step" "y = pool + j * step"
    using assms by (auto simp: slot_def)
  then have "i \<noteq> j" using assms(3) by auto
  then consider "Suc i \<le> j" | "Suc j \<le> i" by linarith
  then show ?thesis
  proof cases
    case 1
    then have "Suc i * step \<le> j * step" by (rule mult_right_mono) simp
    then show ?thesis using ij by simp
  next
    case 2
    then have "Suc j * step \<le> i * step" by (rule mult_right_mono) simp
    then show ?thesis using ij by simp
  qed
qed

lemma slot_bound: "slot pool step n x \<Longrightarrow> pool \<le> x \<and> x + step \<le> pool + n * step"
proof -
  assume "slot pool step n x"
  then obtain i where i: "i < n" "x = pool + i * step" by (auto simp: slot_def)
  then have "Suc i * step \<le> n * step" by (intro mult_right_mono) simp_all
  then show ?thesis using i by simp
qed

end
