(* ===== verification/MsgQueue.thy ===== *)
theory MsgQueue
  imports Mailbox MemChain
begin

text \<open>
  Message queues (\<^verbatim>\<open>src/ipc.c\<close>, lines 1726 to 2284): equal message slots in memory, each behind a
  word that links it into the queue or into the list of free slots. Buffers are memory addresses,
  and messages are copied by \<^verbatim>\<open>rt_memcpy\<close>.
\<close>

section \<open>The operations\<close>

definition msg_next :: "nat \<Rightarrow> kernel \<Rightarrow> nat" where
  "msg_next msg k = unat (load32 msg (kram k))"

definition set_msg_next :: "nat \<Rightarrow> nat \<Rightarrow> kernel \<Rightarrow> kernel" where
  "set_msg_next msg n k = upd_ram (store32 msg (of_nat n)) k"

definition msg_step :: "rt_messagequeue \<Rightarrow> nat" where
  "msg_step m = unat (mq_msg_size m) + 4"

text \<open>The loop that puts all slots on the free list: \<open>n\<close> rounds of it.\<close>

fun mq_free_slots :: "nat \<Rightarrow> nat \<Rightarrow> kernel \<Rightarrow> kernel" where
  "mq_free_slots a 0 k = k"
| "mq_free_slots a (Suc n) k =
     (let k = mq_free_slots a n k;
          m = mqueues k a;
          head = mq_pool m + n * msg_step m;
          k = set_msg_next head (msg_queue_free m) k
      in upd_mq a (\<lambda>m. m\<lparr>msg_queue_free := head\<rparr>) k)"

definition mq_fill :: "nat \<Rightarrow> kernel \<Rightarrow> kernel" where
  "mq_fill a k =
     (let k = upd_mq a (\<lambda>m. m\<lparr>msg_queue_head := 0, msg_queue_tail := 0, msg_queue_free := 0\<rparr>) k;
          k = mq_free_slots a (unat (max_msgs (mqueues k a))) k
      in upd_mq a (\<lambda>m. m\<lparr>mq_entry := 0\<rparr>) k)"

definition rt_mq_init ::
  "nat \<Rightarrow> u8 list \<Rightarrow> nat \<Rightarrow> nat \<Rightarrow> nat \<Rightarrow> u8 \<Rightarrow> kernel \<Rightarrow> (rt_err \<times> kernel) option" where
  "rt_mq_init a name msgpool msg_size pool_size flag k = do {
     RT_ASSERT (a \<noteq> 0);
     k \<leftarrow> rt_object_init (Obj a) RT_Object_Class_MessageQueue name k;
     let k = upd_flag a flag k;
     k \<leftarrow> rt_ipc_object_init a k;
     let k = upd_mq a (\<lambda>m. m\<lparr>mq_pool := msgpool, mq_msg_size := of_nat (align4 msg_size)\<rparr>) k;
     let k = upd_mq a (\<lambda>m. m\<lparr>max_msgs := of_nat (pool_size div msg_step m)\<rparr>) k;
     Some (RT_EOK, mq_fill a k)
   }"

definition rt_mq_detach :: "nat \<Rightarrow> kernel \<Rightarrow> (rt_err \<times> kernel) option" where
  "rt_mq_detach a k = do {
     k \<leftarrow> ipc_detach a k;
     Some (RT_EOK, k)
   }"

definition rt_mq_delete :: "nat \<Rightarrow> kernel \<Rightarrow> (rt_err \<times> kernel) option" where
  "rt_mq_delete a k = do {
     RT_DEBUG_NOT_IN_INTERRUPT k;
     RT_ASSERT (a \<noteq> 0);
     k \<leftarrow> rt_ipc_list_resume_all (Susp a) k;
     k \<leftarrow> k_free (mq_pool (mqueues k a)) k;
     k \<leftarrow> rt_object_delete a k;
     Some (RT_EOK, k)
   }"

definition rt_mq_create :: "u8 list \<Rightarrow> nat \<Rightarrow> u32 \<Rightarrow> u8 \<Rightarrow> kernel \<Rightarrow> (nat \<times> kernel) option" where
  "rt_mq_create name msg_size msgs flag k = do {
     RT_DEBUG_NOT_IN_INTERRUPT k;
     (a, k) \<leftarrow> rt_object_allocate RT_Object_Class_MessageQueue name k;
     if a = 0 then Some (0, k)
     else do {
       let k = upd_flag a flag k;
       k \<leftarrow> rt_ipc_object_init a k;
       let k = upd_mq a (\<lambda>m. m\<lparr>mq_msg_size := of_nat (align4 msg_size), max_msgs := ucast msgs\<rparr>) k;
       (p, k) \<leftarrow> k_malloc (msg_step (mqueues k a) * unat (max_msgs (mqueues k a))) k;
       let k = upd_mq a (\<lambda>m. m\<lparr>mq_pool := p\<rparr>) k;
       if p = 0 then do {
         (_, k) \<leftarrow> rt_mq_delete a k;
         Some (0, k)
       } else Some (a, mq_fill a k)
     }
   }"

definition mq_append :: "nat \<Rightarrow> nat \<Rightarrow> nat \<Rightarrow> nat \<Rightarrow> kernel \<Rightarrow> kernel" where
  "mq_append a msg buffer sz k =
     (let k = upd_mq a (\<lambda>m. m\<lparr>msg_queue_free := msg_next msg k\<rparr>) k;
          k = set_msg_next msg 0 k;
          k = upd_ram (rt_memcpy (msg + 4) buffer sz) k;
          k = (if msg_queue_tail (mqueues k a) \<noteq> 0
               then set_msg_next (msg_queue_tail (mqueues k a)) msg k else k);
          k = upd_mq a (\<lambda>m. m\<lparr>msg_queue_tail := msg\<rparr>) k;
          k = (if msg_queue_head (mqueues k a) = 0
               then upd_mq a (\<lambda>m. m\<lparr>msg_queue_head := msg\<rparr>) k else k)
      in upd_mq a (\<lambda>m. m\<lparr>mq_entry := mq_entry m + 1\<rparr>) k)"

definition mq_prepend :: "nat \<Rightarrow> nat \<Rightarrow> nat \<Rightarrow> nat \<Rightarrow> kernel \<Rightarrow> kernel" where
  "mq_prepend a msg buffer sz k =
     (let k = upd_mq a (\<lambda>m. m\<lparr>msg_queue_free := msg_next msg k\<rparr>) k;
          k = upd_ram (rt_memcpy (msg + 4) buffer sz) k;
          k = set_msg_next msg (msg_queue_head (mqueues k a)) k;
          k = upd_mq a (\<lambda>m. m\<lparr>msg_queue_head := msg\<rparr>) k;
          k = (if msg_queue_tail (mqueues k a) = 0
               then upd_mq a (\<lambda>m. m\<lparr>msg_queue_tail := msg\<rparr>) k else k)
      in upd_mq a (\<lambda>m. m\<lparr>mq_entry := mq_entry m + 1\<rparr>) k)"

definition rt_mq_send :: "nat \<Rightarrow> nat \<Rightarrow> nat \<Rightarrow> kernel \<Rightarrow> (rt_err \<times> kernel) option" where
  "rt_mq_send a buffer sz k = do {
     RT_ASSERT (a \<noteq> 0);
     RT_ASSERT (buffer \<noteq> 0);
     RT_ASSERT (sz \<noteq> 0);
     if sz > unat (mq_msg_size (mqueues k a)) then Some (- RT_ERROR, k)
     else if msg_queue_free (mqueues k a) = 0 then Some (- RT_EFULL, k)
     else do {
       k \<leftarrow> resume_one_and_schedule (Susp a) (mq_append a (msg_queue_free (mqueues k a)) buffer sz k);
       Some (RT_EOK, k)
     }
   }"

definition rt_mq_urgent :: "nat \<Rightarrow> nat \<Rightarrow> nat \<Rightarrow> kernel \<Rightarrow> (rt_err \<times> kernel) option" where
  "rt_mq_urgent a buffer sz k = do {
     RT_ASSERT (a \<noteq> 0);
     RT_ASSERT (buffer \<noteq> 0);
     RT_ASSERT (sz \<noteq> 0);
     if sz > unat (mq_msg_size (mqueues k a)) then Some (- RT_ERROR, k)
     else if msg_queue_free (mqueues k a) = 0 then Some (- RT_EFULL, k)
     else do {
       k \<leftarrow> resume_one_and_schedule (Susp a) (mq_prepend a (msg_queue_free (mqueues k a)) buffer sz k);
       Some (RT_EOK, k)
     }
   }"

text \<open>Unlinking the first message and putting its slot back on the free list.\<close>

definition mq_unlink :: "nat \<Rightarrow> kernel \<Rightarrow> kernel" where
  "mq_unlink a k =
     (let msg = msg_queue_head (mqueues k a);
          k = upd_mq a (\<lambda>m. m\<lparr>msg_queue_head := msg_next msg k\<rparr>) k
      in if msg_queue_tail (mqueues k a) = msg then upd_mq a (\<lambda>m. m\<lparr>msg_queue_tail := 0\<rparr>) k else k)"

definition mq_give_back :: "nat \<Rightarrow> nat \<Rightarrow> kernel \<Rightarrow> kernel" where
  "mq_give_back a msg k =
     (let k = set_msg_next msg (msg_queue_free (mqueues k a)) k
      in upd_mq a (\<lambda>m. m\<lparr>msg_queue_free := msg\<rparr>) k)"

definition mq_take :: "nat \<Rightarrow> nat \<Rightarrow> nat \<Rightarrow> kernel \<Rightarrow> kernel option" where
  "mq_take a buffer sz k = do {
     let msg = msg_queue_head (mqueues k a);
     RT_ASSERT (msg \<noteq> 0);
     let k = mq_unlink a k;
     let k = upd_mq a (\<lambda>m. m\<lparr>mq_entry := mq_entry m - 1\<rparr>) k;
     let k = upd_ram (rt_memcpy buffer (msg + 4) (min sz (unat (mq_msg_size (mqueues k a))))) k;
     Some (mq_give_back a msg k)
   }"

definition mq_recv_loop ::
  "nat \<Rightarrow> nat \<Rightarrow> nat \<Rightarrow> int \<Rightarrow> kernel \<Rightarrow> ((rt_err, wait_state) outcome \<times> kernel) option" where
  "mq_recv_loop a buffer sz timeout k =
     (if mq_entry (mqueues k a) = 0 then do {
        RT_DEBUG_IN_THREAD_CONTEXT k;
        t \<leftarrow> rt_thread_self k;
        let k = upd_thread t (\<lambda>th. th\<lparr>error := RT_EOK\<rparr>) k;
        if timeout = 0 then
          Some (Ret (- RT_ETIMEOUT), upd_thread t (\<lambda>th. th\<lparr>error := - RT_ETIMEOUT\<rparr>) k)
        else do {
          let start = tick k;
          k \<leftarrow> block_current (Susp a) (ipc_flag a k) timeout t k;
          Some (Wait (t, timeout, start), k)
        }
      } else do {
        k \<leftarrow> mq_take a buffer sz k;
        Some (Ret RT_EOK, k)
      })"

definition rt_mq_recv ::
  "nat \<Rightarrow> nat \<Rightarrow> nat \<Rightarrow> int \<Rightarrow> kernel \<Rightarrow> ((rt_err, wait_state) outcome \<times> kernel) option" where
  "rt_mq_recv a buffer sz timeout k = do {
     RT_ASSERT (a \<noteq> 0);
     RT_ASSERT (buffer \<noteq> 0);
     RT_ASSERT (sz \<noteq> 0);
     if mq_entry (mqueues k a) = 0 \<and> timeout = 0 then Some (Ret (- RT_ETIMEOUT), k)
     else mq_recv_loop a buffer sz timeout k
   }"

definition rt_mq_recv_cont ::
  "nat \<Rightarrow> nat \<Rightarrow> nat \<Rightarrow> wait_state \<Rightarrow> kernel \<Rightarrow> ((rt_err, wait_state) outcome \<times> kernel) option" where
  "rt_mq_recv_cont a buffer sz w k =
     (case w of (t, timeout, start) \<Rightarrow>
        if error (thread k t) \<noteq> RT_EOK then Some (Ret (error (thread k t)), k)
        else mq_recv_loop a buffer sz (remaining_time timeout start k) k)"

partial_function (option) mq_release_all :: "nat \<Rightarrow> kernel \<Rightarrow> kernel option" where
  "mq_release_all a k =
     (if msg_queue_head (mqueues k a) \<noteq> 0
      then mq_release_all a (mq_give_back a (msg_queue_head (mqueues k a)) (mq_unlink a k))
      else Some k)"

definition rt_mq_control :: "nat \<Rightarrow> nat \<Rightarrow> kernel \<Rightarrow> (rt_err \<times> kernel) option" where
  "rt_mq_control a cmd k = do {
     RT_ASSERT (a \<noteq> 0);
     if cmd = RT_IPC_CMD_RESET then do {
       k \<leftarrow> rt_ipc_list_resume_all (Susp a) k;
       k \<leftarrow> mq_release_all a k;
       let k = upd_mq a (\<lambda>m. m\<lparr>mq_entry := 0\<rparr>) k;
       k \<leftarrow> rt_schedule k;
       Some (RT_EOK, k)
     } else Some (- RT_ERROR, k)
   }"

section \<open>The representation\<close>

text \<open>The slots \<open>q\<close> in the order of the queue and the free slots \<open>f\<close>.\<close>

definition mq_rep :: "nat \<Rightarrow> nat list \<Rightarrow> nat list \<Rightarrow> kernel \<Rightarrow> bool" where
  "mq_rep a q f k \<longleftrightarrow>
     (let m = mqueues k a; n = unat (max_msgs m) in
      mchain (kram k) (msg_queue_head m) q \<and> mchain (kram k) (msg_queue_free m) f \<and>
      msg_queue_tail m = (if q = [] then 0 else last q) \<and>
      distinct (q @ f) \<and> (\<forall>x\<in>set (q @ f). slot (mq_pool m) (msg_step m) n x) \<and>
      length (q @ f) = n \<and> unat (mq_entry m) = length q \<and>
      0 < mq_pool m \<and> mq_pool m + n * msg_step m \<le> 2 ^ 32)"

definition msg_bytes :: "nat \<Rightarrow> nat \<Rightarrow> cmem \<Rightarrow> u8 list" where
  "msg_bytes x n m = map (\<lambda>i. m (x + 4 + i)) [0..<n]"

definition mq_contents :: "nat \<Rightarrow> nat list \<Rightarrow> kernel \<Rightarrow> u8 list list" where
  "mq_contents a q k = map (\<lambda>x. msg_bytes x (unat (mq_msg_size (mqueues k a))) (kram k)) q"

lemma upd_mq_sel [simp]:
  "mqueues (upd_mq a f k) = (mqueues k)(a := f (mqueues k a))" "lists (upd_mq a f k) = lists k"
  "thread (upd_mq a f k) = thread k" "current (upd_mq a f k) = current k" "kheap (upd_mq a f k) = kheap k"
  "lock_nest (upd_mq a f k) = lock_nest k" "timer_list (upd_mq a f k) = timer_list k"
  "kram (upd_mq a f k) = kram k"
  by (simp_all add: upd_mq_def kram_def)

lemma wf_kernel_upd_mq [simp]: "wf_kernel lo k \<Longrightarrow> wf_kernel lo (upd_mq a f k)"
  by (rule wf_kernel_same[of lo k]) (simp_all add: upd_mq_def)

text \<open>The outcome of appending and prepending, with the memory written out.\<close>

lemma mq_append_eq:
  "mqueues (mq_append a msg b sz k) =
     (mqueues k)(a := (mqueues k a)\<lparr>msg_queue_free := msg_next msg k, msg_queue_tail := msg,
        msg_queue_head := (if msg_queue_head (mqueues k a) = 0 then msg else msg_queue_head (mqueues k a)),
        mq_entry := mq_entry (mqueues k a) + 1\<rparr>)"
  "kram (mq_append a msg b sz k) =
     (let m = rt_memcpy (msg + 4) b sz (store32 msg 0 (kram k)) in
      if msg_queue_tail (mqueues k a) \<noteq> 0 then store32 (msg_queue_tail (mqueues k a)) (of_nat msg) m else m)"
  by (simp_all add: mq_append_def set_msg_next_def Let_def)

lemma mq_prepend_eq:
  "mqueues (mq_prepend a msg b sz k) =
     (mqueues k)(a := (mqueues k a)\<lparr>msg_queue_free := msg_next msg k, msg_queue_head := msg,
        msg_queue_tail := (if msg_queue_tail (mqueues k a) = 0 then msg else msg_queue_tail (mqueues k a)),
        mq_entry := mq_entry (mqueues k a) + 1\<rparr>)"
  "kram (mq_prepend a msg b sz k) =
     store32 msg (of_nat (msg_queue_head (mqueues k a))) (rt_memcpy (msg + 4) b sz (kram k))"
  by (simp_all add: mq_prepend_def set_msg_next_def Let_def)

section \<open>Changes within one slot\<close>

definition confined :: "nat \<Rightarrow> nat \<Rightarrow> cmem \<Rightarrow> cmem \<Rightarrow> bool" where
  "confined x n m m' \<longleftrightarrow> (\<forall>z. z < x \<or> x + n \<le> z \<longrightarrow> m' z = m z)"

lemma confined_trans: "confined x n m m' \<Longrightarrow> confined x n m' m'' \<Longrightarrow> confined x n m m''"
  by (simp add: confined_def)

lemma confined_store32: "4 \<le> n \<Longrightarrow> confined x n m (store32 x v m)"
  by (auto simp: confined_def store32_def)

lemma confined_copy: "sz + 4 \<le> n \<Longrightarrow> confined x n m (byte_copy (x + 4) b sz m)"
  by (auto simp: confined_def byte_copy_def)

lemma confined_load32: "confined x n m m' \<Longrightarrow> apart x n y 4 \<Longrightarrow> load32 y m' = load32 y m"
  by (rule load32_cong) (auto simp: confined_def apart_def)

lemma slot_apart:
  assumes "slot p st n x" "slot p st n y" "x \<noteq> y" "c \<le> st" "d \<le> st"
  shows "apart x c y d"
  using slot_sep[OF assms(1-3)] assms(4,5) by (auto simp: apart_def)

lemma mchain_confined:
  assumes "confined x st m m'" "slot p st n x" "4 \<le> st" "x \<notin> set xs"
    and "\<And>y. y \<in> set xs \<Longrightarrow> slot p st n y"
  shows "mchain m' r xs = mchain m r xs"
proof (rule mchain_cong)
  fix y assume y: "y \<in> set xs"
  then have "y \<noteq> x" using assms(4) by blast
  then have "apart x st y 4" using slot_apart[OF assms(2) assms(5)[OF y], of st 4] assms(3) by auto
  then show "load32 y m' = load32 y m" by (rule confined_load32[OF assms(1)])
qed

lemma msg_bytes_confined:
  assumes "confined x st m m'" "apart x st y st" "n + 4 \<le> st"
  shows "msg_bytes y n m' = msg_bytes y n m"
  using assms by (auto simp: msg_bytes_def confined_def apart_def)

lemma msg_bytes_store:
  assumes "slot p st c t" "slot p st c y" "st = n + 4"
  shows "msg_bytes y n (store32 t v m) = msg_bytes y n m"
proof (cases "t = y")
  case True
  then show ?thesis by (auto simp: msg_bytes_def store32_def)
next
  case False
  have "apart t st y st" by (rule slot_apart[OF assms(1,2) False]) simp_all
  then show ?thesis
    by (intro msg_bytes_confined[OF confined_store32]) (use assms(3) in auto)
qed

lemma msg_bytes_copy:
  assumes "sz \<le> n"
  shows "msg_bytes x n (byte_copy (x + 4) b sz m) =
    map (\<lambda>i. m (b + i)) [0..<sz] @ drop sz (msg_bytes x n m)"
proof (rule nth_equalityI)
  fix i assume "i < length (msg_bytes x n (byte_copy (x + 4) b sz m))"
  then have "i < n" by (simp add: msg_bytes_def)
  then show "msg_bytes x n (byte_copy (x + 4) b sz m) ! i =
    (map (\<lambda>i. m (b + i)) [0..<sz] @ drop sz (msg_bytes x n m)) ! i"
    using assms by (auto simp: msg_bytes_def byte_copy_def nth_append)
qed (use assms in \<open>simp add: msg_bytes_def\<close>)

lemma mq_repD:
  assumes "mq_rep a q f k"
  defines "m \<equiv> mqueues k a"
  shows "mchain (kram k) (msg_queue_head m) q" "mchain (kram k) (msg_queue_free m) f"
    "msg_queue_tail m = (if q = [] then 0 else last q)" "distinct (q @ f)"
    "x \<in> set (q @ f) \<Longrightarrow> slot (mq_pool m) (msg_step m) (unat (max_msgs m)) x"
    "length (q @ f) = unat (max_msgs m)" "unat (mq_entry m) = length q" "0 < mq_pool m"
    "mq_pool m + unat (max_msgs m) * msg_step m \<le> 2 ^ 32"
  using assms by (auto simp: mq_rep_def Let_def)

lemma slot_addr:
  assumes "slot p st n x" "0 < p" "p + n * st \<le> 2 ^ 32" "4 \<le> st"
  shows "0 < x" "x < 2 ^ 32"
  using slot_bound[OF assms(1)] assms by auto

section \<open>Sending\<close>

text \<open>The buffer of the caller lies outside the pool.\<close>

definition outside_pool :: "nat \<Rightarrow> nat \<Rightarrow> nat \<Rightarrow> kernel \<Rightarrow> bool" where
  "outside_pool a b sz k \<longleftrightarrow>
     (let m = mqueues k a in apart b sz (mq_pool m) (unat (max_msgs m) * msg_step m))"

lemma memcpy_slot:
  assumes "outside_pool a b sz k" "slot (mq_pool (mqueues k a)) (msg_step (mqueues k a))
      (unat (max_msgs (mqueues k a))) x" "sz + 4 \<le> msg_step (mqueues k a)"
  shows "rt_memcpy (x + 4) b sz m = byte_copy (x + 4) b sz m"
  by (rule rt_memcpy_byte_copy)
    (use assms slot_bound[OF assms(2)] in \<open>auto simp: outside_pool_def apart_def Let_def\<close>)

lemma memcpy_out:
  assumes "outside_pool a b sz k" "slot (mq_pool (mqueues k a)) (msg_step (mqueues k a))
      (unat (max_msgs (mqueues k a))) x" "n \<le> sz" "n + 4 \<le> msg_step (mqueues k a)"
  shows "rt_memcpy b (x + 4) n m = byte_copy b (x + 4) n m"
  by (rule rt_memcpy_byte_copy)
    (use assms slot_bound[OF assms(2)] in \<open>auto simp: outside_pool_def apart_def Let_def\<close>)

lemma entry_room:
  assumes "mq_rep a q (x # f) k"
  shows "unat (mq_entry (mqueues k a) + 1) = Suc (length q)"
proof -
  have "length q < unat (max_msgs (mqueues k a))" "unat (mq_entry (mqueues k a)) = length q"
    using mq_repD(6,7)[OF assms] by auto
  then have "unat (mq_entry (mqueues k a)) + 1 < 2 ^ 16"
    using unsigned_less[of "max_msgs (mqueues k a)", where ?'a = nat] by simp
  then show ?thesis using mq_repD(7)[OF assms] by (simp add: unat_word_ariths)
qed

lemma mq_append_ok:
  assumes rep: "mq_rep a q (x # f) k" and sz: "sz \<le> unat (mq_msg_size (mqueues k a))"
    and out: "outside_pool a b sz k"
  shows "mq_rep a (q @ [x]) f (mq_append a x b sz k)"
    "mq_contents a (q @ [x]) (mq_append a x b sz k) = mq_contents a q k @
       [map (\<lambda>i. kram k (b + i)) [0..<sz] @
        drop sz (msg_bytes x (unat (mq_msg_size (mqueues k a))) (kram k))]"
proof -
  let ?m = "mqueues k a" and ?k = "mq_append a x b sz k"
  let ?st = "msg_step ?m" and ?n = "unat (max_msgs ?m)" and ?z = "unat (mq_msg_size ?m)"
  note r = mq_repD[OF rep]
  have st: "?st = ?z + 4" by (simp add: msg_step_def)
  have sx: "slot (mq_pool ?m) ?st ?n x" by (rule r(5)) simp
  have sl: "slot (mq_pool ?m) ?st ?n y" if "y \<in> set q \<or> y \<in> set f" for y by (rule r(5)) (use that in auto)
  have dist: "x \<notin> set q" "x \<notin> set f" "set q \<inter> set f = {}" "distinct q" using r(4) by auto
  have xa: "0 < x" "x < 2 ^ 32" using slot_addr[OF sx r(8,9)] st by auto
  define m1 where "m1 = byte_copy (x + 4) b sz (store32 x 0 (kram k))"
  have mc: "rt_memcpy (x + 4) b sz (store32 x 0 (kram k)) = m1"
    unfolding m1_def by (rule memcpy_slot[OF out sx]) (use sz st in simp)
  have conf: "confined x ?st (kram k) m1" unfolding m1_def
    by (rule confined_trans[OF confined_store32 confined_copy]) (use sz st in auto)
  have x0: "load32 x m1 = 0" unfolding m1_def
    by (simp add: load32_copy_apart apart_def)
  have q1: "mchain m1 (msg_queue_head ?m) q" "mchain m1 (msg_next x k) f"
    using mchain_confined[OF conf sx, of q] mchain_confined[OF conf sx, of f] dist sl st r(1,2)
    by (auto simp: msg_next_def)
  have bsep: "map (\<lambda>i. store32 x 0 (kram k) (b + i)) [0..<sz] = map (\<lambda>i. kram k (b + i)) [0..<sz]"
    using out slot_bound[OF sx] st
    by (auto simp: outside_pool_def apart_def Let_def intro!: store32_apart)
  have mx: "msg_bytes x ?z m1 = map (\<lambda>i. kram k (b + i)) [0..<sz] @ drop sz (msg_bytes x ?z (kram k))"
    unfolding m1_def msg_bytes_copy[OF sz] bsep
    by (simp add: msg_bytes_store[OF sx sx st])
  have my: "msg_bytes y ?z m1 = msg_bytes y ?z (kram k)" if "y \<in> set q" for y
    by (rule msg_bytes_confined[OF conf slot_apart[OF sx sl]]) (use that dist st in auto)
  define m2 where "m2 = (if q = [] then m1 else store32 (last q) (of_nat x) m1)"
  have kr: "kram ?k = m2"
  proof (cases "q = []")
    case True
    then show ?thesis using r(3) by (simp add: mq_append_eq mc m2_def)
  next
    case False
    then have "msg_queue_tail ?m = last q" "last q \<noteq> 0"
      using r(3) slot_addr(1)[OF sl r(8,9), of "last q"] st by auto
    then show ?thesis using False by (simp add: mq_append_eq mc m2_def)
  qed
  have hd: "msg_queue_head ?m = 0 \<longleftrightarrow> q = []" using r(1) by (cases q) auto
  have chq: "mchain m2 (if q = [] then x else msg_queue_head ?m) (q @ [x])"
  proof (cases "q = []")
    case True
    then show ?thesis using x0 xa by (simp add: m2_def)
  next
    case False
    then have lq: "last q \<in> set q" by simp
    have ne: "y \<noteq> last q" if "y \<in> set (butlast q)" for y
      using that dist(4) False by (metis append_butlast_last_id distinct_append
          disjoint_iff list.set_intros(1))
    have "apart (last q) 4 y 4" if "y \<in> set (butlast q)" for y
      by (rule slot_apart[OF sl sl]) (use that lq st in_set_butlastD[OF that] ne[OF that] in auto)
    moreover have "apart (last q) 4 x 4" by (rule slot_apart[OF sl sx]) (use lq dist st in auto)
    ultimately show ?thesis
      using mchain_snoc[OF q1(1) False xa] x0 False by (simp add: m2_def)
  qed
  have chf: "mchain m2 (msg_next x k) f"
  proof (cases "q = []")
    case True
    then show ?thesis using q1 by (simp add: m2_def)
  next
    case False
    then have lq: "last q \<in> set q" by simp
    then have lf: "last q \<notin> set f" using dist(3) by blast
    have "mchain (store32 (last q) (of_nat x) m1) (msg_next x k) f = mchain m1 (msg_next x k) f"
      by (rule mchain_confined[OF confined_store32, where p = "mq_pool ?m" and st = ?st and n = ?n])
        (use sl lq lf st in auto)
    then show ?thesis using q1(2) False by (simp add: m2_def)
  qed
  have bytes: "msg_bytes y ?z m2 = msg_bytes y ?z m1" if "y \<in> set (q @ [x])" for y
    using msg_bytes_store[of "mq_pool ?m" ?st ?n "last q" y ?z] sl sx st that
    by (auto simp: m2_def)
  show "mq_rep a (q @ [x]) f ?k"
    using chq chf kr hd dist sl sx r(4,6,8,9) entry_room[OF rep]
    by (auto simp: mq_rep_def Let_def mq_append_eq msg_step_def)
  show "mq_contents a (q @ [x]) ?k = mq_contents a q k @
       [map (\<lambda>i. kram k (b + i)) [0..<sz] @ drop sz (msg_bytes x ?z (kram k))]"
    using bytes my mx by (simp add: mq_contents_def mq_append_eq(1) kr)
qed

lemma mchain_head_addr:
  assumes "mchain m p xs" "\<And>x. x \<in> set xs \<Longrightarrow> x < 2 ^ 32"
  shows "unat (of_nat p :: u32) = p"
proof -
  have "p < 2 ^ 32" using assms by (cases xs) auto
  then show ?thesis by (simp add: unat_of_nat)
qed

lemma mq_prepend_ok:
  assumes rep: "mq_rep a q (x # f) k" and sz: "sz \<le> unat (mq_msg_size (mqueues k a))"
    and out: "outside_pool a b sz k"
  shows "mq_rep a (x # q) f (mq_prepend a x b sz k)"
    "mq_contents a (x # q) (mq_prepend a x b sz k) =
       (map (\<lambda>i. kram k (b + i)) [0..<sz] @
        drop sz (msg_bytes x (unat (mq_msg_size (mqueues k a))) (kram k))) # mq_contents a q k"
proof -
  let ?m = "mqueues k a" and ?k = "mq_prepend a x b sz k"
  let ?st = "msg_step ?m" and ?n = "unat (max_msgs ?m)" and ?z = "unat (mq_msg_size ?m)"
  note r = mq_repD[OF rep]
  have st: "?st = ?z + 4" by (simp add: msg_step_def)
  have sx: "slot (mq_pool ?m) ?st ?n x" by (rule r(5)) simp
  have sl: "slot (mq_pool ?m) ?st ?n y" if "y \<in> set q \<or> y \<in> set f" for y by (rule r(5)) (use that in auto)
  have dist: "x \<notin> set q" "x \<notin> set f" "set q \<inter> set f = {}" "distinct q" using r(4) by auto
  have xa: "0 < x" "x < 2 ^ 32" using slot_addr[OF sx r(8,9)] st by auto
  have ha: "unat (of_nat (msg_queue_head ?m) :: u32) = msg_queue_head ?m"
    by (rule mchain_head_addr[OF r(1)]) (use slot_addr(2)[OF sl r(8,9)] st in auto)
  define m1 where "m1 = byte_copy (x + 4) b sz (kram k)"
  define m2 where "m2 = store32 x (of_nat (msg_queue_head ?m)) m1"
  have mc: "rt_memcpy (x + 4) b sz (kram k) = m1"
    unfolding m1_def by (rule memcpy_slot[OF out sx]) (use sz st in simp)
  then have kr: "kram ?k = m2" by (simp add: mq_prepend_eq m2_def)
  have conf: "confined x ?st (kram k) m2" unfolding m1_def m2_def
    by (rule confined_trans[OF confined_copy confined_store32]) (use sz st in auto)
  have q2: "mchain m2 (msg_queue_head ?m) q" "mchain m2 (msg_next x k) f"
    using mchain_confined[OF conf sx, of q] mchain_confined[OF conf sx, of f] dist sl st r(1,2)
    by (auto simp: msg_next_def)
  then have chq: "mchain m2 x (x # q)" using xa ha by (simp add: m2_def)
  have mx: "msg_bytes x ?z m2 = map (\<lambda>i. kram k (b + i)) [0..<sz] @ drop sz (msg_bytes x ?z (kram k))"
    unfolding m2_def msg_bytes_store[OF sx sx st] m1_def by (rule msg_bytes_copy[OF sz])
  have my: "msg_bytes y ?z m2 = msg_bytes y ?z (kram k)" if "y \<in> set q" for y
    by (rule msg_bytes_confined[OF conf slot_apart[OF sx sl]]) (use that dist st in auto)
  have tl: "msg_queue_tail ?m = 0 \<longleftrightarrow> q = []"
    using r(3) slot_addr(1)[OF sl r(8,9), of "last q"] st by auto
  show "mq_rep a (x # q) f ?k"
    using chq q2 kr tl dist sl sx r(3,4,6,8,9) entry_room[OF rep]
    by (auto simp: mq_rep_def Let_def mq_prepend_eq msg_step_def)
  show "mq_contents a (x # q) ?k = (map (\<lambda>i. kram k (b + i)) [0..<sz] @
        drop sz (msg_bytes x ?z (kram k))) # mq_contents a q k"
    using my mx by (simp add: mq_contents_def mq_prepend_eq(1) kr)
qed

section \<open>Receiving\<close>

lemma mq_unlink_give_back:
  "mqueues (mq_give_back a (msg_queue_head (mqueues k a)) (mq_unlink a k)) =
     (mqueues k)(a := (mqueues k a)\<lparr>msg_queue_head := msg_next (msg_queue_head (mqueues k a)) k,
       msg_queue_tail := (if msg_queue_tail (mqueues k a) = msg_queue_head (mqueues k a) then 0
                          else msg_queue_tail (mqueues k a)),
       msg_queue_free := msg_queue_head (mqueues k a)\<rparr>)"
  "kram (mq_give_back a (msg_queue_head (mqueues k a)) (mq_unlink a k)) =
     store32 (msg_queue_head (mqueues k a)) (of_nat (msg_queue_free (mqueues k a))) (kram k)"
  by (simp_all add: mq_give_back_def mq_unlink_def set_msg_next_def Let_def)

text \<open>The first slot moves from the queue to the free list; \<open>rep'\<close> states the representation
  except for the number of messages.\<close>

lemma mq_move_first:
  assumes rep: "mq_rep a (x # q) f k" and same: "\<And>y. y \<in> set (x # q @ f) \<Longrightarrow> load32 y m = load32 y (kram k)"
  shows "mchain (store32 x (of_nat (msg_queue_free (mqueues k a))) m) (msg_next x k) q"
    "mchain (store32 x (of_nat (msg_queue_free (mqueues k a))) m) x (x # f)"
    "msg_queue_head (mqueues k a) = x" "0 < x"
    "(if msg_queue_tail (mqueues k a) = x then 0 else msg_queue_tail (mqueues k a)) =
       (if q = [] then 0 else last q)"
proof -
  let ?m = "mqueues k a"
  let ?st = "msg_step ?m" and ?n = "unat (max_msgs ?m)"
  note r = mq_repD[OF rep]
  have st: "4 \<le> ?st" by (simp add: msg_step_def)
  have sl: "slot (mq_pool ?m) ?st ?n y" if "y \<in> set (x # q @ f)" for y by (rule r(5)) (use that in auto)
  have sx: "slot (mq_pool ?m) ?st ?n x" by (rule sl) simp
  have dist: "x \<notin> set q" "x \<notin> set f" using r(4) by auto
  have fa: "unat (of_nat (msg_queue_free ?m) :: u32) = msg_queue_free ?m"
    by (rule mchain_head_addr[OF r(2)]) (use slot_addr(2)[OF sl r(8,9)] st in auto)
  have conf: "confined x ?st m (store32 x (of_nat (msg_queue_free ?m)) m)"
    by (rule confined_store32[OF st])
  show hd: "msg_queue_head ?m = x" "0 < x" using r(1) by auto
  have "mchain m (msg_next x k) q = mchain (kram k) (msg_next x k) q"
    "mchain m (msg_queue_free ?m) f = mchain (kram k) (msg_queue_free ?m) f"
    by (rule mchain_cong, rule same, simp)+
  then show "mchain (store32 x (of_nat (msg_queue_free ?m)) m) (msg_next x k) q"
    "mchain (store32 x (of_nat (msg_queue_free ?m)) m) x (x # f)"
    using mchain_confined[OF conf sx st dist(1)] mchain_confined[OF conf sx st dist(2)] sl r(1,2) fa hd
    by (auto simp: msg_next_def)
  show "(if msg_queue_tail ?m = x then 0 else msg_queue_tail ?m) = (if q = [] then 0 else last q)"
    using r(3) dist(1) by (auto dest: last_in_set)
qed

lemma mq_take_ok:
  assumes rep: "mq_rep a (x # q) f k" and out: "outside_pool a b sz k"
  shows "\<exists>k'. mq_take a b sz k = Some k' \<and> mq_rep a q (x # f) k' \<and>
    mq_contents a q k' = tl (mq_contents a (x # q) k) \<and>
    map (\<lambda>i. kram k' (b + i)) [0..<min sz (unat (mq_msg_size (mqueues k a)))] =
      take sz (hd (mq_contents a (x # q) k))"
proof -
  let ?m = "mqueues k a"
  let ?st = "msg_step ?m" and ?n = "unat (max_msgs ?m)" and ?z = "unat (mq_msg_size ?m)"
  let ?l = "min sz ?z" and ?v = "of_nat (msg_queue_free ?m) :: u32"
  note r = mq_repD[OF rep]
  have st: "?st = ?z + 4" by (simp add: msg_step_def)
  have sl: "slot (mq_pool ?m) ?st ?n y" if "y \<in> set (x # q @ f)" for y by (rule r(5)) (use that in auto)
  have sx: "slot (mq_pool ?m) ?st ?n x" by (rule sl) simp
  have dist: "x \<notin> set q" "x \<notin> set f" using r(4) by auto
  define m1 where "m1 = byte_copy b (x + 4) ?l (kram k)"
  have mc: "rt_memcpy b (x + 4) ?l (kram k) = m1"
    unfolding m1_def by (rule memcpy_out[OF out sx]) (use st in auto)
  have ap: "apart b ?l y ?st" if "y \<in> set (x # q @ f)" for y
    using slot_bound[OF sl[OF that]] out by (auto simp: outside_pool_def apart_def Let_def)
  have same: "load32 y m1 = load32 y (kram k)" if "y \<in> set (x # q @ f)" for y
    unfolding m1_def by (rule load32_copy_apart) (use ap[OF that] st in \<open>auto simp: apart_def\<close>)
  note mv = mq_move_first[OF rep same]
  let ?k = "mq_give_back a x (upd_ram (rt_memcpy b (x + 4) ?l)
    (upd_mq a (\<lambda>m. m\<lparr>mq_entry := mq_entry m - 1\<rparr>) (mq_unlink a k)))"
  have t: "mq_take a b sz k = Some ?k"
    using mv(3,4) by (simp add: mq_take_def mq_unlink_def Let_def)
  have kr: "kram ?k = store32 x ?v m1"
    using mv(3) mc by (simp add: mq_give_back_def mq_unlink_def set_msg_next_def Let_def)
  have mq: "mqueues ?k a = ?m\<lparr>msg_queue_head := msg_next x k,
      msg_queue_tail := (if msg_queue_tail ?m = x then 0 else msg_queue_tail ?m),
      msg_queue_free := x, mq_entry := mq_entry ?m - 1\<rparr>"
    using mv(3) by (simp add: mq_give_back_def mq_unlink_def set_msg_next_def Let_def)
  have e: "unat (mq_entry ?m - 1) = length q"
  proof -
    have "mq_entry ?m \<noteq> 0" using r(7) by auto
    then show ?thesis using r(7) by (simp add: unat_minus_one)
  qed
  have "mq_rep a q (x # f) ?k"
    using mv(1,2,5) kr mq e r(4,6,8,9) sl by (auto simp: mq_rep_def Let_def msg_step_def)
  moreover have b1: "msg_bytes y ?z (store32 x ?v m1) = msg_bytes y ?z (kram k)" if "y \<in> set (x # q)" for y
  proof -
    have "msg_bytes y ?z m1 = msg_bytes y ?z (kram k)"
      unfolding m1_def using ap[of y] that st
      by (auto simp: msg_bytes_def byte_copy_def apart_def)
    then show ?thesis using msg_bytes_store[OF sx sl st, of y] that by auto
  qed
  then have "mq_contents a q ?k = tl (mq_contents a (x # q) k)"
    by (simp add: mq_contents_def kr mq)
  moreover have "map (\<lambda>i. kram ?k (b + i)) [0..<?l] = take sz (hd (mq_contents a (x # q) k))"
  proof -
    have "store32 x ?v m1 (b + i) = kram k (x + 4 + i)" if "i < ?l" for i
    proof -
      have "apart x 4 (b + i) 1" using ap[of x] that st by (auto simp: apart_def)
      then show ?thesis using that by (simp add: store32_apart m1_def byte_copy_def)
    qed
    then show ?thesis unfolding kr
      by (auto simp: mq_contents_def msg_bytes_def take_map min_def)
  qed
  ultimately show ?thesis using t by blast
qed

text \<open>A reset moves every message to the free list.\<close>

definition mq_rep_queue :: "nat \<Rightarrow> nat list \<Rightarrow> nat list \<Rightarrow> kernel \<Rightarrow> bool" where
  "mq_rep_queue a q f k \<longleftrightarrow> mq_rep a q f (upd_mq a (\<lambda>m. m\<lparr>mq_entry := of_nat (length q)\<rparr>) k)"

lemma mq_rep_length: "mq_rep a q f k \<Longrightarrow> length q < 2 ^ 16"
  using mq_repD(7)[of a q f k] unsigned_less[of "mq_entry (mqueues k a)", where ?'a = nat] by simp

lemma mq_rep_queueI: "mq_rep a q f k \<Longrightarrow> mq_rep_queue a q f k"
  using mq_rep_length[of a q f k]
  by (auto simp: mq_rep_queue_def mq_rep_def Let_def msg_step_def unat_of_nat)

lemma mq_rep_queue_step:
  assumes "mq_rep_queue a (x # q) f k"
  shows "mq_rep_queue a q (x # f) (mq_give_back a (msg_queue_head (mqueues k a)) (mq_unlink a k))"
    "msg_queue_head (mqueues k a) \<noteq> 0"
proof -
  let ?k = "upd_mq a (\<lambda>m. m\<lparr>mq_entry := of_nat (length (x # q))\<rparr>) k"
  have rep: "mq_rep a (x # q) f ?k" using assms by (simp add: mq_rep_queue_def)
  note mv = mq_move_first[OF rep, of "kram ?k"]
  note r = mq_repD[OF rep]
  have l: "length q < 2 ^ 16" using mq_rep_length[OF rep] by simp
  show "msg_queue_head (mqueues k a) \<noteq> 0" using mv(3,4) by simp
  show "mq_rep_queue a q (x # f) (mq_give_back a (msg_queue_head (mqueues k a)) (mq_unlink a k))"
    using mv r(4,5,6,8,9) l
    by (auto simp: mq_rep_queue_def mq_rep_def Let_def mq_unlink_give_back msg_step_def msg_next_def
        unat_of_nat)
qed

lemma mq_link_frame [simp]:
  "thread (mq_give_back a x k) = thread k" "lists (mq_give_back a x k) = lists k"
  "current (mq_give_back a x k) = current k" "lock_nest (mq_give_back a x k) = lock_nest k"
  "thread (mq_unlink a k) = thread k" "lists (mq_unlink a k) = lists k"
  "current (mq_unlink a k) = current k" "lock_nest (mq_unlink a k) = lock_nest k"
  "thread (mq_append a x b sz k) = thread k" "lists (mq_append a x b sz k) = lists k"
  "current (mq_append a x b sz k) = current k" "lock_nest (mq_append a x b sz k) = lock_nest k"
  "thread (mq_prepend a x b sz k) = thread k" "lists (mq_prepend a x b sz k) = lists k"
  "current (mq_prepend a x b sz k) = current k" "lock_nest (mq_prepend a x b sz k) = lock_nest k"
  by (simp_all add: mq_give_back_def mq_unlink_def mq_append_def mq_prepend_def set_msg_next_def Let_def)

lemma wf_kernel_mq_link [simp]:
  "wf_kernel lo k \<Longrightarrow> wf_kernel lo (mq_give_back a x k)" "wf_kernel lo k \<Longrightarrow> wf_kernel lo (mq_unlink a k)"
  "wf_kernel lo k \<Longrightarrow> wf_kernel lo (mq_append a x b sz k)"
  "wf_kernel lo k \<Longrightarrow> wf_kernel lo (mq_prepend a x b sz k)"
  by (simp_all add: mq_give_back_def mq_unlink_def mq_append_def mq_prepend_def set_msg_next_def Let_def
      wf_kernel_ram)

lemma mq_release_all_ok:
  "mq_rep_queue a q f k \<Longrightarrow> wf_kernel lo k \<Longrightarrow>
   \<exists>k'. mq_release_all a k = Some k' \<and> mq_rep_queue a [] (rev q @ f) k' \<and> wf_kernel lo k' \<and>
     thread k' = thread k \<and> lists k' = lists k \<and> current k' = current k \<and> lock_nest k' = lock_nest k"
proof (induction q arbitrary: f k)
  case Nil
  then have "msg_queue_head (mqueues k a) = 0" by (simp add: mq_rep_queue_def mq_rep_def Let_def)
  then show ?case using Nil mq_release_all.simps[of a k] by simp
next
  case (Cons x q)
  note s = mq_rep_queue_step[OF Cons.prems(1)]
  let ?k = "mq_give_back a (msg_queue_head (mqueues k a)) (mq_unlink a k)"
  have "wf_kernel lo ?k" using Cons.prems(2) by simp
  from Cons.IH[OF s(1) this] show ?case using mq_release_all.simps[of a k] s(2) by simp
qed

section \<open>The calls\<close>

lemma mq_frame: "ipc_frame k k' \<Longrightarrow> mq_rep a q f k' = mq_rep a q f k \<and> mq_contents a q k' = mq_contents a q k"
  using ipc_frameD(5,7)[of k k'] by (simp add: mq_rep_def mq_contents_def kram_def)

lemma rt_mq_send_ok:
  assumes w: "wf_kernel lo k" and rep: "mq_rep a q f k" and out: "outside_pool a b sz k"
    and r: "rt_mq_send a b sz k = Some (e, k')"
  shows "wf_kernel lo k'" "run_ready k \<Longrightarrow> run_ready k'"
    "if unat (mq_msg_size (mqueues k a)) < sz then e = - RT_ERROR \<and> k' = k
     else case f of
       [] \<Rightarrow> e = - RT_EFULL \<and> k' = k
     | x # f' \<Rightarrow> e = RT_EOK \<and> mq_rep a (q @ [x]) f' k' \<and>
         (\<exists>msg. mq_contents a (q @ [x]) k' = mq_contents a q k @ [msg] \<and>
            take sz msg = map (\<lambda>i. kram k (b + i)) [0..<sz])"
proof -
  let ?res = "if unat (mq_msg_size (mqueues k a)) < sz then e = - RT_ERROR \<and> k' = k
     else case f of
       [] \<Rightarrow> e = - RT_EFULL \<and> k' = k
     | x # f' \<Rightarrow> e = RT_EOK \<and> mq_rep a (q @ [x]) f' k' \<and>
         (\<exists>msg. mq_contents a (q @ [x]) k' = mq_contents a q k @ [msg] \<and>
            take sz msg = map (\<lambda>i. kram k (b + i)) [0..<sz])"
  have "wf_kernel lo k' \<and> (run_ready k \<longrightarrow> run_ready k') \<and> ?res"
  proof (cases "unat (mq_msg_size (mqueues k a)) < sz")
    case True
    then show ?thesis using r w by (simp add: rt_mq_send_def)
  next
    case sz: False
    show ?thesis
    proof (cases f)
      case Nil
      then have "msg_queue_free (mqueues k a) = 0" using mq_repD(2)[OF rep] by simp
      then have "e = - RT_EFULL" "k' = k" using r sz by (simp_all add: rt_mq_send_def)
      then show ?thesis using w sz Nil by simp
    next
      case (Cons x f')
      have x: "msg_queue_free (mqueues k a) = x" "x \<noteq> 0" using mq_repD(2)[OF rep] Cons by auto
      let ?k = "mq_append a x b sz k"
      have c: "e = RT_EOK \<and> resume_one_and_schedule (Susp a) ?k = Some k'"
        using r sz x by (auto simp: rt_mq_send_def bind_eq_Some_conv)
      have wk: "wf_kernel lo ?k" using w by simp
      note o = resume_one_and_schedule_ok[OF wk wait_queue_Susp(1) conjunct2[OF c]]
      have "sz \<le> unat (mq_msg_size (mqueues k a))" using sz by simp
      note p = mq_append_ok[OF rep[unfolded Cons] this out]
      have "run_ready ?k = run_ready k" by (simp add: run_ready_def tstat_def)
      then show ?thesis
        using o(1,5) mq_frame[OF o(2), of a "q @ [x]" f'] p c sz Cons by simp
    qed
  qed
  then show "wf_kernel lo k'" "run_ready k \<Longrightarrow> run_ready k'" ?res by blast+
qed

lemma rt_mq_urgent_ok:
  assumes w: "wf_kernel lo k" and rep: "mq_rep a q f k" and out: "outside_pool a b sz k"
    and r: "rt_mq_urgent a b sz k = Some (e, k')"
  shows "wf_kernel lo k'" "run_ready k \<Longrightarrow> run_ready k'"
    "if unat (mq_msg_size (mqueues k a)) < sz then e = - RT_ERROR \<and> k' = k
     else case f of
       [] \<Rightarrow> e = - RT_EFULL \<and> k' = k
     | x # f' \<Rightarrow> e = RT_EOK \<and> mq_rep a (x # q) f' k' \<and>
         (\<exists>msg. mq_contents a (x # q) k' = msg # mq_contents a q k \<and>
            take sz msg = map (\<lambda>i. kram k (b + i)) [0..<sz])"
proof -
  let ?res = "if unat (mq_msg_size (mqueues k a)) < sz then e = - RT_ERROR \<and> k' = k
     else case f of
       [] \<Rightarrow> e = - RT_EFULL \<and> k' = k
     | x # f' \<Rightarrow> e = RT_EOK \<and> mq_rep a (x # q) f' k' \<and>
         (\<exists>msg. mq_contents a (x # q) k' = msg # mq_contents a q k \<and>
            take sz msg = map (\<lambda>i. kram k (b + i)) [0..<sz])"
  have "wf_kernel lo k' \<and> (run_ready k \<longrightarrow> run_ready k') \<and> ?res"
  proof (cases "unat (mq_msg_size (mqueues k a)) < sz")
    case True
    then show ?thesis using r w by (simp add: rt_mq_urgent_def)
  next
    case sz: False
    show ?thesis
    proof (cases f)
      case Nil
      then have "msg_queue_free (mqueues k a) = 0" using mq_repD(2)[OF rep] by simp
      then have "e = - RT_EFULL" "k' = k" using r sz by (simp_all add: rt_mq_urgent_def)
      then show ?thesis using w sz Nil by simp
    next
      case (Cons x f')
      have x: "msg_queue_free (mqueues k a) = x" "x \<noteq> 0" using mq_repD(2)[OF rep] Cons by auto
      let ?k = "mq_prepend a x b sz k"
      have c: "e = RT_EOK \<and> resume_one_and_schedule (Susp a) ?k = Some k'"
        using r sz x by (auto simp: rt_mq_urgent_def bind_eq_Some_conv)
      have wk: "wf_kernel lo ?k" using w by simp
      note o = resume_one_and_schedule_ok[OF wk wait_queue_Susp(1) conjunct2[OF c]]
      have "sz \<le> unat (mq_msg_size (mqueues k a))" using sz by simp
      note p = mq_prepend_ok[OF rep[unfolded Cons] this out]
      have "run_ready ?k = run_ready k" by (simp add: run_ready_def tstat_def)
      then show ?thesis
        using o(1,5) mq_frame[OF o(2), of a "x # q" f'] p c sz Cons by simp
    qed
  qed
  then show "wf_kernel lo k'" "run_ready k \<Longrightarrow> run_ready k'" ?res by blast+
qed

lemma mq_entry_zero: "mq_rep a q f k \<Longrightarrow> mq_entry (mqueues k a) = 0 \<longleftrightarrow> q = []"
  using mq_repD(7)[of a q f k] by (auto simp: unat_eq_zero)

lemma mq_take_frame:
  assumes "mq_take a b sz k = Some k'"
  shows "thread k' = thread k" "lists k' = lists k" "current k' = current k" "lock_nest k' = lock_nest k"
    "wf_kernel lo k \<Longrightarrow> wf_kernel lo k'"
  using assms by (auto simp: mq_take_def Let_def wf_kernel_ram)

lemma mq_recv_loop_ok:
  assumes w: "wf_kernel lo k" and lo: "lo \<le> 1" and cur: "run_ready k"
    and flag: "ipc_flag a k = RT_IPC_FLAG_FIFO \<or> ipc_flag a k = RT_IPC_FLAG_PRIO"
    and rep: "mq_rep a q f k" and out: "outside_pool a b sz k"
    and r: "mq_recv_loop a b sz timeout k = Some (res, k')"
  shows "wf_kernel lo k'" "lock_nest k = 0 \<Longrightarrow> run_ready k'"
    "case q of
       [] \<Rightarrow> mq_rep a [] f k' \<and> res \<noteq> Ret RT_EOK \<and> (\<forall>t tm st. res = Wait (t, tm, st) \<longrightarrow> waiting (Susp a) t k')
     | x # q' \<Rightarrow> res = Ret RT_EOK \<and> mq_rep a q' (x # f) k' \<and>
         mq_contents a q' k' = tl (mq_contents a q k) \<and>
         map (\<lambda>i. kram k' (b + i)) [0..<min sz (unat (mq_msg_size (mqueues k a)))] =
           take sz (hd (mq_contents a q k))"
proof -
  let ?res = "case q of
       [] \<Rightarrow> mq_rep a [] f k' \<and> res \<noteq> Ret RT_EOK \<and> (\<forall>t tm st. res = Wait (t, tm, st) \<longrightarrow> waiting (Susp a) t k')
     | x # q' \<Rightarrow> res = Ret RT_EOK \<and> mq_rep a q' (x # f) k' \<and>
         mq_contents a q' k' = tl (mq_contents a q k) \<and>
         map (\<lambda>i. kram k' (b + i)) [0..<min sz (unat (mq_msg_size (mqueues k a)))] =
           take sz (hd (mq_contents a q k))"
  have "wf_kernel lo k' \<and> (lock_nest k = 0 \<longrightarrow> run_ready k') \<and> ?res"
  proof (cases q)
    case (Cons x q')
    then have ne: "mq_entry (mqueues k a) \<noteq> 0" using mq_entry_zero[OF rep] by simp
    obtain k1 where k1: "mq_take a b sz k = Some k1" "mq_rep a q' (x # f) k1"
      "mq_contents a q' k1 = tl (mq_contents a q k)"
      "map (\<lambda>i. kram k1 (b + i)) [0..<min sz (unat (mq_msg_size (mqueues k a)))] =
           take sz (hd (mq_contents a q k))"
      using mq_take_ok[OF rep[unfolded Cons] out] Cons by blast
    have "res = Ret RT_EOK \<and> k' = k1" using r ne k1(1) by (auto simp: mq_recv_loop_def)
    moreover note f = mq_take_frame[OF k1(1)]
    have "run_ready k1" using cur f by (simp add: run_ready_def tstat_def)
    ultimately show ?thesis using k1 f(5)[OF w] Cons by simp
  next
    case Nil
    then have z: "mq_entry (mqueues k a) = 0" using mq_entry_zero[OF rep] by simp
    obtain t where t: "current k = Some t"
      using r z by (auto simp: mq_recv_loop_def rt_thread_self_def bind_eq_Some_conv)
    show ?thesis
    proof (cases "timeout = 0")
      case True
      let ?k = "upd_thread t (\<lambda>th. th\<lparr>error := - RT_ETIMEOUT\<rparr>) (upd_thread t (\<lambda>th. th\<lparr>error := RT_EOK\<rparr>) k)"
      have c: "res = Ret (- RT_ETIMEOUT) \<and> k' = ?k"
        using r z t True by (auto simp: mq_recv_loop_def rt_thread_self_def bind_eq_Some_conv)
      have "ipc_frame k ?k" using ipc_frame_trans ipc_frame_upd_thread by blast
      moreover have "wf_kernel lo ?k" by (rule wf_kernel_set_error[OF wf_kernel_set_error[OF w]])
      moreover have "run_ready ?k" using cur by (simp add: run_ready_def tstat_def)
      ultimately show ?thesis using mq_frame[of k ?k a "[]" f] rep c Nil by simp
    next
      case False
      have c: "res = Wait (t, timeout, tick k) \<and> block_current (Susp a) (ipc_flag a k) timeout t
           (upd_thread t (\<lambda>th. th\<lparr>error := RT_EOK\<rparr>) k) = Some k'"
        using r z t False
        by (auto simp: mq_recv_loop_def rt_thread_self_def bind_eq_Some_conv ipc_flag_def Let_def)
      note b = block_self_ok[OF w lo cur t wait_queue_Susp(1) flag conjunct2[OF c]]
      show ?thesis using b(1,3,7) mq_frame[OF b(2), of a "[]" f] rep c Nil by simp
    qed
  qed
  then show "wf_kernel lo k'" "lock_nest k = 0 \<Longrightarrow> run_ready k'" ?res by blast+
qed

lemma rt_mq_recv_ok:
  assumes w: "wf_kernel lo k" and lo: "lo \<le> 1" and cur: "run_ready k"
    and flag: "ipc_flag a k = RT_IPC_FLAG_FIFO \<or> ipc_flag a k = RT_IPC_FLAG_PRIO"
    and rep: "mq_rep a q f k" and out: "outside_pool a b sz k"
    and r: "rt_mq_recv a b sz timeout k = Some (res, k')"
  shows "wf_kernel lo k'" "lock_nest k = 0 \<Longrightarrow> run_ready k'"
    "case q of
       [] \<Rightarrow> mq_rep a [] f k' \<and> res \<noteq> Ret RT_EOK \<and> (\<forall>t tm st. res = Wait (t, tm, st) \<longrightarrow> waiting (Susp a) t k')
     | x # q' \<Rightarrow> res = Ret RT_EOK \<and> mq_rep a q' (x # f) k' \<and>
         mq_contents a q' k' = tl (mq_contents a q k) \<and>
         map (\<lambda>i. kram k' (b + i)) [0..<min sz (unat (mq_msg_size (mqueues k a)))] =
           take sz (hd (mq_contents a q k))"
proof -
  let ?res = "case q of
       [] \<Rightarrow> mq_rep a [] f k' \<and> res \<noteq> Ret RT_EOK \<and> (\<forall>t tm st. res = Wait (t, tm, st) \<longrightarrow> waiting (Susp a) t k')
     | x # q' \<Rightarrow> res = Ret RT_EOK \<and> mq_rep a q' (x # f) k' \<and>
         mq_contents a q' k' = tl (mq_contents a q k) \<and>
         map (\<lambda>i. kram k' (b + i)) [0..<min sz (unat (mq_msg_size (mqueues k a)))] =
           take sz (hd (mq_contents a q k))"
  have "wf_kernel lo k' \<and> (lock_nest k = 0 \<longrightarrow> run_ready k') \<and> ?res"
  proof (cases "mq_entry (mqueues k a) = 0 \<and> timeout = 0")
    case True
    then have "res = Ret (- RT_ETIMEOUT) \<and> k' = k" using r by (auto simp: rt_mq_recv_def)
    moreover have "q = []" using True mq_entry_zero[OF rep] by simp
    ultimately show ?thesis using w cur rep by simp
  next
    case False
    then have "mq_recv_loop a b sz timeout k = Some (res, k')"
      using r unfolding rt_mq_recv_def by (auto simp: if_not_P split: if_splits)
    from mq_recv_loop_ok[OF w lo cur flag rep out this] show ?thesis by blast
  qed
  then show "wf_kernel lo k'" "lock_nest k = 0 \<Longrightarrow> run_ready k'" ?res by blast+
qed

lemma rt_mq_control_ok:
  assumes w: "wf_kernel lo k" and rep: "mq_rep a q f k" and r: "rt_mq_control a cmd k = Some (e, k')"
  shows "wf_kernel lo k'" "cmd = RT_IPC_CMD_RESET \<Longrightarrow> e = RT_EOK \<and> mq_rep a [] (rev q @ f) k'"
proof -
  have "wf_kernel lo k' \<and> (cmd = RT_IPC_CMD_RESET \<longrightarrow> e = RT_EOK \<and> mq_rep a [] (rev q @ f) k')"
  proof (cases "cmd = RT_IPC_CMD_RESET")
    case True
    obtain k1 where k1: "rt_ipc_list_resume_all (Susp a) k = Some k1" "wf_kernel lo k1" "ipc_frame k k1"
      using rt_ipc_list_resume_all_ok[OF w wait_queue_Susp(1), of a] by blast
    have "mq_rep_queue a q f k1" using mq_rep_queueI rep mq_frame[OF k1(3)] by blast
    from mq_release_all_ok[OF this k1(2)] obtain k2 where
      k2: "mq_release_all a k1 = Some k2" "mq_rep_queue a [] (rev q @ f) k2" "wf_kernel lo k2" by blast
    let ?k = "upd_mq a (\<lambda>m. m\<lparr>mq_entry := 0\<rparr>) k2"
    have s: "rt_schedule ?k = Some k' \<and> e = RT_EOK"
      using r True k1(1) k2(1) by (auto simp: rt_mq_control_def bind_eq_Some_conv)
    have "mq_rep a [] (rev q @ f) ?k" using k2(2) by (simp add: mq_rep_queue_def)
    moreover have "wf_kernel lo ?k" using k2(3) by simp
    ultimately show ?thesis
      using s wf_kernel_schedule mq_frame[OF ipc_frame_schedule] by blast
  next
    case False
    then show ?thesis using r w by (simp add: rt_mq_control_def)
  qed
  then show "wf_kernel lo k'" "cmd = RT_IPC_CMD_RESET \<Longrightarrow> e = RT_EOK \<and> mq_rep a [] (rev q @ f) k'" by auto
qed

section \<open>Creating and deleting\<close>

lemma mq_free_slots_frame [simp]:
  "thread (mq_free_slots a n k) = thread k" "lists (mq_free_slots a n k) = lists k"
  "current (mq_free_slots a n k) = current k"
  "wf_kernel lo k \<Longrightarrow> wf_kernel lo (mq_free_slots a n k)"
  by (induction n) (simp_all add: Let_def set_msg_next_def wf_kernel_ram)

lemma mq_free_slots_mq:
  "mqueues (mq_free_slots a n k) a = (mqueues k a)\<lparr>msg_queue_free :=
     (if n = 0 then msg_queue_free (mqueues k a)
      else mq_pool (mqueues k a) + (n - 1) * msg_step (mqueues k a))\<rparr>"
  by (induction n) (simp_all add: Let_def set_msg_next_def msg_step_def)

lemma mq_free_slots_chain:
  assumes "msg_queue_free (mqueues k a) = 0" "0 < mq_pool (mqueues k a)"
    and "mq_pool (mqueues k a) + n * msg_step (mqueues k a) \<le> 2 ^ 32"
  shows "mchain (kram (mq_free_slots a n k)) (msg_queue_free (mqueues (mq_free_slots a n k) a))
    (rev (map (\<lambda>i. mq_pool (mqueues k a) + i * msg_step (mqueues k a)) [0..<n]))"
  using assms(3)
proof (induction n)
  case 0
  then show ?case using assms(1) by simp
next
  case (Suc n)
  let ?m = "mqueues k a" and ?k = "mq_free_slots a n k"
  let ?f = "\<lambda>i. mq_pool ?m + i * msg_step ?m"
  let ?xs = "rev (map ?f [0..<n])"
  have st: "4 \<le> msg_step ?m" by (simp add: msg_step_def)
  have sl: "slot (mq_pool ?m) (msg_step ?m) (Suc n) (?f i)" if "i \<le> n" for i
    unfolding slot_def using that by (intro exI[of _ i]) simp
  have ch: "mchain (kram ?k) (msg_queue_free (mqueues ?k a)) ?xs" by (rule Suc.IH) (use Suc.prems in simp)
  have fa: "unat (of_nat (msg_queue_free (mqueues ?k a)) :: u32) = msg_queue_free (mqueues ?k a)"
  proof (rule mchain_head_addr[OF ch])
    fix x assume "x \<in> set ?xs"
    then obtain i where "x = ?f i" "i \<in> set [0..<n]" unfolding set_rev set_map by blast
    then show "x < 2 ^ 32" using slot_addr(2)[OF sl assms(2) Suc.prems st, of i] by simp
  qed
  let ?m' = "store32 (?f n) (of_nat (msg_queue_free (mqueues ?k a))) (kram ?k)"
  have "mchain ?m' (msg_queue_free (mqueues ?k a)) ?xs"
  proof (rule iffD2[OF mchain_cong ch])
    fix y assume "y \<in> set ?xs"
    then obtain i where i: "y = ?f i" "i \<in> set [0..<n]" unfolding set_rev set_map by blast
    then have "Suc i * msg_step ?m \<le> n * msg_step ?m" by (intro mult_right_mono) simp_all
    then have "apart (?f n) 4 y 4" using i st by (simp add: apart_def)
    then show "load32 y ?m' = load32 y (kram ?k)" by (rule load32_store32_apart)
  qed
  moreover have h: "mq_pool (mqueues ?k a) + n * msg_step (mqueues ?k a) = ?f n"
    by (simp add: mq_free_slots_mq msg_step_def)
  have "kram (mq_free_slots a (Suc n) k) = ?m'"
    "msg_queue_free (mqueues (mq_free_slots a (Suc n) k) a) = ?f n"
    by (simp_all add: Let_def set_msg_next_def h)
  ultimately show ?case using fa assms(2) by simp
qed

lemma mq_fill_ok:
  assumes "0 < mq_pool (mqueues k a)"
    and "mq_pool (mqueues k a) + unat (max_msgs (mqueues k a)) * msg_step (mqueues k a) \<le> 2 ^ 32"
  shows "mq_rep a [] (rev (map (\<lambda>i. mq_pool (mqueues k a) + i * msg_step (mqueues k a))
      [0..<unat (max_msgs (mqueues k a))])) (mq_fill a k)"
proof -
  let ?m = "mqueues k a"
  let ?n = "unat (max_msgs ?m)" and ?st = "msg_step ?m"
  let ?k = "upd_mq a (\<lambda>m. m\<lparr>msg_queue_head := 0, msg_queue_tail := 0, msg_queue_free := 0\<rparr>) k"
  let ?k' = "mq_free_slots a ?n ?k"
  have same: "mq_pool (mqueues ?k a) = mq_pool ?m" "msg_step (mqueues ?k a) = ?st" by (simp_all add: msg_step_def)
  have ch: "mchain (kram ?k') (msg_queue_free (mqueues ?k' a))
      (rev (map (\<lambda>i. mq_pool ?m + i * ?st) [0..<?n]))"
    using mq_free_slots_chain[of ?k a ?n] assms same by simp
  have fill: "mq_fill a k = upd_mq a (\<lambda>m. m\<lparr>mq_entry := 0\<rparr>) ?k'" by (simp add: mq_fill_def Let_def)
  have "4 \<le> ?st" by (simp add: msg_step_def)
  then have "distinct (map (\<lambda>i. mq_pool ?m + i * ?st) [0..<?n])"
    by (auto simp: distinct_map inj_on_def)
  then show ?thesis using ch assms
    by (auto simp: fill mq_rep_def Let_def mq_free_slots_mq msg_step_def slot_def)
qed

lemma mq_fill_frame:
  "thread (mq_fill a k) = thread k" "lists (mq_fill a k) = lists k" "wf_kernel lo k \<Longrightarrow> wf_kernel lo (mq_fill a k)"
  by (simp_all add: mq_fill_def Let_def)

lemma rt_mq_init_ok:
  assumes w: "wf_kernel lo k" and t: "Obj a \<notin> set (timer_list k)"
    and r: "rt_mq_init a name p msz psz flag k = Some (e, k')"
    and p: "0 < p" "p + psz \<le> 2 ^ 32" and n: "psz div (align4 msz + 4) < 2 ^ 16" "align4 msz < 2 ^ 16"
  shows "wf_kernel lo k'" "\<exists>f. mq_rep a [] f k' \<and> length f = psz div (align4 msz + 4)"
    "unat (mq_msg_size (mqueues k' a)) = align4 msz"
proof -
  obtain k1 where k1: "rt_object_init (Obj a) RT_Object_Class_MessageQueue name k = Some k1"
    and l: "lists k1 (Susp a) = []"
    and k': "k' = mq_fill a (upd_mq a (\<lambda>m. m\<lparr>max_msgs := of_nat (psz div msg_step m)\<rparr>)
      (upd_mq a (\<lambda>m. m\<lparr>mq_pool := p, mq_msg_size := of_nat (align4 msz)\<rparr>) (upd_flag a flag k1)))"
    using r by (auto simp: rt_mq_init_def rt_ipc_object_init_def bind_eq_Some_conv)
  let ?k = "upd_mq a (\<lambda>m. m\<lparr>max_msgs := of_nat (psz div msg_step m)\<rparr>)
      (upd_mq a (\<lambda>m. m\<lparr>mq_pool := p, mq_msg_size := of_nat (align4 msz)\<rparr>) (upd_flag a flag k1))"
  have ta: "Obj a \<notin> set (timer_list k1)" using t rt_object_init_frame(4)[OF k1] by simp
  have "wf_kernel lo ?k" using wf_kernel_upd_flag[OF wf_kernel_object_init[OF w k1] ta] by simp
  then show "wf_kernel lo k'" unfolding k' by (rule mq_fill_frame(3))
  have z: "unat (of_nat (align4 msz) :: u16) = align4 msz" using n(2) by (simp add: unat_of_nat)
  then have m: "mq_pool (mqueues ?k a) = p" "msg_step (mqueues ?k a) = align4 msz + 4"
    "unat (max_msgs (mqueues ?k a)) = psz div (align4 msz + 4)"
    using n(1) by (simp_all add: msg_step_def unat_of_nat)
  have "p + psz div (align4 msz + 4) * (align4 msz + 4) \<le> 2 ^ 32"
    using p(2) div_times_less_eq_dividend[of psz "align4 msz + 4"] by linarith
  then have "mq_rep a [] (rev (map (\<lambda>i. p + i * (align4 msz + 4)) [0..<psz div (align4 msz + 4)])) k'"
    using mq_fill_ok[of ?k a] p(1) unfolding k' m by blast
  then show "\<exists>f. mq_rep a [] f k' \<and> length f = psz div (align4 msz + 4)"
    by (metis diff_zero length_map length_rev length_upt)
  show "unat (mq_msg_size (mqueues k' a)) = align4 msz"
    unfolding k' using z by (simp add: mq_fill_def Let_def mq_free_slots_mq)
qed

lemma wf_kernel_mq_detach: "wf_kernel lo k \<Longrightarrow> rt_mq_detach a k = Some (e, k') \<Longrightarrow> wf_kernel lo k'"
  using wf_kernel_ipc_detach[of lo k a k'] by (simp add: rt_mq_detach_def bind_eq_Some_conv)

lemma wf_kernel_mq_delete:
  assumes w: "wf_kernel lo k" and r: "rt_mq_delete a k = Some (e, k')"
  shows "wf_kernel lo k'"
proof -
  obtain k1 k2 where k: "rt_ipc_list_resume_all (Susp a) k = Some k1"
    "k_free (mq_pool (mqueues k1 a)) k1 = Some k2" "rt_object_delete a k2 = Some k'"
    using r unfolding rt_mq_delete_def bind_eq_Some_conv by blast
  have "wf_kernel lo k2"
    using wf_kernel_resume_all[OF w wait_queue_Susp(1) k(1)] k(2) by (auto simp: k_free_eq_Some)
  then show ?thesis by (rule wf_kernel_object_delete[OF _ k(3)])
qed

lemma wf_kernel_mq_create:
  assumes w: "wf_kernel lo k" and r: "rt_mq_create name msz msgs flag k = Some (b, k')"
    and t: "\<And>a. Obj a \<in> set (timer_list k) \<Longrightarrow> a \<noteq> 0 \<Longrightarrow>
      \<forall>k1. rt_object_allocate RT_Object_Class_MessageQueue name k \<noteq> Some (a, k1)"
  shows "wf_kernel lo k'"
proof -
  let ?set = "\<lambda>a k1. upd_mq a (\<lambda>m. m\<lparr>mq_msg_size := of_nat (align4 msz), max_msgs := ucast msgs\<rparr>)
    (upd_flag a flag k1)"
  obtain a k1 where k1: "rt_object_allocate RT_Object_Class_MessageQueue name k = Some (a, k1)"
    and c: "if a = 0 then k' = k1
      else \<exists>p k3. k_malloc (msg_step (mqueues (?set a k1) a) * unat (max_msgs (mqueues (?set a k1) a)))
          (?set a k1) = Some (p, k3) \<and>
        (if p = 0 then \<exists>e. rt_mq_delete a (upd_mq a (\<lambda>m. m\<lparr>mq_pool := p\<rparr>) k3) = Some (e, k')
         else k' = mq_fill a (upd_mq a (\<lambda>m. m\<lparr>mq_pool := p\<rparr>) k3))"
    using r by (auto simp: rt_mq_create_def rt_ipc_object_init_def Let_def bind_eq_Some_conv split: if_splits)
  show ?thesis
  proof (cases "a = 0")
    case True
    then have e: "k' = k1" using c by simp
    from k1 show ?thesis
    proof (cases rule: rt_object_allocate_cases)
      case failed
      then show ?thesis using w e by simp
    next
      case linked
      then show ?thesis using True by simp
    qed
  next
    case False
    have ta: "Obj a \<notin> set (timer_list k)" using t False k1 by blast
    have "Obj a \<notin> set (timer_list k1)" using ta rt_object_allocate_frame(3)[OF k1] by simp
    then have w2: "wf_kernel lo (?set a k1)"
      using wf_kernel_upd_flag[OF wf_kernel_allocate[OF w k1 ta]] by simp
    obtain p k3 where m: "k_malloc (msg_step (mqueues (?set a k1) a) * unat (max_msgs (mqueues (?set a k1) a)))
          (?set a k1) = Some (p, k3)"
      and d: "if p = 0 then \<exists>e. rt_mq_delete a (upd_mq a (\<lambda>m. m\<lparr>mq_pool := p\<rparr>) k3) = Some (e, k')
         else k' = mq_fill a (upd_mq a (\<lambda>m. m\<lparr>mq_pool := p\<rparr>) k3)"
      using c False by auto
    have w3: "wf_kernel lo (upd_mq a (\<lambda>m. m\<lparr>mq_pool := p\<rparr>) k3)" using m w2 by (auto simp: k_malloc_eq_Some)
    show ?thesis
    proof (cases "p = 0")
      case True
      then show ?thesis using d wf_kernel_mq_delete[OF w3] by auto
    next
      case False
      then show ?thesis using d mq_fill_frame(3)[OF w3] by simp
    qed
  qed
qed

end
