(* ===== verification/MemPool.thy ===== *)
theory MemPool
  imports MsgQueue
begin

text \<open>
  Memory pools (\<^verbatim>\<open>src/mempool.c\<close>) and the error number of \<^verbatim>\<open>src/kservice.c\<close>. A pool is a row of
  equal blocks, each behind a word: the next free block while the block is free, the address of
  the pool while it is in use. Addresses and counts are 32 bits wide.
\<close>

section \<open>The error number\<close>

definition rt_get_errno :: "kernel \<Rightarrow> rt_err" where
  "rt_get_errno k =
     (if rt_interrupt_get_nest k \<noteq> 0 then rt_errno k
      else case rt_thread_self k of None \<Rightarrow> rt_errno k | Some t \<Rightarrow> error (thread k t))"

definition rt_set_errno :: "rt_err \<Rightarrow> kernel \<Rightarrow> kernel" where
  "rt_set_errno e k =
     (if rt_interrupt_get_nest k \<noteq> 0 then k\<lparr>rt_errno := e\<rparr>
      else case rt_thread_self k of
        None \<Rightarrow> k\<lparr>rt_errno := e\<rparr>
      | Some t \<Rightarrow> upd_thread t (\<lambda>th. th\<lparr>error := e\<rparr>) k)"

section \<open>The operations\<close>

text \<open>
  The loop that links the blocks, \<open>n\<close> rounds of it, and the store that ends the list. In \<open>rt_mp_init\<close> a
  division by zero, undefined in C, stops the system like a failed assertion.
\<close>

fun mp_link :: "nat \<Rightarrow> nat \<Rightarrow> nat \<Rightarrow> cmem \<Rightarrow> cmem" where
  "mp_link p step 0 m = m"
| "mp_link p step (Suc n) m =
     store32 (add32 p (mul32 n step)) (of_nat (p + Suc n * step)) (mp_link p step n m)"

definition mp_blocks :: "nat \<Rightarrow> kernel \<Rightarrow> kernel" where
  "mp_blocks a k =
     (let m = mempools k a; p = start_address m; step = add32 (block_size m) 4; n = block_total_count m;
          k = upd_ram (mp_link p step n) k;
          k = upd_ram (store32 (add32 p (mul32 (sub32 n 1) step)) 0) k
      in upd_mp a (\<lambda>m. m\<lparr>block_list := p\<rparr>) k)"

definition rt_mp_init ::
  "nat \<Rightarrow> u8 list \<Rightarrow> nat \<Rightarrow> nat \<Rightarrow> nat \<Rightarrow> kernel \<Rightarrow> (rt_err \<times> kernel) option" where
  "rt_mp_init a name start sz bsz k = do {
     RT_ASSERT (a \<noteq> 0);
     k \<leftarrow> rt_object_init (Obj a) RT_Object_Class_MemPool name k;
     let size' = align_down4 sz;
     let bsz = align4 bsz;
     RT_ASSERT (add32 bsz 4 \<noteq> 0);
     let n = size' div add32 bsz 4;
     RT_ASSERT (lists k (Susp a) = []);
     let k = upd_mp a (\<lambda>m. m\<lparr>start_address := start, mp_size := size', block_size := bsz,
               block_total_count := n, block_free_count := n, suspend_thread_count := 0\<rparr>) k;
     Some (RT_EOK, mp_blocks a k)
   }"

partial_function (option) mp_resume_all :: "nat \<Rightarrow> kernel \<Rightarrow> kernel option" where
  "mp_resume_all a k =
     (case lists k (Susp a) of
        [] \<Rightarrow> Some k
      | t # _ \<Rightarrow> do {
          let k = upd_thread t (\<lambda>th. th\<lparr>error := - RT_ERROR\<rparr>) k;
          (_, k) \<leftarrow> rt_thread_resume t k;
          let k = upd_mp a (\<lambda>m. m\<lparr>suspend_thread_count := sub32 (suspend_thread_count m) 1\<rparr>) k;
          mp_resume_all a k
        })"

definition rt_mp_detach :: "nat \<Rightarrow> kernel \<Rightarrow> (rt_err \<times> kernel) option" where
  "rt_mp_detach a k = do {
     RT_ASSERT (a \<noteq> 0);
     k \<leftarrow> mp_resume_all a k;
     Some (RT_EOK, rt_object_detach (Obj a) k)
   }"

definition rt_mp_create :: "u8 list \<Rightarrow> nat \<Rightarrow> nat \<Rightarrow> kernel \<Rightarrow> (nat \<times> kernel) option" where
  "rt_mp_create name cnt bsz k = do {
     RT_DEBUG_NOT_IN_INTERRUPT k;
     (a, k) \<leftarrow> rt_object_allocate RT_Object_Class_MemPool name k;
     if a = 0 then Some (0, k)
     else do {
       let bsz = align4 bsz;
       let k = upd_mp a (\<lambda>m. m\<lparr>block_size := bsz, mp_size := mul32 (add32 bsz 4) cnt\<rparr>) k;
       (p, k) \<leftarrow> k_malloc (mul32 (add32 bsz 4) cnt) k;
       let k = upd_mp a (\<lambda>m. m\<lparr>start_address := p\<rparr>) k;
       if p = 0 then do {
         k \<leftarrow> rt_object_delete a k;
         Some (0, k)
       } else do {
         let k = upd_mp a (\<lambda>m. m\<lparr>block_total_count := cnt, block_free_count := cnt\<rparr>) k;
         RT_ASSERT (lists k (Susp a) = []);
         let k = upd_mp a (\<lambda>m. m\<lparr>suspend_thread_count := 0\<rparr>) k;
         Some (a, mp_blocks a k)
       }
     }
   }"

definition rt_mp_delete :: "nat \<Rightarrow> kernel \<Rightarrow> (rt_err \<times> kernel) option" where
  "rt_mp_delete a k = do {
     RT_DEBUG_NOT_IN_INTERRUPT k;
     RT_ASSERT (a \<noteq> 0);
     k \<leftarrow> mp_resume_all a k;
     k \<leftarrow> k_free (start_address (mempools k a)) k;
     k \<leftarrow> rt_object_delete a k;
     Some (RT_EOK, k)
   }"

text \<open>Taking the first free block.\<close>

definition mp_take :: "nat \<Rightarrow> kernel \<Rightarrow> (nat \<times> kernel) option" where
  "mp_take a k = do {
     let k = upd_mp a (\<lambda>m. m\<lparr>block_free_count := sub32 (block_free_count m) 1\<rparr>) k;
     let p = block_list (mempools k a);
     RT_ASSERT (p \<noteq> 0);
     let k = upd_mp a (\<lambda>m. m\<lparr>block_list := unat (load32 p (kram k))\<rparr>) k;
     let k = upd_ram (store32 p (of_nat a)) k;
     Some (p + 4, k)
   }"

definition mp_alloc_loop ::
  "nat \<Rightarrow> int \<Rightarrow> kernel \<Rightarrow> ((nat, wait_state) outcome \<times> kernel) option" where
  "mp_alloc_loop a time k =
     (if block_free_count (mempools k a) = 0 then
        if time = 0 then Some (Ret 0, rt_set_errno (- RT_ETIMEOUT) k)
        else do {
          RT_DEBUG_NOT_IN_INTERRUPT k;
          t \<leftarrow> rt_thread_self k;
          let k = upd_thread t (\<lambda>th. th\<lparr>error := RT_EOK\<rparr>) k;
          (_, k) \<leftarrow> rt_thread_suspend t k;
          k \<leftarrow> tl_insert_after (Susp a) t k;
          let k = upd_mp a (\<lambda>m. m\<lparr>suspend_thread_count := add32 (suspend_thread_count m) 1\<rparr>) k;
          let start = tick k;
          k \<leftarrow> start_wait_timer t time k;
          k \<leftarrow> rt_schedule k;
          Some (Wait (t, time, start), k)
        }
      else do {
        (p, k) \<leftarrow> mp_take a k;
        Some (Ret p, k)
      })"

definition rt_mp_alloc :: "nat \<Rightarrow> int \<Rightarrow> kernel \<Rightarrow> ((nat, wait_state) outcome \<times> kernel) option" where
  "rt_mp_alloc a time k = mp_alloc_loop a time k"

definition rt_mp_alloc_cont ::
  "nat \<Rightarrow> wait_state \<Rightarrow> kernel \<Rightarrow> ((nat, wait_state) outcome \<times> kernel) option" where
  "rt_mp_alloc_cont a w k =
     (case w of (t, time, start) \<Rightarrow>
        if error (thread k t) \<noteq> RT_EOK then Some (Ret 0, k)
        else mp_alloc_loop a (remaining_time time start k) k)"

definition rt_mp_free :: "nat \<Rightarrow> kernel \<Rightarrow> kernel option" where
  "rt_mp_free block k = do {
     let p = sub32 block 4;
     let a = unat (load32 p (kram k));
     let k = upd_mp a (\<lambda>m. m\<lparr>block_free_count := add32 (block_free_count m) 1\<rparr>) k;
     let k = upd_ram (store32 p (of_nat (block_list (mempools k a)))) k;
     let k = upd_mp a (\<lambda>m. m\<lparr>block_list := p\<rparr>) k;
     if suspend_thread_count (mempools k a) > 0 then
       (case lists k (Susp a) of
          [] \<Rightarrow> None
        | t # _ \<Rightarrow> do {
            let k = upd_thread t (\<lambda>th. th\<lparr>error := RT_EOK\<rparr>) k;
            (_, k) \<leftarrow> rt_thread_resume t k;
            let k = upd_mp a (\<lambda>m. m\<lparr>suspend_thread_count := sub32 (suspend_thread_count m) 1\<rparr>) k;
            rt_schedule k
          })
     else Some k
   }"

section \<open>The representation\<close>

text \<open>The free blocks \<open>f\<close> of the pool; every other block carries the address of the pool.\<close>

definition mp_rep :: "nat \<Rightarrow> nat list \<Rightarrow> kernel \<Rightarrow> bool" where
  "mp_rep a f k \<longleftrightarrow>
     (let m = mempools k a; st = block_size m + 4; n = block_total_count m in
      mchain (kram k) (block_list m) f \<and> block_free_count m = length f \<and> distinct f \<and>
      (\<forall>x\<in>set f. slot (start_address m) st n x) \<and>
      (\<forall>x. slot (start_address m) st n x \<longrightarrow> x \<notin> set f \<longrightarrow> load32 x (kram k) = of_nat a) \<and>
      0 < start_address m \<and> start_address m + n * st < 2 ^ 32 \<and> a < 2 ^ 32)"

text \<open>The count of waiting threads agrees with the queue.\<close>

definition mp_waiters_ok :: "nat \<Rightarrow> kernel \<Rightarrow> bool" where
  "mp_waiters_ok a k \<longleftrightarrow> suspend_thread_count (mempools k a) = length (lists k (Susp a)) \<and>
     length (lists k (Susp a)) < 2 ^ 32 - 1"

text \<open>The blocks in use, by the address handed out.\<close>

definition mp_used :: "nat \<Rightarrow> nat list \<Rightarrow> kernel \<Rightarrow> nat set" where
  "mp_used a f k =
     (let m = mempools k a in
      {x + 4 | x. slot (start_address m) (block_size m + 4) (block_total_count m) x \<and> x \<notin> set f})"

lemma upd_mp_sel [simp]:
  "mempools (upd_mp a f k) = (mempools k)(a := f (mempools k a))" "lists (upd_mp a f k) = lists k"
  "thread (upd_mp a f k) = thread k" "current (upd_mp a f k) = current k" "kheap (upd_mp a f k) = kheap k"
  "lock_nest (upd_mp a f k) = lock_nest k" "timer_list (upd_mp a f k) = timer_list k"
  "kram (upd_mp a f k) = kram k" "interrupt_nest (upd_mp a f k) = interrupt_nest k"
  "tick (upd_mp a f k) = tick k"
  by (simp_all add: upd_mp_def kram_def)

lemma wf_kernel_upd_mp [simp]: "wf_kernel lo k \<Longrightarrow> wf_kernel lo (upd_mp a f k)"
  by (rule wf_kernel_same[of lo k]) (simp_all add: upd_mp_def)

lemma mp_frame: "ipc_frame k k' \<Longrightarrow> mp_rep a f k' = mp_rep a f k"
  using ipc_frameD(6,7)[of k k'] by (simp add: mp_rep_def kram_def)

lemma mp_repD:
  assumes "mp_rep a f k"
  defines "m \<equiv> mempools k a"
  shows "mchain (kram k) (block_list m) f" "block_free_count m = length f" "distinct f"
    "x \<in> set f \<Longrightarrow> slot (start_address m) (block_size m + 4) (block_total_count m) x"
    "slot (start_address m) (block_size m + 4) (block_total_count m) x \<Longrightarrow> x \<notin> set f \<Longrightarrow>
       load32 x (kram k) = of_nat a"
    "0 < start_address m" "start_address m + block_total_count m * (block_size m + 4) < 2 ^ 32" "a < 2 ^ 32"
  using assms by (auto simp: mp_rep_def Let_def)

lemma mp_slot_addr:
  assumes "mp_rep a f k" "slot (start_address (mempools k a)) (block_size (mempools k a) + 4)
    (block_total_count (mempools k a)) x"
  shows "0 < x" "x + 4 < 2 ^ 32"
  using slot_bound[OF assms(2)] mp_repD(6,7)[OF assms(1)] by auto

lemma length_slots:
  assumes "distinct f" "\<And>x. x \<in> set f \<Longrightarrow> slot p st n x"
  shows "length f \<le> n"
proof -
  have "set f \<subseteq> (\<lambda>i. p + i * st) ` {..<n}" using assms(2) by (auto simp: slot_def)
  then have "card (set f) \<le> card ((\<lambda>i. p + i * st) ` {..<n})" by (intro card_mono) auto
  also have "\<dots> \<le> n" using card_image_le[of "{..<n}"] by simp
  finally show ?thesis using distinct_card[OF assms(1)] by simp
qed

lemma slots_lt: "p + n * (b + 4) < (N :: nat) \<Longrightarrow> n < N"
  by (erule le_less_trans[rotated]) (simp add: algebra_simps)

text \<open>Taking a block: it was free, it is the head of the list, and it stays inside the pool.\<close>

lemma mp_take_ok:
  assumes rep: "mp_rep a (x # f) k"
  shows "\<exists>k'. mp_take a k = Some (x + 4, k') \<and> mp_rep a f k' \<and> mp_used a f k' = Set.insert (x + 4) (mp_used a (x # f) k) \<and>
    x + 4 \<notin> mp_used a (x # f) k \<and> thread k' = thread k \<and> lists k' = lists k \<and> current k' = current k \<and>
    lock_nest k' = lock_nest k \<and> suspend_thread_count (mempools k' a) = suspend_thread_count (mempools k a) \<and>
    (wf_kernel lo k \<longrightarrow> wf_kernel lo k')"
proof -
  let ?m = "mempools k a"
  let ?st = "block_size ?m + 4" and ?n = "block_total_count ?m"
  note r = mp_repD[OF rep]
  have sx: "slot (start_address ?m) ?st ?n x" by (rule r(4)) simp
  have bl: "block_list ?m = x" "x \<noteq> 0" and ch: "mchain (kram k) (unat (load32 x (kram k))) f" using r(1) by auto
  have st: "4 \<le> ?st" by simp
  let ?r = "store32 x (of_nat a) (kram k)"
  have conf: "confined x ?st (kram k) ?r" by (rule confined_store32[OF st])
  have ch': "mchain ?r (unat (load32 x (kram k))) f"
    using mchain_confined[OF conf sx st, of f] r(3,4) ch by auto
  have oth: "load32 y ?r = load32 y (kram k)" if "slot (start_address ?m) ?st ?n y" "y \<noteq> x" for y
    by (rule confined_load32[OF conf slot_apart[OF sx that(1)]]) (use that in auto)
  have "length (x # f) \<le> ?n" by (rule length_slots[OF r(3)]) (rule r(4))
  then have "length f + 1 < 2 ^ 32" using slots_lt[OF r(7)] by simp
  then have sub: "sub32 (block_free_count ?m) 1 = length f" using r(2) by (simp add: sub32_def)
  let ?k = "upd_ram (store32 x (of_nat a)) (upd_mp a (\<lambda>m. m\<lparr>block_list := unat (load32 x (kram k))\<rparr>)
     (upd_mp a (\<lambda>m. m\<lparr>block_free_count := sub32 (block_free_count m) 1\<rparr>) k))"
  have t: "mp_take a k = Some (x + 4, ?k)" using bl by (simp add: mp_take_def Let_def)
  have "load32 y ?r = of_nat a" if "slot (start_address ?m) ?st ?n y" "y \<notin> set f" for y
    using oth[OF that(1)] r(5)[OF that(1)] that(2) by (cases "y = x") auto
  then have "mp_rep a f ?k"
    using ch' sub r(3,4,6-8) by (auto simp: mp_rep_def Let_def)
  moreover have "mp_used a f ?k = Set.insert (x + 4) (mp_used a (x # f) k)" "x + 4 \<notin> mp_used a (x # f) k"
    using r(3) sx by (auto simp: mp_used_def Let_def)
  ultimately show ?thesis using t by (simp add: wf_kernel_ram)
qed


text \<open>Giving a block back.\<close>

definition mp_give_back :: "nat \<Rightarrow> nat \<Rightarrow> kernel \<Rightarrow> kernel" where
  "mp_give_back a x k =
     upd_mp a (\<lambda>m. m\<lparr>block_list := x\<rparr>)
       (upd_ram (store32 x (of_nat (block_list (mempools k a))))
         (upd_mp a (\<lambda>m. m\<lparr>block_free_count := add32 (block_free_count m) 1\<rparr>) k))"

lemma mp_give_back_ok:
  assumes rep: "mp_rep a f k" and b: "x + 4 \<in> mp_used a f k"
  shows "mp_rep a (x # f) (mp_give_back a x k)" "load32 x (kram k) = of_nat a" "0 < x" "x + 4 < 2 ^ 32"
    "mp_used a (x # f) (mp_give_back a x k) = mp_used a f k - {x + 4}"
proof -
  let ?m = "mempools k a"
  let ?st = "block_size ?m + 4" and ?n = "block_total_count ?m"
  note r = mp_repD[OF rep]
  have sx: "slot (start_address ?m) ?st ?n x" and nx: "x \<notin> set f" using b by (auto simp: mp_used_def Let_def)
  show "load32 x (kram k) = of_nat a" by (rule r(5)[OF sx nx])
  show x0: "0 < x" and xl: "x + 4 < 2 ^ 32" by (rule mp_slot_addr[OF rep sx])+
  have st: "4 \<le> ?st" by simp
  let ?r = "store32 x (of_nat (block_list ?m)) (kram k)"
  have conf: "confined x ?st (kram k) ?r" by (rule confined_store32[OF st])
  have oth: "load32 y ?r = load32 y (kram k)" if "slot (start_address ?m) ?st ?n y" "y \<noteq> x" for y
    by (rule confined_load32[OF conf slot_apart[OF sx that(1)]]) (use that in auto)
  have "y < 2 ^ 32" if "y \<in> set f" for y using mp_slot_addr(2)[OF rep r(4)[OF that]] by simp
  then have "unat (of_nat (block_list ?m) :: u32) = block_list ?m" by (rule mchain_head_addr[OF r(1)])
  moreover have "mchain ?r (block_list ?m) f" using mchain_confined[OF conf sx st nx] r(1,4) by auto
  ultimately have ch: "mchain ?r x (x # f)" using x0 by simp
  have "length (x # f) \<le> ?n" by (rule length_slots) (use r(3,4) nx sx in auto)
  then have "length f + 1 < 2 ^ 32" using slots_lt[OF r(7)] by simp
  then have add: "add32 (block_free_count ?m) 1 = Suc (length f)" using r(2) by (simp add: add32_def)
  show "mp_rep a (x # f) (mp_give_back a x k)"
    using ch add nx sx r(3-8) oth by (auto simp: mp_rep_def mp_give_back_def Let_def)
  show "mp_used a (x # f) (mp_give_back a x k) = mp_used a f k - {x + 4}"
    by (auto simp: mp_used_def mp_give_back_def Let_def)
qed

lemma mp_give_back_frame [simp]:
  "thread (mp_give_back a x k) = thread k" "lists (mp_give_back a x k) = lists k"
  "current (mp_give_back a x k) = current k" "lock_nest (mp_give_back a x k) = lock_nest k"
  "suspend_thread_count (mempools (mp_give_back a x k) b) = suspend_thread_count (mempools k b)"
  "wf_kernel lo k \<Longrightarrow> wf_kernel lo (mp_give_back a x k)"
  by (simp_all add: mp_give_back_def wf_kernel_ram)

text \<open>The count of waiters is the only field of a pool that waking a thread changes.\<close>

lemma mp_rep_count [simp]:
  "mp_rep a f (upd_mp a (\<lambda>m. m\<lparr>suspend_thread_count := c m\<rparr>) k) = mp_rep a f k"
  "mp_used a f (upd_mp a (\<lambda>m. m\<lparr>suspend_thread_count := c m\<rparr>) k) = mp_used a f k"
  by (simp_all add: mp_rep_def mp_used_def Let_def)

lemma mp_used_frame: "ipc_frame k k' \<Longrightarrow> mp_used a f k' = mp_used a f k"
  using ipc_frameD(6)[of k k'] by (simp add: mp_used_def)

lemma mp_free_eq:
  assumes rep: "mp_rep a f k" and b: "x + 4 \<in> mp_used a f k" and w: "wf_kernel lo k"
  shows "rt_mp_free (x + 4) k =
    (let k1 = mp_give_back a x k in
     if suspend_thread_count (mempools k a) = 0 then Some k1
     else case lists k (Susp a) of [] \<Rightarrow> None
       | t # ts \<Rightarrow> rt_schedule (upd_mp a (\<lambda>m. m\<lparr>suspend_thread_count := sub32 (suspend_thread_count m) 1\<rparr>)
           (thread_resumed t (upd_thread t (\<lambda>th. th\<lparr>error := RT_EOK\<rparr>) k1))))"
proof -
  note g = mp_give_back_ok[OF rep b]
  have "unat (of_nat a :: u32) = a" using mp_repD(8)[OF rep] by (simp add: unat_of_nat)
  then have p: "sub32 (x + 4) 4 = x" "unat (load32 x (kram k)) = a" using g(2,4) by (simp_all add: sub32_def)
  let ?k1 = "mp_give_back a x k"
  have w1: "wf_kernel lo ?k1" using w by simp
  have res: "rt_thread_resume t (upd_thread t (\<lambda>th. th\<lparr>error := RT_EOK\<rparr>) ?k1) =
      Some (RT_EOK, thread_resumed t (upd_thread t (\<lambda>th. th\<lparr>error := RT_EOK\<rparr>) ?k1))"
    if "lists k (Susp a) = t # ts" for t ts
  proof -
    have w2: "wf_kernel lo (upd_thread t (\<lambda>th. th\<lparr>error := RT_EOK\<rparr>) ?k1)" by (rule wf_kernel_set_error[OF w1])
    have "waiting (Susp a) t k" using waiting_iff[OF w, of "Susp a" t] that by simp
    then have "tstat (upd_thread t (\<lambda>th. th\<lparr>error := RT_EOK\<rparr>) ?k1) t = RT_THREAD_SUSPEND"
      by (simp add: waiting_def tstat_def)
    then show ?thesis using rt_thread_resume_eq[OF wf_kernelD(1)[OF w2], of t] by simp
  qed
  show ?thesis
    using p res by (auto simp: rt_mp_free_def mp_give_back_def Let_def split: list.splits)
qed

lemma rt_mp_free_ok:
  assumes w: "wf_kernel lo k" and rep: "mp_rep a f k" and wait: "mp_waiters_ok a k"
    and b: "x + 4 \<in> mp_used a f k" and r: "rt_mp_free (x + 4) k = Some k'"
  shows "wf_kernel lo k'" "run_ready k \<Longrightarrow> run_ready k'" "mp_rep a (x # f) k'"
    "mp_used a (x # f) k' = mp_used a f k - {x + 4}" "mp_waiters_ok a k'"
    "lists k' (Susp a) = tl (lists k (Susp a))"
    "lists k (Susp a) = t # ts \<Longrightarrow> tstat k' t = RT_THREAD_READY \<and> error (thread k' t) = RT_EOK"
proof -
  let ?k1 = "mp_give_back a x k"
  note g = mp_give_back_ok[OF rep b]
  have c: "suspend_thread_count (mempools k a) = length (lists k (Susp a))" using wait by (simp add: mp_waiters_ok_def)
  have "wf_kernel lo k' \<and> (run_ready k \<longrightarrow> run_ready k') \<and> mp_rep a (x # f) k' \<and>
    mp_used a (x # f) k' = mp_used a f k - {x + 4} \<and> mp_waiters_ok a k' \<and>
    lists k' (Susp a) = tl (lists k (Susp a)) \<and>
    (\<forall>t ts. lists k (Susp a) = t # ts \<longrightarrow> tstat k' t = RT_THREAD_READY \<and> error (thread k' t) = RT_EOK)"
  proof (cases "lists k (Susp a)")
    case Nil
    then have "k' = ?k1" using r mp_free_eq[OF rep b w] c by simp
    then show ?thesis using g w wait Nil by (simp add: run_ready_def mp_waiters_ok_def tstat_def)
  next
    case (Cons t ts)
    let ?k2 = "upd_thread t (\<lambda>th. th\<lparr>error := RT_EOK\<rparr>) ?k1"
    let ?k3 = "thread_resumed t ?k2"
    let ?k4 = "upd_mp a (\<lambda>m. m\<lparr>suspend_thread_count := sub32 (suspend_thread_count m) 1\<rparr>) ?k3"
    have s: "rt_schedule ?k4 = Some k'" using r mp_free_eq[OF rep b w] c Cons by simp
    have w2: "wf_kernel lo ?k2" by (rule wf_kernel_set_error) (use w in simp)
    have l2: "lists ?k2 (Susp a) = t # ts" using Cons by simp
    note p = rt_ipc_list_resume_ok[OF w2 _ l2, simplified]
    have w4: "wf_kernel lo ?k4" using p(2) by simp
    have fr4: "ipc_frame ?k1 ?k3" using ipc_frame_trans[OF ipc_frame_upd_thread ipc_frame_resumed] .
    have mp4: "mempools ?k3 = mempools ?k1" using ipc_frameD(6)[OF fr4] .
    have cf: "cpu_frame ?k4 k'" using rt_schedule_frame[OF s] by simp
    note d = cpu_frameD[OF cf]
    have fr: "ipc_frame ?k4 k'" by (rule ipc_frame_schedule[OF s])
    have "mp_rep a (x # f) k'" using g(1) mp_frame[OF fr] mp_frame[OF fr4] by simp
    moreover have "mp_used a (x # f) k' = mp_used a f k - {x + 4}"
      using g(5) mp_used_frame[OF fr] mp_used_frame[OF fr4] by simp
    moreover have "suspend_thread_count (mempools k' a) = sub32 (suspend_thread_count (mempools k a)) 1"
      using ipc_frameD(6)[OF fr] mp4 by simp
    then have "mp_waiters_ok a k'"
      using wait c Cons d(2) p(3) by (simp add: mp_waiters_ok_def sub32_def)
    moreover have "run_ready k'" if "run_ready k"
    proof (rule run_ready_schedule_any[OF wf_kernelD(1)[OF w4] s])
      have "run_ready ?k2" using that by (auto simp: run_ready_def tstat_def)
      then have "run_ready ?k3" by (rule run_ready_resumed)
      then show "run_ready ?k4" by (simp add: run_ready_def tstat_def)
    qed
    moreover have "tstat k' t = RT_THREAD_READY" "error (thread k' t) = RT_EOK"
      using tstat_resumed[of t ?k2] d(1) by (simp_all add: tstat_def thread_resumed_thread)
    ultimately show ?thesis using wf_kernel_schedule[OF w4 s] d(2) p(3) Cons by auto
  qed
  then show "wf_kernel lo k'" "run_ready k \<Longrightarrow> run_ready k'" "mp_rep a (x # f) k'"
    "mp_used a (x # f) k' = mp_used a f k - {x + 4}" "mp_waiters_ok a k'"
    "lists k' (Susp a) = tl (lists k (Susp a))"
    "lists k (Susp a) = t # ts \<Longrightarrow> tstat k' t = RT_THREAD_READY \<and> error (thread k' t) = RT_EOK" by auto
qed

text \<open>Allocating: a free block at once, an error at once, or the caller in the queue.\<close>

lemma wf_kernel_set_errno [simp]: "wf_kernel lo k \<Longrightarrow> wf_kernel lo (rt_set_errno e k)"
  by (auto simp: rt_set_errno_def rt_thread_self_def wf_kernel_set_error
      intro: wf_kernel_same[of lo k] split: option.split)

lemma ipc_frame_set_errno: "ipc_frame k (rt_set_errno e k)"
  by (auto simp: rt_set_errno_def ipc_frame_def ipc_state_def split: option.split)

lemma set_errno_sel [simp]:
  "lists (rt_set_errno e k) = lists k" "current (rt_set_errno e k) = current k"
  "tstat (rt_set_errno e k) = tstat k"
  by (auto simp: rt_set_errno_def tstat_def fun_eq_iff split: option.split)

lemma mp_wait_ok:
  assumes w: "wf_kernel lo k" and lo: "lo \<le> 1" and r: "tstat k t = RT_THREAD_READY"
    and s: "rt_thread_suspend t k = Some (e, k1)" and i: "tl_insert_after (Susp a) t k1 = Some k2"
    and st: "start_wait_timer t time (upd_mp a (\<lambda>m. m\<lparr>suspend_thread_count := c m\<rparr>) k2) = Some k3"
    and sc: "rt_schedule k3 = Some k'"
  shows "wf_kernel lo k'" "waiting (Susp a) t k'" "lists k' (Susp a) = t # lists k (Susp a)"
    "lock_nest k = 0 \<Longrightarrow> run_ready k'" "mempools k' = mempools (upd_mp a (\<lambda>m. m\<lparr>suspend_thread_count := c m\<rparr>) k)"
    "mp_rep a f k' = mp_rep a f k"
proof -
  let ?k = "upd_mp a (\<lambda>m. m\<lparr>suspend_thread_count := c m\<rparr>) k2"
  have k1: "k1 = thread_suspended t k"
    using rt_thread_suspend_eq[OF wf_kernelD(1)[OF w], of t] r s by simp
  have w1: "wf_kernel lo k1" unfolding k1 by (rule wf_kernel_suspended[OF w r])
  have s1: "tstat k1 t = RT_THREAD_SUSPEND" unfolding k1 by (rule tstat_suspended)
  have n1: "tlist (thread k1 t) = None" by (simp add: thread_suspended_thread k1)
  have k2: "k2 = tl_set (Susp a) (t # lists k1 (Susp a)) t k1" using i n1 by (simp add: tl_insert_after_def)
  have "t \<notin> set (lists k1 (Susp a))"
    using wf_queuesD(2)[of k1 t "Susp a"] w1 n1 by auto
  moreover have "distinct (lists k1 (Susp a))" using wf_queuesD(1)[of k1 "Susp a"] w1 by auto
  ultimately have w2: "wf_kernel lo k2"
    unfolding k2 by (intro wf_kernel_enqueue[OF w1 s1 n1]) simp_all
  have "tlist (thread k t) = Some (Ready (tprio k t))"
    using r wf_schedD(3)[OF wf_kernelD(1)[OF w], of t]
    by (auto simp: thread_ok_def tstat_def tprio_def Let_def)
  then have "t \<notin> set (lists k (Susp a))" using wf_queuesD(2)[of k t "Susp a"] w by auto
  then have l1: "lists k1 (Susp a) = lists k (Susp a)"
    by (simp add: k1 thread_suspended_def sched_removed_def removeAll_id)
  have s2: "tstat ?k t = RT_THREAD_SUSPEND" using s1 by (simp add: k2 tl_set_eq tstat_def)
  have wk: "wf_kernel lo ?k" using w2 by simp
  note m = start_wait_timer_ok[OF wk lo s2 st]
  have cf: "cpu_frame k3 k'" using rt_schedule_frame[OF sc] by simp
  note d = cpu_frameD[OF cf]
  have f0: "ipc_frame k k2" using ipc_frame_suspended ipc_frame_tl_set ipc_frame_trans unfolding k1 k2 by blast
  have f1: "ipc_frame ?k k'" using m(2) ipc_frame_schedule[OF sc] ipc_frame_trans by blast
  show "wf_kernel lo k'" by (rule wf_kernel_schedule[OF m(1) sc])
  show "waiting (Susp a) t k'"
    using s2 d(1) m(3) by (simp add: waiting_def tstat_def k2 tl_set_eq)
  show "lists k' (Susp a) = t # lists k (Susp a)" using d(2) m(4) l1 by (simp add: k2 tl_set_eq)
  show "run_ready k'" if "lock_nest k = 0"
    using run_ready_schedule[OF wf_kernelD(1)[OF m(1)] sc] that ipc_frameD(11)[OF f0] ipc_frameD(11)[OF m(2)]
    by simp
  show "mempools k' = mempools (upd_mp a (\<lambda>m. m\<lparr>suspend_thread_count := c m\<rparr>) k)"
    using ipc_frameD(6)[OF f1] ipc_frameD(6)[OF f0] by simp
  show "mp_rep a f k' = mp_rep a f k" using mp_frame[OF f1] mp_frame[OF f0] by simp
qed

lemma mp_alloc_loop_ok:
  assumes w: "wf_kernel lo k" and lo: "lo \<le> 1" and cur: "run_ready k" and rep: "mp_rep a f k"
    and wait: "mp_waiters_ok a k" and r: "mp_alloc_loop a time k = Some (res, k')"
  shows "wf_kernel lo k'" "lock_nest k = 0 \<Longrightarrow> run_ready k'"
    "case f of
       x # f' \<Rightarrow> res = Ret (x + 4) \<and> mp_rep a f' k' \<and> x + 4 \<notin> mp_used a f k \<and>
         mp_used a f' k' = Set.insert (x + 4) (mp_used a f k) \<and> lists k' (Susp a) = lists k (Susp a)
     | [] \<Rightarrow> mp_rep a [] k' \<and> mp_used a [] k' = mp_used a [] k \<and>
         (case res of
            Ret p \<Rightarrow> p = 0 \<and> time = 0 \<and> lists k' (Susp a) = lists k (Susp a)
          | Wait (t, tm, st) \<Rightarrow> time \<noteq> 0 \<and> current k = Some t \<and> waiting (Susp a) t k' \<and>
              lists k' (Susp a) = t # lists k (Susp a))"
    "length (lists k (Susp a)) < 2 ^ 32 - 2 \<Longrightarrow> mp_waiters_ok a k'"
proof -
  note fc = mp_repD(2)[OF rep]
  have "wf_kernel lo k' \<and> (lock_nest k = 0 \<longrightarrow> run_ready k') \<and> (case f of
       x # f' \<Rightarrow> res = Ret (x + 4) \<and> mp_rep a f' k' \<and> x + 4 \<notin> mp_used a f k \<and>
         mp_used a f' k' = Set.insert (x + 4) (mp_used a f k) \<and> lists k' (Susp a) = lists k (Susp a)
     | [] \<Rightarrow> mp_rep a [] k' \<and> mp_used a [] k' = mp_used a [] k \<and>
         (case res of
            Ret p \<Rightarrow> p = 0 \<and> time = 0 \<and> lists k' (Susp a) = lists k (Susp a)
          | Wait (t, tm, st) \<Rightarrow> time \<noteq> 0 \<and> current k = Some t \<and> waiting (Susp a) t k' \<and>
              lists k' (Susp a) = t # lists k (Susp a))) \<and>
    (length (lists k (Susp a)) < 2 ^ 32 - 2 \<longrightarrow> mp_waiters_ok a k')"
  proof (cases f)
    case (Cons x f')
    obtain k1 where k1: "mp_take a k = Some (x + 4, k1)" "mp_rep a f' k1"
      "mp_used a f' k1 = Set.insert (x + 4) (mp_used a f k)" "x + 4 \<notin> mp_used a f k" "thread k1 = thread k"
      "lists k1 = lists k" "current k1 = current k" "lock_nest k1 = lock_nest k"
      "suspend_thread_count (mempools k1 a) = suspend_thread_count (mempools k a)" "wf_kernel lo k1"
      using mp_take_ok[of a x f' k lo] rep w Cons by blast
    have "res = Ret (x + 4) \<and> k' = k1" using r fc Cons k1(1) by (simp add: mp_alloc_loop_def)
    then show ?thesis using k1 wait cur Cons by (simp add: run_ready_def tstat_def mp_waiters_ok_def)
  next
    case Nil
    show ?thesis
    proof (cases "time = 0")
      case True
      then have "res = Ret 0 \<and> k' = rt_set_errno (- RT_ETIMEOUT) k" using r fc Nil by (simp add: mp_alloc_loop_def)
      then show ?thesis
        using w cur rep wait Nil True mp_frame[OF ipc_frame_set_errno] mp_used_frame[OF ipc_frame_set_errno]
          ipc_frameD(6)[OF ipc_frame_set_errno]
        by (simp add: run_ready_def mp_waiters_ok_def)
    next
      case False
      obtain t e k1 k2 k3 where k: "rt_thread_self k = Some t"
        "rt_thread_suspend t (upd_thread t (\<lambda>th. th\<lparr>error := RT_EOK\<rparr>) k) = Some (e, k1)"
        "tl_insert_after (Susp a) t k1 = Some k2"
        "start_wait_timer t time (upd_mp a (\<lambda>m. m\<lparr>suspend_thread_count := add32 (suspend_thread_count m) 1\<rparr>) k2)
           = Some k3" "rt_schedule k3 = Some k'" "\<exists>st. res = Wait (t, time, st)"
        using r fc Nil False by (auto simp: mp_alloc_loop_def Let_def bind_eq_Some_conv split: if_splits)
      let ?k = "upd_thread t (\<lambda>th. th\<lparr>error := RT_EOK\<rparr>) k"
      have c: "current k = Some t" using k(1) by (simp add: rt_thread_self_def)
      have rd: "tstat ?k t = RT_THREAD_READY" using cur c by (simp add: run_ready_def tstat_def)
      note m = mp_wait_ok[OF wf_kernel_set_error[OF w] lo rd k(2-5)]
      have "mp_waiters_ok a k'" if "length (lists k (Susp a)) < 2 ^ 32 - 2"
        using that wait m(3,5) by (simp add: mp_waiters_ok_def add32_def)
      moreover have "mp_rep a [] k'" using m(6)[of "[]"] rep Nil mp_frame[OF ipc_frame_upd_thread[of k], where a = a] by simp
      moreover have "mp_used a [] k' = mp_used a [] k" using m(5) by (simp add: mp_used_def Let_def)
      ultimately show ?thesis using m(1-4) c False k(6) Nil by auto
    qed
  qed
  then show "wf_kernel lo k'" "lock_nest k = 0 \<Longrightarrow> run_ready k'"
    "case f of
       x # f' \<Rightarrow> res = Ret (x + 4) \<and> mp_rep a f' k' \<and> x + 4 \<notin> mp_used a f k \<and>
         mp_used a f' k' = Set.insert (x + 4) (mp_used a f k) \<and> lists k' (Susp a) = lists k (Susp a)
     | [] \<Rightarrow> mp_rep a [] k' \<and> mp_used a [] k' = mp_used a [] k \<and>
         (case res of
            Ret p \<Rightarrow> p = 0 \<and> time = 0 \<and> lists k' (Susp a) = lists k (Susp a)
          | Wait (t, tm, st) \<Rightarrow> time \<noteq> 0 \<and> current k = Some t \<and> waiting (Susp a) t k' \<and>
              lists k' (Susp a) = t # lists k (Susp a))"
    "length (lists k (Susp a)) < 2 ^ 32 - 2 \<Longrightarrow> mp_waiters_ok a k'" by blast+
qed

section \<open>Setting a pool up\<close>

lemma mp_link_load:
  assumes "p + N * st < 2 ^ 32" "4 \<le> st" "n \<le> N" "i < n"
  shows "load32 (p + i * st) (mp_link p st n m) = of_nat (p + Suc i * st)"
  using assms(3,4)
proof (induction n)
  case (Suc n)
  have "n * st \<le> N * st" using Suc.prems by (intro mult_right_mono) simp_all
  then have "p + n * st < 2 ^ 32" using assms(1) by linarith
  then have a: "add32 p (mul32 n st) = p + n * st" by (simp add: add32_def mul32_def)
  show ?case
  proof (cases "i = n")
    case False
    then have "Suc i * st \<le> n * st" using Suc.prems by (intro mult_right_mono) simp_all
    then have "apart (p + n * st) 4 (p + i * st) 4" using assms(2) by (simp add: apart_def)
    then show ?thesis using Suc False by (simp add: a load32_store32_apart)
  qed (simp only: mp_link.simps a load32_store32_same)
qed simp

lemma mchain_row:
  assumes "\<And>i. j \<le> i \<Longrightarrow> Suc i < n \<Longrightarrow> load32 (p + i * st) m = of_nat (p + Suc i * st)"
    and "load32 (p + (n - 1) * st) m = 0" "0 < p" "p + n * st < 2 ^ 32" "j < n"
  shows "mchain m (p + j * st) (map (\<lambda>i. p + i * st) [j..<n])"
  using assms(1,5)
proof (induction "n - j" arbitrary: j)
  case (Suc d)
  show ?case
  proof (cases "Suc j = n")
    case True
    then have "load32 (p + j * st) m = 0" using assms(2) by auto
    then show ?thesis using assms(3) Suc.prems True by (simp add: upt_conv_Cons)
  next
    case False
    then have sj: "Suc j < n" using Suc.prems by simp
    then have "Suc j * st \<le> n * st" by (intro mult_right_mono) simp_all
    then have "unat (of_nat (p + Suc j * st) :: u32) = p + Suc j * st"
      using assms(4) by (subst unat_of_nat) simp
    moreover have "mchain m (p + Suc j * st) (map (\<lambda>i. p + i * st) [Suc j..<n])"
      by (rule Suc.hyps(1)) (use Suc sj in auto)
    moreover have "load32 (p + j * st) m = of_nat (p + Suc j * st)" using Suc.prems(1)[of j] sj by simp
    ultimately show ?thesis
      using Suc.prems(2) assms(3) by (simp only: upt_conv_Cons list.map mchain.simps) simp
  qed
qed simp

lemma mp_blocks_ok:
  assumes m: "m = mempools k a" and n: "0 < block_total_count m" "block_free_count m = block_total_count m"
    and p: "0 < start_address m" "start_address m + block_total_count m * (block_size m + 4) < 2 ^ 32"
    and a: "a < 2 ^ 32"
  shows "mp_rep a (map (\<lambda>i. start_address m + i * (block_size m + 4)) [0..<block_total_count m]) (mp_blocks a k)"
proof -
  let ?p = "start_address m" and ?st = "block_size m + 4" and ?n = "block_total_count m"
  have "?st \<le> ?n * ?st" using n(1) by simp
  then have "?st < 2 ^ 32" using p(2) by linarith
  then have st: "add32 (block_size m) 4 = ?st" by (simp add: add32_def)
  have nl: "?n < 2 ^ 32" using slots_lt[OF p(2)] .
  have "(?n - 1) * ?st \<le> ?n * ?st" by (intro mult_right_mono) simp_all
  then have "?p + (?n - 1) * ?st < 2 ^ 32" using p(2) by linarith
  moreover have "sub32 ?n 1 = ?n - 1" using n(1) nl by (cases ?n) (simp_all add: sub32_def)
  ultimately have la: "add32 ?p (mul32 (sub32 ?n 1) ?st) = ?p + (?n - 1) * ?st"
    by (simp add: add32_def mul32_def)
  let ?r = "store32 (?p + (?n - 1) * ?st) 0 (mp_link ?p ?st ?n (kram k))"
  have ram: "kram (mp_blocks a k) = ?r" using la st by (simp add: mp_blocks_def Let_def m[symmetric])
  have ld: "load32 (?p + i * ?st) ?r = of_nat (?p + Suc i * ?st)" if "Suc i < ?n" for i
  proof -
    have "Suc i * ?st \<le> (?n - 1) * ?st" using that by (intro mult_right_mono) simp_all
    then have "apart (?p + (?n - 1) * ?st) 4 (?p + i * ?st) 4" by (simp add: apart_def)
    then show ?thesis
      using mp_link_load[OF p(2) _ order.refl, of i "kram k"] that by (simp only: load32_store32_apart)
  qed
  have ch: "mchain ?r ?p (map (\<lambda>i. ?p + i * ?st) [0..<?n])"
    using mchain_row[of 0 ?n ?p ?st ?r] ld p n(1) by (simp add: load32_store32_same)
  have "distinct (map (\<lambda>i. ?p + i * ?st) [0..<?n])" by (auto simp: distinct_map inj_on_def)
  moreover have "mempools (mp_blocks a k) a = m\<lparr>block_list := ?p\<rparr>" using m by (simp add: mp_blocks_def Let_def)
  ultimately show ?thesis using ch n p a by (auto simp: mp_rep_def Let_def ram slot_def)
qed

lemma mp_blocks_frame [simp]:
  "thread (mp_blocks a k) = thread k" "lists (mp_blocks a k) = lists k" "current (mp_blocks a k) = current k"
  "suspend_thread_count (mempools (mp_blocks a k) a) = suspend_thread_count (mempools k a)"
  "wf_kernel lo k \<Longrightarrow> wf_kernel lo (mp_blocks a k)"
  by (simp_all add: mp_blocks_def Let_def wf_kernel_ram)

lemma rt_mp_init_ok:
  assumes w: "wf_kernel lo k" and r: "rt_mp_init a name p sz bsz k = Some (e, k')"
    and p: "0 < p" "p + sz < 2 ^ 32" and n: "align4 bsz + 4 \<le> align_down4 sz" and a: "a < 2 ^ 32"
  shows "wf_kernel lo k'" "mp_waiters_ok a k'"
    "\<exists>f. mp_rep a f k' \<and> length f = align_down4 sz div (align4 bsz + 4) \<and> mp_used a f k' = {}"
proof -
  let ?n = "align_down4 sz div (align4 bsz + 4)"
  have ds: "align_down4 sz \<le> sz" by (simp add: align_down4_def)
  have st: "add32 (align4 bsz) 4 = align4 bsz + 4" using n ds p(2) by (simp add: add32_def)
  obtain k1 where k1: "rt_object_init (Obj a) RT_Object_Class_MemPool name k = Some k1"
    and l: "lists k1 (Susp a) = []"
    and k': "k' = mp_blocks a (upd_mp a (\<lambda>m. m\<lparr>start_address := p, mp_size := align_down4 sz,
      block_size := align4 bsz, block_total_count := ?n, block_free_count := ?n, suspend_thread_count := 0\<rparr>) k1)"
    using r st by (auto simp: rt_mp_init_def bind_eq_Some_conv Let_def)
  show "wf_kernel lo k'" unfolding k' using wf_kernel_object_init[OF w k1] by simp
  show "mp_waiters_ok a k'" unfolding k' using l by (simp add: mp_waiters_ok_def)
  let ?f = "map (\<lambda>i. p + i * (align4 bsz + 4)) [0..<?n]"
  have "?n * (align4 bsz + 4) \<le> align_down4 sz" by simp
  then have b: "p + ?n * (align4 bsz + 4) < 2 ^ 32" using p(2) ds by linarith
  have "0 < ?n" using n by (simp add: div_greater_zero_iff)
  then have "mp_rep a ?f k'"
    using mp_blocks_ok[OF refl, of "upd_mp a (\<lambda>m. m\<lparr>start_address := p, mp_size := align_down4 sz,
      block_size := align4 bsz, block_total_count := ?n, block_free_count := ?n, suspend_thread_count := 0\<rparr>) k1" a]
      p(1) b a unfolding k' by simp
  moreover have "mp_used a ?f k' = {}" unfolding k' by (auto simp: mp_used_def mp_blocks_def Let_def slot_def)
  ultimately show "\<exists>f. mp_rep a f k' \<and> length f = ?n \<and> mp_used a f k' = {}"
    by (metis diff_zero length_map length_upt)
qed

section \<open>Removing a pool\<close>

lemma mp_resume_all_ok:
  assumes "wf_kernel lo k"
  shows "\<exists>k'. mp_resume_all a k = Some k' \<and> wf_kernel lo k' \<and> lists k' (Susp a) = [] \<and>
    (\<forall>t\<in>set (lists k (Susp a)). tstat k' t = RT_THREAD_READY \<and> error (thread k' t) = - RT_ERROR) \<and>
    (\<forall>t. t \<notin> set (lists k (Susp a)) \<longrightarrow> thread k' t = thread k t)"
  using assms
proof (induction "lists k (Susp a)" arbitrary: k)
  case Nil
  then show ?case using mp_resume_all.simps[of a k] by auto
next
  case (Cons t ts)
  define k1 where "k1 = upd_thread t (\<lambda>th. th\<lparr>error := - RT_ERROR\<rparr>) k"
  have w1: "wf_kernel lo k1" unfolding k1_def by (rule wf_kernel_set_error[OF Cons(3)])
  have l1: "lists k1 (Susp a) = t # ts" using Cons(2) by (simp add: k1_def)
  note r = rt_ipc_list_resume_ok[OF w1 _ l1, simplified]
  let ?k = "upd_mp a (\<lambda>m. m\<lparr>suspend_thread_count := sub32 (suspend_thread_count m) 1\<rparr>) (thread_resumed t k1)"
  have s: "tstat k1 t = RT_THREAD_SUSPEND"
    using waiting_iff[OF w1, of "Susp a" t] l1 by (simp add: waiting_def)
  have res: "rt_thread_resume t k1 = Some (RT_EOK, thread_resumed t k1)"
    using rt_thread_resume_eq[OF wf_kernelD(1)[OF w1], of t] s by simp
  obtain k' where k': "mp_resume_all a ?k = Some k'" "wf_kernel lo k'" "lists k' (Susp a) = []"
    "\<forall>u\<in>set ts. tstat k' u = RT_THREAD_READY \<and> error (thread k' u) = - RT_ERROR"
    "\<forall>u. u \<notin> set ts \<longrightarrow> thread k' u = thread ?k u"
    using Cons(1)[of ?k] r by auto
  have "mp_resume_all a k = Some k'"
    using k'(1) res Cons(2)[symmetric] by (subst mp_resume_all.simps) (simp add: k1_def Let_def)
  moreover have "t \<notin> set ts"
    using wf_queuesD(1)[of k "Susp a"] Cons(2,3) by (metis distinct.simps(2) wf_kernelD(1) wf_schedD(1))
  then have "thread k' t = thread ?k t" using k'(5) by blast
  then have "tstat k' t = RT_THREAD_READY" "error (thread k' t) = - RT_ERROR"
    using tstat_resumed[of t k1] by (simp_all add: tstat_def thread_resumed_thread k1_def)
  moreover have "thread k' u = thread k u" if "u \<notin> set (t # ts)" for u
    using k'(5) that by (auto simp: thread_resumed_thread k1_def)
  ultimately show ?case using k' Cons(2)[symmetric] by (auto simp: k1_def)
qed

lemma wf_kernel_mp_detach:
  assumes "wf_kernel lo k" "rt_mp_detach a k = Some (e, k')"
  shows "wf_kernel lo k'"
proof -
  obtain k1 where "mp_resume_all a k = Some k1" "k' = rt_object_detach (Obj a) k1"
    using assms(2) by (auto simp: rt_mp_detach_def bind_eq_Some_conv)
  then show ?thesis using mp_resume_all_ok[OF assms(1), of a] wf_kernel_object_detach by auto
qed

lemma wf_kernel_mp_delete:
  assumes w: "wf_kernel lo k" and r: "rt_mp_delete a k = Some (e, k')"
  shows "wf_kernel lo k'"
proof -
  obtain k1 k2 where k: "mp_resume_all a k = Some k1"
    "k_free (start_address (mempools k1 a)) k1 = Some k2" "rt_object_delete a k2 = Some k'"
    using r unfolding rt_mp_delete_def bind_eq_Some_conv by blast
  have "wf_kernel lo k2" using mp_resume_all_ok[OF w, of a] k(1,2) by (auto simp: k_free_eq_Some)
  then show ?thesis by (rule wf_kernel_object_delete[OF _ k(3)])
qed

lemma wf_kernel_allocate_or_null:
  assumes w: "wf_kernel lo k" and r: "rt_object_allocate ty name k = Some (p, k')"
    and t: "p \<noteq> 0 \<Longrightarrow> Obj p \<notin> set (timer_list k)"
  shows "wf_kernel lo k'"
proof (cases "p = 0")
  case True
  from r show ?thesis by (cases rule: rt_object_allocate_cases) (use w True in simp_all)
qed (use wf_kernel_allocate[OF w r] t in simp)

lemma wf_kernel_mp_create:
  assumes w: "wf_kernel lo k" and r: "rt_mp_create name cnt bsz k = Some (b, k')"
    and t: "\<And>a. Obj a \<in> set (timer_list k) \<Longrightarrow> a \<noteq> 0 \<Longrightarrow>
      \<forall>k1. rt_object_allocate RT_Object_Class_MemPool name k \<noteq> Some (a, k1)"
  shows "wf_kernel lo k'"
proof -
  obtain a k1 where k1: "rt_object_allocate RT_Object_Class_MemPool name k = Some (a, k1)"
    using r by (auto simp: rt_mp_create_def bind_eq_Some_conv)
  have w1: "wf_kernel lo k1" by (rule wf_kernel_allocate_or_null[OF w k1]) (use t k1 in blast)
  show ?thesis
  proof (cases "a = 0")
    case True
    then show ?thesis using r k1 w1 by (auto simp: rt_mp_create_def bind_eq_Some_conv)
  next
    case False
    let ?k2 = "upd_mp a (\<lambda>m. m\<lparr>block_size := align4 bsz, mp_size := mul32 (add32 (align4 bsz) 4) cnt\<rparr>) k1"
    obtain p k3 where k3: "k_malloc (mul32 (add32 (align4 bsz) 4) cnt) ?k2 = Some (p, k3)"
      using r k1 False by (auto simp: rt_mp_create_def bind_eq_Some_conv Let_def)
    have w3: "wf_kernel lo k3" using w1 k3 by (auto simp: k_malloc_eq_Some)
    show ?thesis
    proof (cases "p = 0")
      case True
      then have "rt_object_delete a (upd_mp a (\<lambda>m. m\<lparr>start_address := 0\<rparr>) k3) = Some k'"
        using r k1 False k3 by (auto simp: rt_mp_create_def bind_eq_Some_conv Let_def)
      then show ?thesis by (rule wf_kernel_object_delete[rotated]) (use w3 in simp)
    next
      case p: False
      then have "\<exists>k4. k' = mp_blocks a k4 \<and> wf_kernel lo k4"
        using r k1 False k3 w3 by (auto simp: rt_mp_create_def bind_eq_Some_conv Let_def)
      then show ?thesis by auto
    qed
  qed
qed

section \<open>A wait that times out\<close>

text \<open>
  The expiry of the timer unlinks the thread from the queue of the pool, and nothing lowers the
  count of waiters: the next \<^verbatim>\<open>rt_mp_free\<close> takes the empty queue's head for a thread.
\<close>

lemma rt_mp_free_no_waiter:
  assumes rep: "mp_rep a f k" and b: "x + 4 \<in> mp_used a f k"
    and c: "0 < suspend_thread_count (mempools k a)" "lists k (Susp a) = []"
  shows "rt_mp_free (x + 4) k = None"
proof -
  note g = mp_give_back_ok[OF rep b]
  have "unat (of_nat a :: u32) = a" using mp_repD(8)[OF rep] by (simp add: unat_of_nat)
  then have "sub32 (x + 4) 4 = x" "unat (load32 x (kram k)) = a" using g(2,4) by (simp_all add: sub32_def)
  then show ?thesis using c by (simp add: rt_mp_free_def Let_def)
qed

lemma rt_thread_timeout_unlinks:
  assumes w: "wf_kernel lo k" and r: "rt_thread_timeout t k = Some k'" and q: "wait_queue q"
  shows "ipc_frame k k'" "lists k' q = removeAll t (lists k q)"
proof -
  let ?k1 = "upd_thread t (\<lambda>th. th\<lparr>error := - RT_ETIMEOUT\<rparr>) k"
  let ?k2 = "tl_unlink t ?k1"
  have s: "tstat k t = RT_THREAD_SUSPEND" using r by (auto simp: rt_thread_timeout_def)
  obtain k3 where k3: "rt_schedule_insert_thread t ?k2 = Some k3" and k': "rt_schedule k3 = Some k'"
    using r by (auto simp: rt_thread_timeout_def bind_eq_Some_conv)
  have w1: "wf_kernel lo ?k1" by (rule wf_kernel_set_error[OF w])
  have s1: "tstat ?k1 t = RT_THREAD_SUSPEND" using s by (simp add: tstat_def)
  have n: "tlist (thread ?k2 t) = None" by (simp add: tl_unlink_eq)
  have "tprio ?k2 t < 32" using wf_kernel_unlink_suspended[OF w1 s1] tprio_lt by blast
  then have e: "k3 = sched_inserted t ?k2" using k3 rt_schedule_insert_thread_eq[OF n] by simp
  show "ipc_frame k k'"
    using ipc_frame_schedule[OF k'] ipc_frame_sched_inserted ipc_frame_tl_unlink ipc_frame_upd_thread
      ipc_frame_trans unfolding e by metis
  have "lists k' q = lists k3 q" using rt_schedule_frame[OF k'] cpu_frameD(2)[of k3 k'] by simp
  then show "lists k' q = removeAll t (lists k q)"
    using q lists_unlink[of ?k1 t q] w1 unfolding e by (auto simp: sched_inserted_def wait_queue_def)
qed

lemma rt_thread_timeout_error:
  assumes "rt_thread_timeout t k = Some k'"
  shows "error (thread k' t) = - RT_ETIMEOUT"
proof -
  obtain k1 where "rt_schedule_insert_thread t (tl_unlink t (upd_thread t (\<lambda>th. th\<lparr>error := - RT_ETIMEOUT\<rparr>) k)) = Some k1"
    "rt_schedule k1 = Some k'"
    using assms by (auto simp: rt_thread_timeout_def bind_eq_Some_conv)
  moreover from this(2) have "thread k' = thread k1" using rt_schedule_frame cpu_frameD(1) by blast
  ultimately show ?thesis
    by (auto simp: rt_schedule_insert_thread_def tl_insert_before_def tl_push_def tl_set_eq tl_unlink_eq
        bind_eq_Some_conv Let_def)
qed

text \<open>The thread whose time ran out leaves the queue, returns no block when it runs again, and stays
  counted.\<close>

lemma rt_mp_free_after_timeout:
  assumes w: "wf_kernel lo k" and lo: "lo \<le> 1" and cur: "run_ready k" and rep: "mp_rep a [] k"
    and wait: "mp_waiters_ok a k" "lists k (Susp a) = []"
    and r: "mp_alloc_loop a time k = Some (Wait (t, tm, st), k1)" and tmo: "rt_thread_timeout t k1 = Some k2"
    and b: "x + 4 \<in> mp_used a [] k"
    and c: "k3 = k2\<lparr>current := Some t\<rparr>"
  shows "lists k3 (Susp a) = []" "rt_mp_alloc_cont a (t, tm, st) k3 = Some (Ret 0, k3)"
    "suspend_thread_count (mempools k3 a) = 1" "rt_mp_free (x + 4) k3 = None"
proof -
  note m = mp_alloc_loop_ok[OF w lo cur rep wait(1) r]
  have m3: "mp_rep a [] k1" "mp_used a [] k1 = mp_used a [] k" "lists k1 (Susp a) = [t]"
    using m(3) wait(2) by simp_all
  have "mp_waiters_ok a k1" by (rule m(4)) (simp add: wait(2))
  then have c1: "suspend_thread_count (mempools k1 a) = 1" using m3(3) by (simp add: mp_waiters_ok_def)
  note u = rt_thread_timeout_unlinks[OF m(1) tmo wait_queue_Susp(1)]
  show l: "lists k3 (Susp a) = []" using u(2)[of a] m3(3) c by simp
  show n: "suspend_thread_count (mempools k3 a) = 1" using c1 ipc_frameD(6)[OF u(1)] c by simp
  show "rt_mp_alloc_cont a (t, tm, st) k3 = Some (Ret 0, k3)"
    using rt_thread_timeout_error[OF tmo] c by (simp add: rt_mp_alloc_cont_def rt_consts)
  have "mp_rep a [] k2" using m3(1) mp_frame[OF u(1)] by simp
  then have rp: "mp_rep a [] k3" using c by (simp add: mp_rep_def kram_def)
  have "mp_used a [] k3 = mp_used a [] k2" using c by (simp add: mp_used_def)
  then have "mp_used a [] k3 = mp_used a [] k" using m3(2) mp_used_frame[OF u(1)] by simp
  then show "rt_mp_free (x + 4) k3 = None"
    by (intro rt_mp_free_no_waiter[OF rp]) (use b n l in simp_all)
qed

end
