(* ===== verification/IpcLive.thy ===== *)
theory IpcLive
  imports MemPool
begin

text \<open>
  The calls return. In a well-formed state whose threads have intact stacks (\<^const>\<open>live\<close>), a call
  that wakes threads comes back, and a call that blocks hands the processor to another ready
  thread; \<^const>\<open>live\<close> holds again afterwards.
\<close>

section \<open>The scheduler and the moves of threads\<close>

lemma live_frame:
  assumes "live k" "kheap k' = kheap k" "timers k' = timers k" "objects k' = objects k" "current k' \<noteq> None"
    and "\<And>t. sp (thread k' t) = sp (thread k t) \<and> stack_addr (thread k' t) = stack_addr (thread k t) \<and>
      stack_size (thread k' t) = stack_size (thread k t)"
    and "\<And>t. tstat k' t = RT_THREAD_READY \<or> tstat k' t = RT_THREAD_SUSPEND \<Longrightarrow>
      tstat k t = RT_THREAD_READY \<or> tstat k t = RT_THREAD_SUSPEND"
  shows "live k'"
  using assms stacks_ok_cong[of k k'] by (auto simp: live_def periods_ok_def timer_flag_def)

lemma rt_schedule_live:
  assumes w: "wf_sched k" and l: "live k" and r: "tstat k u = RT_THREAD_READY"
  shows "\<exists>k'. rt_schedule k = Some k' \<and> live k'"
proof -
  obtain k' where k': "rt_schedule k = Some k'"
    using rt_schedule_progress[OF w r] l by (auto simp: live_def stacks_ok_def must_run_def)
  have f: "cpu_frame k k'" using rt_schedule_frame[OF k'] by simp
  note d = cpu_frameD[OF f]
  have "current k' \<noteq> None" using k' l by (cases rule: rt_schedule_cases) (auto simp: live_def)
  then have "live k'" by (intro live_frame[OF l]) (use d in \<open>auto simp: tstat_def\<close>)
  then show ?thesis using k' by blast
qed

lemma live_set_error [simp]: "live k \<Longrightarrow> live (upd_thread t (\<lambda>th. th\<lparr>error := e\<rparr>) k)"
  by (rule live_frame[of k]) (auto simp: live_def tstat_def split: if_splits)

lemma live_timer_stopped: "live k \<Longrightarrow> live (timer_stopped i k)"
  by (auto simp: timer_stopped_def rt_timer_stop_def live_flag_off live_timer_remove)

lemma live_suspended:
  assumes "live k" "tstat k t = RT_THREAD_READY"
  shows "live (thread_suspended t k)"
  unfolding thread_suspended_def
  by (rule live_timer_stopped, rule live_frame[OF assms(1)])
    (use assms in \<open>auto simp: live_def sched_removed_def tstat_def split: if_splits\<close>)

lemma live_resumed:
  assumes l: "live k" and s: "tstat k t = RT_THREAD_SUSPEND"
  shows "live (thread_resumed t k)"
proof -
  have "live (tl_unlink t k)"
    by (rule live_frame[OF l]) (use l in \<open>auto simp: live_def tl_unlink_eq tstat_def split: if_splits\<close>)
  then have l1: "live (timer_stopped (TimerOf t) (tl_unlink t k))" by (rule live_timer_stopped)
  have c: "current k \<noteq> None" using l by (simp add: live_def)
  show ?thesis
    unfolding thread_resumed_def
  proof (rule live_frame[OF l1])
    fix u
    show "tstat (timer_stopped (TimerOf t) (tl_unlink t k)) u = RT_THREAD_READY \<or>
      tstat (timer_stopped (TimerOf t) (tl_unlink t k)) u = RT_THREAD_SUSPEND"
      if "tstat (sched_inserted t (timer_stopped (TimerOf t) (tl_unlink t k))) u = RT_THREAD_READY \<or>
        tstat (sched_inserted t (timer_stopped (TimerOf t) (tl_unlink t k))) u = RT_THREAD_SUSPEND"
      using that s by (cases "u = t") (simp_all add: sched_inserted_def tl_unlink_eq tstat_def)
  qed (use c in \<open>simp_all add: sched_inserted_def tl_unlink_eq\<close>)
qed

lemma live_tl_set: "live k \<Longrightarrow> live (tl_set q xs t k)"
  by (rule live_frame[of k]) (auto simp: live_def tl_set_eq tstat_def split: if_splits)

lemma tstat_resumed_other: "tstat k u = RT_THREAD_READY \<Longrightarrow> tstat (thread_resumed t k) u = RT_THREAD_READY"
  using tstat_resumed[of t k] by (cases "u = t") (auto simp: thread_resumed_thread tstat_def)

section \<open>Waking\<close>

lemma resume_one_and_schedule_live:
  assumes w: "wf_kernel lo k" and l: "live k" and q: "wait_queue q"
  shows "\<exists>k'. resume_one_and_schedule q k = Some k' \<and> live k'"
proof (cases "lists k q")
  case Nil
  then show ?thesis using l by (simp add: resume_one_and_schedule_def)
next
  case (Cons t ts)
  note p = rt_ipc_list_resume_ok[OF w q Cons]
  have "tstat k t = RT_THREAD_SUSPEND" using waiting_iff[OF w q, of t] Cons by (simp add: waiting_def)
  then have l1: "live (thread_resumed t k)" by (rule live_resumed[OF l])
  show ?thesis
    using rt_schedule_live[OF wf_kernelD(1)[OF p(2)] l1 tstat_resumed] Cons p(1)
    by (simp add: resume_one_and_schedule_def)
qed

lemma rt_ipc_list_resume_all_live:
  assumes w: "wf_kernel lo k" and l: "live k" and q: "wait_queue q"
    and r: "rt_ipc_list_resume_all q k = Some k'"
  shows "live k'"
  using w l r
proof (induction "lists k q" arbitrary: k)
  case Nil
  then show ?case using rt_ipc_list_resume_all.simps[of q k] by simp
next
  case (Cons t ts)
  define k1 where "k1 = upd_thread t (\<lambda>th. th\<lparr>error := - RT_ERROR\<rparr>) k"
  have w1: "wf_kernel lo k1" unfolding k1_def by (rule wf_kernel_set_error[OF Cons(3)])
  have l1: "lists k1 q = t # ts" using Cons(2) by (simp add: k1_def)
  have s: "tstat k1 t = RT_THREAD_SUSPEND"
    using waiting_iff[OF w1 q, of t] l1 by (simp add: waiting_def)
  note p = rt_ipc_list_resume_ok[OF w1 q l1]
  have "rt_thread_resume t k1 = Some (RT_EOK, thread_resumed t k1)"
    using rt_thread_resume_eq[OF wf_kernelD(1)[OF w1], of t] s by simp
  then have "rt_ipc_list_resume_all q (thread_resumed t k1) = Some k'"
    using Cons(5) Cons(2)[symmetric] by (subst (asm) rt_ipc_list_resume_all.simps) (simp add: k1_def)
  moreover have "live k1" using Cons(4) by (simp add: k1_def)
  ultimately show ?case using Cons(1)[of "thread_resumed t k1"] p live_resumed[OF _ s] by simp
qed

section \<open>Blocking\<close>

lemma start_wait_timer_live:
  assumes w: "wf_kernel lo k" and l: "live k" and r: "start_wait_timer t time k = Some k'"
  shows "live k'"
proof -
  let ?k = "upd_timer (TimerOf t) (\<lambda>t. t\<lparr>tm_init_tick := word_of_int time\<rparr>) k"
  have "timer_fns k" using wf_kernelD(2)[OF w] by (simp add: wf_timers_def)
  then have "periods_ok ?k" using l by (auto simp: live_def periods_ok_def timer_fns_def timer_flag_def upd_timer_def)
  moreover have "stacks_ok k" using l by (simp add: live_def)
  then have "stacks_ok ?k" by (rule stacks_ok_cong) (simp_all add: upd_timer_def tstat_def)
  ultimately have lk: "live ?k" using l by (simp add: live_def upd_timer_def)
  have "k' = k \<or> k' = timer_started (TimerOf t) ?k"
    using r by (auto simp: start_wait_timer_def rt_timer_control_def bind_eq_Some_conv rt_timer_start_eq
        split: if_splits)
  then show ?thesis using l live_started[OF lk] by auto
qed

lemma rt_ipc_list_suspend_live:
  assumes w: "wf_kernel lo k" and l: "live k" and r: "tstat k t = RT_THREAD_READY"
  shows "\<exists>k'. rt_ipc_list_suspend q t flag k = Some k' \<and> live k'"
proof -
  let ?k1 = "thread_suspended t k"
  have "rt_thread_suspend t k = Some (RT_EOK, ?k1)"
    using rt_thread_suspend_eq[OF wf_kernelD(1)[OF w], of t] r by simp
  moreover have "tlist (thread ?k1 t) = None" by (simp add: thread_suspended_thread)
  ultimately show ?thesis
    using live_suspended[OF l r] live_tl_set[of ?k1]
    by (auto simp: rt_ipc_list_suspend_def tl_insert_before_def tl_push_def)
qed

lemma block_current_live:
  assumes w: "wf_kernel lo k" and lo: "lo \<le> 1" and l: "live k" and r: "tstat k t = RT_THREAD_READY"
    and u: "u \<noteq> t" "tstat k u = RT_THREAD_READY" and q: "wait_queue q" and time: "time < 0x7FFFFFFF"
  shows "\<exists>k'. block_current q flag time t k = Some k' \<and> live k'"
proof -
  obtain k1 where k1: "rt_ipc_list_suspend q t flag k = Some k1" and l1: "live k1"
    using rt_ipc_list_suspend_live[OF w l r] by blast
  note s = rt_ipc_list_suspend_ok[OF w r q k1]
  obtain k2 where k2: "start_wait_timer t time k1 = Some k2" using start_wait_timer_returns[OF time] by blast
  note m = start_wait_timer_ok[OF s(1) lo s(2) k2]
  have l2: "live k2" by (rule start_wait_timer_live[OF s(1) l1 k2])
  have "tstat k2 u = RT_THREAD_READY" using u m(3) s(7) by (simp add: tstat_def)
  then obtain k' where "rt_schedule k2 = Some k'" "live k'"
    using rt_schedule_live[OF wf_kernelD(1)[OF m(1)] l2] by blast
  then show ?thesis using k1 k2 by (simp add: block_current_def)
qed

lemma block_self_live:
  assumes w: "wf_kernel lo k" and lo: "lo \<le> 1" and l: "live k" and c: "run_ready k" "current k = Some t"
    and u: "u \<noteq> t" "tstat k u = RT_THREAD_READY" and q: "wait_queue q" and time: "time < 0x7FFFFFFF"
  shows "\<exists>k'. block_current q flag time t (upd_thread t (\<lambda>th. th\<lparr>error := RT_EOK\<rparr>) k) = Some k' \<and> live k'"
  by (rule block_current_live[OF wf_kernel_set_error[OF w] lo live_set_error[OF l] _ u(1) _ q time])
    (use c u in \<open>auto simp: run_ready_def tstat_def\<close>)

lemma thread_context [simp]:
  "interrupt_nest k = 0 \<Longrightarrow> current k = Some t \<Longrightarrow> RT_DEBUG_IN_THREAD_CONTEXT k = Some ()"
  by (simp add: RT_DEBUG_IN_THREAD_CONTEXT_def RT_DEBUG_NOT_IN_INTERRUPT_def rt_interrupt_get_nest_def
      rt_thread_self_def)

lemma ipc_flag_upd_thread [simp]: "ipc_flag a (upd_thread t f k) = ipc_flag a k"
  by (simp add: ipc_flag_def)

section \<open>The semaphore\<close>

lemma live_upd_sem [simp]: "live k \<Longrightarrow> live (upd_sem a f k)"
  by (rule live_frame[of k]) (auto simp: live_def upd_sem_def tstat_def)

lemma rt_sem_take_live:
  assumes w: "wf_kernel lo k" and lo: "lo \<le> 1" and l: "live k" and c: "run_ready k" "current k = Some t"
    and u: "u \<noteq> t" "tstat k u = RT_THREAD_READY" and i: "interrupt_nest k = 0" and a: "a \<noteq> 0"
    and time: "time < 0x7FFFFFFF"
  shows "\<exists>res k'. rt_sem_take a time k = Some (res, k') \<and> live k'"
proof -
  obtain k' where "block_current (Susp a) (ipc_flag a k) time t
      (upd_thread t (\<lambda>th. th\<lparr>error := RT_EOK\<rparr>) k) = Some k'" "live k'"
    using block_self_live[OF w lo l c u wait_queue_Susp(1) time] by blast
  then show ?thesis
    using l a c(2) thread_context[OF i c(2)]
    by (auto simp: rt_sem_take_def rt_thread_self_def ipc_flag_def upd_thread_def)
qed

lemma rt_sem_release_live:
  assumes w: "wf_kernel lo k" and l: "live k"
  shows "\<exists>k'. rt_sem_release a k = Some (RT_EOK, k') \<and> live k'"
proof -
  obtain k' where "resume_one_and_schedule (Susp a) k = Some k'" "live k'"
    using resume_one_and_schedule_live[OF w l wait_queue_Susp(1)] by blast
  then show ?thesis
    using l by (auto simp: rt_sem_release_def resume_one_and_schedule_def bind_eq_Some_conv)
qed

section \<open>The mutex\<close>

lemma live_upd_mutex [simp]: "live k \<Longrightarrow> live (upd_mutex a f k)"
  by (rule live_frame[of k]) (auto simp: live_def upd_mutex_def tstat_def)

lemma change_priority_live:
  assumes w: "wf_kernel lo k" and l: "live k" and r: "change_priority t p k = Some k'"
  shows "live k'"
proof -
  note o = change_priority_ok[OF w r]
  have "sp (thread k' u) = sp (thread k u) \<and> stack_addr (thread k' u) = stack_addr (thread k u) \<and>
      stack_size (thread k' u) = stack_size (thread k u)" for u
    using w r by (cases rule: change_priority_cases) (simp_all add: sched_inserted_def sched_removed_def)
  moreover have "timers k' = timers k"
    using w r by (cases rule: change_priority_cases) (simp_all add: sched_inserted_def sched_removed_def)
  moreover have "tstat k' u = tstat k u" for u using o(5) fun_cong[OF o(4), of u] by (cases "u = t") (simp_all add: tstat_def)
  moreover have "current k' \<noteq> None" using l o(3) by (simp add: live_def)
  ultimately show ?thesis using live_frame[OF l ipc_frameD(7)[OF o(2)]] o(9) by simp
qed

lemma mutex_inherit_live:
  assumes w: "wf_kernel lo k" and l: "live k"
  shows "\<exists>k'. mutex_inherit t ow k = Some k' \<and> live k'"
proof -
  obtain k' where "change_priority ow (current_priority (thread k t)) k = Some k'"
    using change_priority_returns[OF w prio_lt[OF w]] by blast
  then show ?thesis
    using l change_priority_live[OF w l] by (simp add: mutex_inherit_def rt_thread_control_priority)
qed

lemma mutex_again_live:
  assumes w: "wf_kernel lo k" and lo: "lo \<le> 1" and l: "live k" and c: "run_ready k" "current k = Some t"
    and u: "u \<noteq> t" "tstat k u = RT_THREAD_READY" and time: "time < 0x7FFFFFFF" and inv: "mutex_inv a k"
  shows "\<exists>res k'. mutex_again a time t k = Some (res, k') \<and> live k'"
proof (cases "mutex_value (mutexes k a) > 0 \<or> time = 0")
  case True
  then show ?thesis using l by (auto simp: mutex_again_def)
next
  case False
  then obtain ow where ow: "owner (mutexes k a) = Some ow" using inv by (auto simp: mutex_inv_def Let_def)
  obtain k1 where k1: "mutex_inherit t ow k = Some k1" "live k1" using mutex_inherit_live[OF w l] by blast
  note m = mutex_inherit_ok[OF w k1(1)]
  have "tstat k1 t = RT_THREAD_READY" "tstat k1 u = RT_THREAD_READY"
    using m(4) c u by (simp_all add: run_ready_def tstat_def)
  then obtain k' where "block_current (Susp a) (ipc_flag a k1) time t k1 = Some k'" "live k'"
    using block_current_live[OF m(1) lo k1(2) _ u(1) _ wait_queue_Susp(1) time] by blast
  then show ?thesis using False ow k1 by (simp add: mutex_again_def)
qed

lemma rt_mutex_take_live:
  assumes w: "wf_kernel lo k" and lo: "lo \<le> 1" and l: "live k" and c: "run_ready k" "current k = Some t"
    and u: "u \<noteq> t" "tstat k u = RT_THREAD_READY" and i: "interrupt_nest k = 0" and a: "a \<noteq> 0"
    and time: "time < 0x7FFFFFFF" and inv: "mutex_inv a k"
  shows "\<exists>res k'. rt_mutex_take a time k = Some (res, k') \<and> live k'"
proof -
  let ?k = "upd_thread t (\<lambda>th. th\<lparr>error := RT_EOK\<rparr>) k"
  have w1: "wf_kernel lo ?k" and l1: "live ?k" using wf_kernel_set_error[OF w] l by simp_all
  have "\<exists>res k'. mutex_again a time t ?k = Some (res, k') \<and> live k'"
    by (rule mutex_again_live[OF w1 lo l1 _ _ u(1) _ time])
      (use c u inv in \<open>simp_all add: run_ready_def tstat_def\<close>)
  then show ?thesis using a c l1 i by (auto simp: rt_mutex_take_def rt_thread_self_def Let_def)
qed

lemma rt_mutex_release_live:
  assumes w: "wf_kernel lo k" and l: "live k" and c: "current k = Some t" and i: "interrupt_nest k = 0"
    and inv: "mutex_inv a k"
  shows "\<exists>e k'. rt_mutex_release a k = Some (e, k') \<and> live k'"
proof (cases "owner (mutexes k a) = Some t \<and> hold (mutexes k a) = 1")
  case False
  then show ?thesis using l c i by (auto simp: rt_mutex_release_def rt_thread_self_def Let_def)
next
  case True
  let ?k = "upd_mutex a (\<lambda>m. m\<lparr>hold := hold m - 1\<rparr>) k"
  have w1: "wf_kernel lo ?k" and l1: "live ?k" using w l by simp_all
  have "unat (original_priority (mutexes k a)) < 32" using inv True by (auto simp: mutex_inv_def Let_def)
  then obtain k1 where "change_priority t (original_priority (mutexes k a)) ?k = Some k1"
    using change_priority_returns[OF w1] by blast
  then have "\<exists>k2. mutex_restore a t ?k = Some k2 \<and> live k2"
    using l1 change_priority_live[OF w1 l1, of t "original_priority (mutexes k a)"]
    by (simp add: mutex_restore_def rt_thread_control_priority)
  then obtain k2 where k2: "mutex_restore a t ?k = Some k2" "live k2" by blast
  have w2: "wf_kernel lo k2" by (rule mutex_restore_ok(1)[OF w1 k2(1)])
  have "\<exists>e k'. mutex_pass a k2 = Some (e, k') \<and> live k'"
  proof (cases "lists k2 (Susp a)")
    case (Cons v vs)
    let ?k3 = "upd_mutex a (\<lambda>m. m\<lparr>owner := Some v, original_priority := current_priority (thread k2 v),
      hold := hold m + 1\<rparr>) k2"
    obtain k' where "resume_one_and_schedule (Susp a) ?k3 = Some k'" "live k'"
      using resume_one_and_schedule_live[of lo ?k3 "Susp a"] w2 k2(2) by auto
    then show ?thesis using Cons by (auto simp: mutex_pass_def resume_one_and_schedule_def bind_eq_Some_conv)
  qed (use k2 in \<open>simp add: mutex_pass_def\<close>)
  then show ?thesis using True c i k2(1) by (simp add: rt_mutex_release_def rt_thread_self_def)
qed

section \<open>Events\<close>

lemma live_upd_event [simp]: "live k \<Longrightarrow> live (upd_event a f k)"
  by (rule live_frame[of k]) (auto simp: live_def upd_event_def tstat_def)

lemma live_event_fields [simp]:
  "live k \<Longrightarrow> live (upd_thread t (\<lambda>th. th\<lparr>event_set := f th\<rparr>) k)"
  "live k \<Longrightarrow> live (upd_thread t (\<lambda>th. th\<lparr>event_set := f th, event_info := g th\<rparr>) k)"
  by (rule live_frame[of k]; auto simp: live_def tstat_def split: if_splits)+

lemma event_deliver_live:
  assumes w: "wf_kernel lo k" and l: "live k" and t: "t \<in> set (lists k (Susp a))"
    and r: "event_deliver a t k = Some k'"
  shows "live k'"
proof -
  define k1 where "k1 = (if event_info (thread k t) AND RT_EVENT_FLAG_AND \<noteq> 0 then k
    else upd_thread t (\<lambda>th. th\<lparr>event_set := event_set th AND ev_set (events k a)\<rparr>) k)"
  define k2 where "k2 = (if event_info (thread k1 t) AND RT_EVENT_FLAG_CLEAR \<noteq> 0
    then upd_event a (\<lambda>e. e\<lparr>ev_set := ev_set e AND NOT (event_set (thread k1 t))\<rparr>) k1 else k1)"
  have "wf_kernel lo k1" using w wf_kernel_thread_fields[OF w, of _ t] by (simp add: k1_def)
  then have w2: "wf_kernel lo k2" by (simp add: k2_def)
  have l2: "live k2" using l by (simp add: k2_def k1_def)
  have s2: "tstat k2 t = RT_THREAD_SUSPEND"
    using waiting_iff[OF w wait_queue_Susp(1), of a t] t by (simp add: k2_def k1_def waiting_def tstat_def)
  have "k' = thread_resumed t k2"
    using r rt_thread_resume_eq[OF wf_kernelD(1)[OF w2], of t] s2
    unfolding event_deliver_def k1_def[symmetric] Let_def k2_def[symmetric] by simp
  then show ?thesis using live_resumed[OF l2 s2] by simp
qed

lemma event_wake_live:
  assumes "wf_kernel lo k" "live k" "lists k (Susp a) = us @ ts" "event_wake a ts need k = Some (need', k')"
  shows "live k'"
  using assms
proof (induction ts arbitrary: us need k)
  case (Cons t ts)
  show ?case
  proof (cases "event_ready a t k")
    case True
    have t: "t \<in> set (lists k (Susp a))" using Cons.prems(3) by simp
    obtain k1 where k1: "event_deliver a t k = Some k1" "wf_kernel lo k1"
      "lists k1 (Susp a) = removeAll t (lists k (Susp a))" using event_deliver_ok[OF Cons.prems(1) t] by blast
    have "distinct (us @ t # ts)" using wf_queuesD(1)[of k "Susp a"] Cons.prems(1,3) by (metis wf_kernelD(1) wf_schedD(1))
    then have "lists k1 (Susp a) = us @ ts" using k1(3) Cons.prems(3) by (simp add: removeAll_id)
    moreover have "event_wake a ts True k1 = Some (need', k')" using True k1(1) Cons.prems(4) by simp
    ultimately show ?thesis
      using Cons.IH[OF k1(2) event_deliver_live[OF Cons.prems(1,2) t k1(1)]] by blast
  next
    case False
    then show ?thesis using Cons.IH[OF Cons.prems(1,2), of "us @ [t]"] Cons.prems(3,4) by simp
  qed
qed simp

lemma rt_event_send_live:
  assumes w: "wf_kernel lo k" and l: "live k" and a: "a \<noteq> 0"
  shows "\<exists>e k'. rt_event_send a evs k = Some (e, k') \<and> live k'"
proof (cases "evs = 0")
  case False
  let ?k = "upd_event a (\<lambda>e. e\<lparr>ev_set := ev_set e OR evs\<rparr>) k"
  obtain need k1 vs where k1: "event_wake a (lists k (Susp a)) False ?k = Some (need, k1)" "wf_kernel lo k1"
    "\<forall>u\<in>set (lists k (Susp a)) - set vs. tstat k1 u = RT_THREAD_READY"
    "set vs \<subseteq> set (lists k (Susp a))" "need \<longleftrightarrow> set (lists k (Susp a)) \<noteq> set vs"
    using event_wake_ok[of lo ?k a "[]" "lists k (Susp a)" False] w by auto
  have l1: "live k1" using event_wake_live[of lo ?k a "[]", OF _ _ _ k1(1)] w l by simp
  have "\<exists>k'. (if need then rt_schedule k1 else Some k1) = Some k' \<and> live k'"
  proof (cases need)
    case True
    then obtain u where "tstat k1 u = RT_THREAD_READY" using k1(3-5) by blast
    then show ?thesis using True rt_schedule_live[OF wf_kernelD(1)[OF k1(2)] l1] by simp
  qed (use l1 in simp)
  then show ?thesis using False a k1(1) by (auto simp: rt_event_send_def)
qed (use l a in \<open>simp add: rt_event_send_def\<close>)

lemma rt_event_recv_live:
  assumes w: "wf_kernel lo k" and lo: "lo \<le> 1" and l: "live k" and c: "run_ready k" "current k = Some t"
    and u: "u \<noteq> t" "tstat k u = RT_THREAD_READY" and i: "interrupt_nest k = 0" and a: "a \<noteq> 0"
    and time: "timeout < 0x7FFFFFFF" and opt: "opt AND RT_EVENT_FLAG_AND \<noteq> 0 \<or> opt AND RT_EVENT_FLAG_OR \<noteq> 0"
  shows "\<exists>res k'. rt_event_recv a evs opt timeout k = Some (res, k') \<and> live k'"
proof -
  let ?k = "upd_thread t (\<lambda>th. th\<lparr>event_set := evs, event_info := opt\<rparr>) (upd_thread t (\<lambda>th. th\<lparr>error := RT_EOK\<rparr>) k)"
  have w1: "wf_kernel lo ?k"
    by (rule wf_kernel_thread_fields[OF wf_kernel_set_error[OF w]]) simp_all
  have l1: "live ?k" using l by simp
  have "tstat ?k t = RT_THREAD_READY" "tstat ?k u = RT_THREAD_READY"
    using c u by (simp_all add: run_ready_def tstat_def)
  then obtain k' where "block_current (Susp a) (ipc_flag a k) timeout t ?k = Some k'" "live k'"
    using block_current_live[OF w1 lo l1 _ u(1) _ wait_queue_Susp(1) time] by blast
  then show ?thesis using a c i l opt by (auto simp: rt_event_recv_def rt_thread_self_def Let_def)
qed

section \<open>Mailboxes, message queues and pools\<close>

text \<open>A store keeps the stacks intact when it does not touch the lowest byte of one.\<close>

definition stacks_apart :: "nat \<Rightarrow> nat \<Rightarrow> kernel \<Rightarrow> bool" where
  "stacks_apart x n k \<longleftrightarrow> (\<forall>t. apart x n (unat (stack_addr (thread k t))) 1)"

lemma live_ram:
  assumes l: "live k" and s: "stacks_apart x n k" and f: "\<And>z. apart x n z 1 \<Longrightarrow> f (kram k) z = kram k z"
  shows "live (upd_ram f k)"
proof -
  have "f (kram k) (unat (stack_addr (thread k t))) = kram k (unat (stack_addr (thread k t)))" for t
    using s f by (simp add: stacks_apart_def)
  then have "stacks_ok (upd_ram f k)"
    using l by (simp add: live_def stacks_ok_def stack_ok_def tstat_def)
  moreover have "periods_ok (upd_ram f k)"
    using l by (simp add: live_def periods_ok_def timer_flag_def upd_ram_def)
  ultimately show ?thesis using l by (simp add: live_def)
qed

lemma live_upd_mb [simp]: "live k \<Longrightarrow> live (upd_mb a f k)"
  by (rule live_frame[of k]) (auto simp: live_def upd_mb_def tstat_def)

lemma mb_put_live:
  assumes l: "live k" and s: "stacks_apart (mb_pool (mailboxes k a)) (4 * unat (mb_size (mailboxes k a))) k"
    and i: "mb_inv a k" "mb_entry (mailboxes k a) \<noteq> mb_size (mailboxes k a)"
  shows "live (mb_put a v k)"
proof -
  let ?m = "mailboxes k a"
  have "0 < unat (mb_size ?m)" using i by (auto simp: mb_inv_def Let_def word_unat_eq_iff)
  then have "unat (in_offset ?m) < unat (mb_size ?m)" using i(1) by (simp add: mb_inv_def Let_def)
  then have "live (upd_ram (store32 (mb_pool ?m + 4 * unat (in_offset ?m)) v) k)"
    by (intro live_ram[OF l s]) (auto simp: apart_def store32_def)
  then show ?thesis by (simp add: mb_put_def Let_def)
qed

lemma mb_block_live:
  assumes w: "wf_kernel lo k" and lo: "lo \<le> 1" and l: "live k" and c: "run_ready k" "current k = Some t"
    and u: "u \<noteq> t" "tstat k u = RT_THREAD_READY" and time: "timeout < 0x7FFFFFFF"
  shows "\<exists>k'. block_current (Susp a) (ipc_flag a k) timeout t (upd_thread t (\<lambda>th. th\<lparr>error := RT_EOK\<rparr>) k) = Some k' \<and> live k'"
    "\<exists>k'. block_current (SuspSender a) (ipc_flag a k) timeout t (upd_thread t (\<lambda>th. th\<lparr>error := RT_EOK\<rparr>) k) = Some k' \<and> live k'"
  using block_self_live[OF w lo l c u _ time] by (simp_all add: wait_queue_def)

lemma rt_mb_send_wait_live:
  assumes w: "wf_kernel lo k" and lo: "lo \<le> 1" and l: "live k" and c: "run_ready k" "current k = Some t"
    and u: "u \<noteq> t" "tstat k u = RT_THREAD_READY" and i: "interrupt_nest k = 0" and a: "a \<noteq> 0"
    and time: "timeout < 0x7FFFFFFF" and inv: "mb_inv a k"
    and s: "stacks_apart (mb_pool (mailboxes k a)) (4 * unat (mb_size (mailboxes k a))) k"
  shows "\<exists>res k'. rt_mb_send_wait a v timeout k = Some (res, k') \<and> live k'"
proof (cases "mb_entry (mailboxes k a) = mb_size (mailboxes k a)")
  case True
  then show ?thesis using mb_block_live(2)[OF w lo l c u time, of a] l c i a
    by (auto simp: rt_mb_send_wait_def mb_send_loop_def rt_thread_self_def Let_def)
next
  case False
  have "wf_kernel lo (mb_put a v k)" using w by (simp add: mb_put_def Let_def wf_kernel_ram)
  then obtain k' where "resume_one_and_schedule (Susp a) (mb_put a v k) = Some k'" "live k'"
    using resume_one_and_schedule_live[OF _ mb_put_live[OF l s inv False] wait_queue_Susp(1)] by blast
  then show ?thesis using False a by (simp add: rt_mb_send_wait_def mb_send_loop_def)
qed

lemma rt_mb_recv_live:
  assumes w: "wf_kernel lo k" and lo: "lo \<le> 1" and l: "live k" and c: "run_ready k" "current k = Some t"
    and u: "u \<noteq> t" "tstat k u = RT_THREAD_READY" and i: "interrupt_nest k = 0" and a: "a \<noteq> 0"
    and time: "timeout < 0x7FFFFFFF"
  shows "\<exists>res k'. rt_mb_recv a timeout k = Some (res, k') \<and> live k'"
proof (cases "mb_entry (mailboxes k a) = 0")
  case True
  then show ?thesis using mb_block_live(1)[OF w lo l c u time, of a] l c i a
    by (auto simp: rt_mb_recv_def mb_recv_loop_def rt_thread_self_def Let_def)
next
  case False
  have "wf_kernel lo (snd (mb_get a k))" "live (snd (mb_get a k))" using w l by (simp_all add: mb_get_def Let_def)
  then obtain k' where "resume_one_and_schedule (SuspSender a) (snd (mb_get a k)) = Some k'" "live k'"
    using resume_one_and_schedule_live[of lo "snd (mb_get a k)" "SuspSender a"] by (auto simp: wait_queue_def)
  then show ?thesis using False a by (simp add: rt_mb_recv_def mb_recv_loop_def split_beta)
qed

lemma live_upd_mp [simp]: "live k \<Longrightarrow> live (upd_mp a f k)"
  by (rule live_frame[of k]) (auto simp: live_def upd_mp_def tstat_def)

lemma rt_mp_free_live:
  assumes w: "wf_kernel lo k" and l: "live k" and rep: "mp_rep a f k" and wait: "mp_waiters_ok a k"
    and b: "x + 4 \<in> mp_used a f k" and s: "stacks_apart x 4 k"
  shows "\<exists>k'. rt_mp_free (x + 4) k = Some k' \<and> live k'"
proof -
  let ?k1 = "mp_give_back a x k"
  have l1: "live ?k1"
    using live_ram[of "upd_mp a (\<lambda>m. m\<lparr>block_free_count := add32 (block_free_count m) 1\<rparr>) k" x 4
        "store32 x (of_nat (block_list (mempools k a)))"] l s
    by (simp add: mp_give_back_def stacks_apart_def store32_apart)
  show ?thesis
  proof (cases "lists k (Susp a)")
    case Nil
    then show ?thesis using l1 mp_free_eq[OF rep b w] wait by (simp add: mp_waiters_ok_def)
  next
    case (Cons t ts)
    let ?k2 = "upd_thread t (\<lambda>th. th\<lparr>error := RT_EOK\<rparr>) ?k1"
    let ?k4 = "upd_mp a (\<lambda>m. m\<lparr>suspend_thread_count := sub32 (suspend_thread_count m) 1\<rparr>) (thread_resumed t ?k2)"
    have w2: "wf_kernel lo ?k2" by (rule wf_kernel_set_error) (use w in simp)
    have l2: "lists ?k2 (Susp a) = t # ts" using Cons by simp
    have s2: "tstat ?k2 t = RT_THREAD_SUSPEND"
      using waiting_iff[OF w2 wait_queue_Susp(1), of a t] l2 by (simp add: waiting_def)
    have l4: "live ?k4" using live_resumed[OF live_set_error[OF l1] s2] by simp
    have w4: "wf_kernel lo ?k4" using rt_ipc_list_resume_ok(2)[OF w2 wait_queue_Susp(1) l2] by simp
    have "tstat ?k4 t = RT_THREAD_READY" using tstat_resumed[of t ?k2] by (simp add: tstat_def)
    then obtain k' where "rt_schedule ?k4 = Some k'" "live k'"
      using rt_schedule_live[OF wf_kernelD(1)[OF w4] l4] by blast
    then show ?thesis using mp_free_eq[OF rep b w] wait Cons by (simp add: mp_waiters_ok_def)
  qed
qed

end
