(* ===== verification/CallFrame.thy ===== *)
theory CallFrame
  imports IpcLive
begin

text \<open>
  What a kernel call of one thread does to the rest of the system: the state between two calls
  (\<open>sys_ok\<close>), the objects a call leaves alone (\<open>touches\<close>), and for each call that it returns, that the
  system is again between two calls and that only the object it was made on has changed
  (\<open>call_frame\<close>).
\<close>

section \<open>Between two calls\<close>

text \<open>
  The state in which thread code runs: the kernel is well formed, the stacks are intact, the
  running thread and the idle thread are ready, no interrupt is being served and the scheduler is
  unlocked.
\<close>

definition sys_ok :: "nat \<Rightarrow> kernel \<Rightarrow> bool" where
  "sys_ok idle k \<longleftrightarrow> wf_kernel 1 k \<and> live k \<and> run_ready k \<and> tstat k idle = RT_THREAD_READY \<and>
     interrupt_nest k = 0 \<and> lock_nest k = 0"

text \<open>Thread \<open>t\<close>, which is not the idle thread, runs and calls the kernel.\<close>

definition calls :: "nat \<Rightarrow> nat \<Rightarrow> kernel \<Rightarrow> bool" where
  "calls idle t k \<longleftrightarrow> sys_ok idle k \<and> current k = Some t \<and> t \<noteq> idle"

lemma sys_okD:
  assumes "sys_ok idle k"
  shows "wf_kernel 1 k" "live k" "run_ready k" "tstat k idle = RT_THREAD_READY" "interrupt_nest k = 0"
    "lock_nest k = 0"
  using assms by (simp_all add: sys_ok_def)

lemma callsD:
  assumes "calls idle t k"
  shows "wf_kernel 1 k" "live k" "run_ready k" "current k = Some t" "idle \<noteq> t" "tstat k idle = RT_THREAD_READY"
    "interrupt_nest k = 0" "lock_nest k = 0" "(1 :: nat) \<le> 1"
  using assms by (auto simp: calls_def sys_ok_def)

text \<open>Threads that were ready stay ready, the one that called apart.\<close>

definition keeps_ready :: "nat \<Rightarrow> kernel \<Rightarrow> kernel \<Rightarrow> bool" where
  "keeps_ready t k k' \<longleftrightarrow> (\<forall>u. u \<noteq> t \<longrightarrow> tstat k u = RT_THREAD_READY \<longrightarrow> tstat k' u = RT_THREAD_READY)"

lemma keeps_ready_refl [simp]: "keeps_ready t k k" by (simp add: keeps_ready_def)

lemma keeps_ready_trans: "keeps_ready t k k' \<Longrightarrow> keeps_ready t k' k'' \<Longrightarrow> keeps_ready t k k''"
  by (simp add: keeps_ready_def)

lemma keeps_ready_tstat: "(\<And>u. u \<noteq> t \<Longrightarrow> tstat k' u = tstat k u) \<Longrightarrow> keeps_ready t k k'"
  by (simp add: keeps_ready_def)

lemma sys_okI:
  assumes "calls idle t k" "wf_kernel 1 k'" "live k'" "run_ready k'" "keeps_ready t k k'"
    "interrupt_nest k' = 0" "lock_nest k' = 0"
  shows "sys_ok idle k'"
  using assms callsD(5,6)[OF assms(1)] by (simp add: sys_ok_def keeps_ready_def)

lemma keeps_ready_schedule: "rt_schedule k = Some k' \<Longrightarrow> keeps_ready t k k'"
  using rt_schedule_frame[of k k'] cpu_frameD(1)[of k k'] by (intro keeps_ready_tstat) (auto simp: tstat_def)

lemma keeps_ready_resumed: "keeps_ready t k (thread_resumed u k)"
  by (simp add: keeps_ready_def tstat_resumed_other)

lemma keeps_ready_resume_one:
  assumes w: "wf_kernel lo k" and q: "wait_queue q" and r: "resume_one_and_schedule q k = Some k'"
  shows "keeps_ready t k k'"
proof (cases "lists k q")
  case Nil
  then show ?thesis using r by (simp add: resume_one_and_schedule_def)
next
  case (Cons u us)
  then have "rt_schedule (thread_resumed u k) = Some k'"
    using r rt_ipc_list_resume_ok(1)[OF w q Cons] by (simp add: resume_one_and_schedule_def)
  then show ?thesis using keeps_ready_trans[OF keeps_ready_resumed keeps_ready_schedule] by blast
qed

lemma keeps_ready_block:
  assumes "wf_kernel lo k" "lo \<le> 1" "tstat k t = RT_THREAD_READY" "wait_queue q"
    "block_current q flag time t k = Some k'"
  shows "keeps_ready t k k'"
  using block_current_ok(9)[OF assms] by (intro keeps_ready_tstat) (simp add: tstat_def)

text \<open>A thread that sleeps is suspended in no queue and waits for its timer. The other threads do not
  disturb it.\<close>

definition asleep :: "nat \<Rightarrow> u32 \<Rightarrow> kernel \<Rightarrow> bool" where
  "asleep u tmo k \<longleftrightarrow> tstat k u = RT_THREAD_SUSPEND \<and> tlist (thread k u) = None \<and>
     TimerOf u \<in> set (timer_list k) \<and> timeout_tick (timers k (TimerOf u)) = tmo"

definition keeps_asleep :: "nat \<Rightarrow> kernel \<Rightarrow> kernel \<Rightarrow> bool" where
  "keeps_asleep t k k' \<longleftrightarrow> (\<forall>u tmo. u \<noteq> t \<longrightarrow> asleep u tmo k \<longrightarrow> asleep u tmo k')"

lemma keeps_asleep_refl [simp]: "keeps_asleep t k k" by (simp add: keeps_asleep_def)

lemma keeps_asleep_trans: "keeps_asleep t k k' \<Longrightarrow> keeps_asleep t k' k'' \<Longrightarrow> keeps_asleep t k k''"
  by (simp add: keeps_asleep_def)

lemma keeps_asleep_same:
  assumes "\<And>u. u \<noteq> t \<Longrightarrow> tstat k u = RT_THREAD_SUSPEND \<Longrightarrow> tlist (thread k u) = None \<Longrightarrow>
      tstat k' u = tstat k u \<and> tlist (thread k' u) = tlist (thread k u) \<and>
      (TimerOf u \<in> set (timer_list k') \<longleftrightarrow> TimerOf u \<in> set (timer_list k)) \<and>
      timers k' (TimerOf u) = timers k (TimerOf u)"
  shows "keeps_asleep t k k'"
  using assms by (auto simp: keeps_asleep_def asleep_def)

lemma timer_list_stopped_other:
  "j \<noteq> i \<Longrightarrow> j \<in> set (timer_list (timer_stopped i k)) \<longleftrightarrow> j \<in> set (timer_list k)"
  by (auto simp: timer_stopped_def rt_timer_stop_def rt_timer_remove_def set_timer_flag_def upd_object_def)

lemma keeps_asleep_schedule: "rt_schedule k = Some k' \<Longrightarrow> keeps_asleep t k k'"
  using rt_schedule_frame[of k k'] cpu_frameD[of k k'] by (intro keeps_asleep_same) (auto simp: tstat_def)

lemma thread_resumed_other:
  assumes "v \<noteq> u"
  shows "tstat (thread_resumed u k) v = tstat k v \<and> tlist (thread (thread_resumed u k) v) = tlist (thread k v) \<and>
    (TimerOf v \<in> set (timer_list (thread_resumed u k)) \<longleftrightarrow> TimerOf v \<in> set (timer_list k)) \<and>
    timers (thread_resumed u k) (TimerOf v) = timers k (TimerOf v)"
  using assms
  by (simp add: tstat_def thread_resumed_thread) (simp add: thread_resumed_def sched_inserted_def timer_list_stopped_other tl_unlink_eq)

lemma asleep_resumed_other: "v \<noteq> u \<Longrightarrow> asleep v tmo (thread_resumed u k) \<longleftrightarrow> asleep v tmo k"
  using thread_resumed_other[of v u k] by (auto simp: asleep_def)

lemma keeps_asleep_resumed:
  assumes "tlist (thread k u) \<noteq> None"
  shows "keeps_asleep t k (thread_resumed u k)"
proof (rule keeps_asleep_same)
  fix v assume "tlist (thread k v) = None"
  then have "v \<noteq> u" using assms by auto
  then show "tstat (thread_resumed u k) v = tstat k v \<and> tlist (thread (thread_resumed u k) v) = tlist (thread k v) \<and>
      (TimerOf v \<in> set (timer_list (thread_resumed u k)) \<longleftrightarrow> TimerOf v \<in> set (timer_list k)) \<and>
      timers (thread_resumed u k) (TimerOf v) = timers k (TimerOf v)" by (rule thread_resumed_other)
qed

lemma queued_tlist:
  assumes w: "wf_kernel lo k" and q: "wait_queue q" and u: "u \<in> set (lists k q)"
  shows "tlist (thread k u) \<noteq> None"
  using wf_queuesD(2)[of k u q] wf_schedD(1)[OF wf_kernelD(1)[OF w]] u by simp

lemma keeps_asleep_resume_one:
  assumes w: "wf_kernel lo k" and q: "wait_queue q" and r: "resume_one_and_schedule q k = Some k'"
  shows "keeps_asleep t k k'"
proof (cases "lists k q")
  case Nil
  then show ?thesis using r by (simp add: resume_one_and_schedule_def)
next
  case (Cons u us)
  then have "rt_schedule (thread_resumed u k) = Some k'"
    using r rt_ipc_list_resume_ok(1)[OF w q Cons] by (simp add: resume_one_and_schedule_def)
  moreover have "tlist (thread k u) \<noteq> None" using queued_tlist[OF w q] Cons by simp
  ultimately show ?thesis using keeps_asleep_trans[OF keeps_asleep_resumed keeps_asleep_schedule] by blast
qed

lemma start_wait_timer_cases:
  assumes "start_wait_timer t time k = Some k'"
  shows "k' = k \<or> k' = timer_started (TimerOf t) (upd_timer (TimerOf t) (\<lambda>t. t\<lparr>tm_init_tick := word_of_int time\<rparr>) k)"
  using assms by (auto simp: start_wait_timer_def rt_timer_control_def bind_eq_Some_conv rt_timer_start_eq split: if_splits)

lemma started_other:
  "j \<noteq> i \<Longrightarrow> timers (timer_started i k) j = timers k j" "j \<noteq> i \<Longrightarrow> timers (upd_timer i f k) j = timers k j"
  by (simp_all add: timer_started_def upd_timer_def Let_def)

lemma timer_upd_frame [simp]:
  "timer_list (upd_timer i f k) = timer_list k" "thread (upd_timer i f k) = thread k" "tick (upd_timer i f k) = tick k"
  by (simp_all add: upd_timer_def)

lemma keeps_asleep_wait_timer: "start_wait_timer t time k = Some k' \<Longrightarrow> keeps_asleep t k k'"
  using start_wait_timer_cases[of t time k k']
  by (intro keeps_asleep_same) (auto simp: tstat_def started_other)

lemma keeps_asleep_suspended: "keeps_asleep t k (thread_suspended t k)"
  by (rule keeps_asleep_same)
    (simp add: tstat_def thread_suspended_thread, simp add: thread_suspended_def sched_removed_def timer_list_stopped_other)

lemma keeps_asleep_tl_set: "keeps_asleep t k (tl_set q xs t k)"
  by (rule keeps_asleep_same) (simp add: tl_set_eq tstat_def)

lemma keeps_asleep_block:
  assumes w: "wf_kernel lo k" and t: "tstat k t = RT_THREAD_READY" and r: "block_current q flag time t k = Some k'"
  shows "keeps_asleep t k k'" "tick k' = tick k"
proof -
  obtain k1 k2 where k: "rt_ipc_list_suspend q t flag k = Some k1" "start_wait_timer t time k1 = Some k2"
    "rt_schedule k2 = Some k'"
    using r by (auto simp: block_current_def bind_eq_Some_conv)
  have "rt_thread_suspend t k = Some (RT_EOK, thread_suspended t k)"
    using rt_thread_suspend_eq[OF wf_kernelD(1)[OF w], of t] t by simp
  then have k1: "k1 = thread_suspended t k \<or> (\<exists>xs. k1 = tl_set q xs t (thread_suspended t k))"
    using k(1) by (auto simp: rt_ipc_list_suspend_def tl_insert_before_def tl_push_def split: if_splits)
  have 1: "keeps_asleep t k k1"
    using k1 keeps_asleep_suspended keeps_asleep_trans[OF keeps_asleep_suspended keeps_asleep_tl_set] by auto
  show "keeps_asleep t k k'"
    by (rule keeps_asleep_trans[OF 1 keeps_asleep_trans[OF keeps_asleep_wait_timer[OF k(2)] keeps_asleep_schedule[OF k(3)]]])
  have "tick k1 = tick k" using k1 by (auto simp: thread_suspended_def sched_removed_def tl_set_eq)
  moreover have "tick k2 = tick k1" using start_wait_timer_cases[OF k(2)] by auto
  moreover have "tick k' = tick k2" using ipc_frameD(9)[OF ipc_frame_schedule[OF k(3)]] .
  ultimately show "tick k' = tick k" by simp
qed

lemma keeps_asleep_change_priority:
  assumes w: "wf_kernel lo k" and r: "change_priority u p k = Some k'"
  shows "keeps_asleep t k k'" "tick k' = tick k"
proof -
  show "keeps_asleep t k k'" using w r
    by (cases rule: change_priority_cases)
      (auto intro!: keeps_asleep_same simp: tstat_def sched_inserted_def sched_removed_def)
  show "tick k' = tick k" by (rule ipc_frameD(9)[OF change_priority_ok(2)[OF assms]])
qed

lemma nests_frame:
  assumes "ipc_frame k k'"
  shows "interrupt_nest k' = interrupt_nest k" "lock_nest k' = lock_nest k"
  using ipc_frameD(10,11)[OF assms] by simp_all

section \<open>What a call leaves alone\<close>

text \<open>
  Every other object is as it was, its queue holds at most the threads it held, and they wait for
  the same events. \<open>A\<close> are the objects the call works on.
\<close>

definition same_objs :: "nat \<Rightarrow> kernel \<Rightarrow> kernel \<Rightarrow> bool" where
  "same_objs b k k' \<longleftrightarrow> sems k' b = sems k b \<and> mutexes k' b = mutexes k b \<and> events k' b = events k b \<and>
     mailboxes k' b = mailboxes k b"

definition same_events :: "nat \<Rightarrow> kernel \<Rightarrow> kernel \<Rightarrow> bool" where
  "same_events u k k' \<longleftrightarrow> event_set (thread k' u) = event_set (thread k u) \<and>
     event_info (thread k' u) = event_info (thread k u)"

definition user_timers :: "kernel \<Rightarrow> nat set" where
  "user_timers k = {a. Obj a \<in> set (timer_list k)}"

definition touches :: "nat set \<Rightarrow> kernel \<Rightarrow> kernel \<Rightarrow> bool" where
  "touches A k k' \<longleftrightarrow>
     (\<forall>b. b \<notin> A \<longrightarrow> same_objs b k k' \<and> set (lists k' (Susp b)) \<subseteq> set (lists k (Susp b)) \<and>
        (\<forall>u\<in>set (lists k' (Susp b)). same_events u k k')) \<and>
     (\<forall>b. ipc_flag b k' = ipc_flag b k) \<and> (\<forall>u. stack_addr (thread k' u) = stack_addr (thread k u)) \<and>
     user_timers k' \<subseteq> user_timers k"

lemma user_timers_simps [simp]:
  "user_timers (upd_thread t f k) = user_timers k" "user_timers (upd_sem a g k) = user_timers k"
  "user_timers (upd_mutex a h k) = user_timers k" "user_timers (upd_event a e k) = user_timers k"
  "user_timers (upd_mb a m k) = user_timers k" "user_timers (upd_ram r k) = user_timers k"
  "user_timers (upd_timer i j k) = user_timers k" "user_timers (sched_inserted t k) = user_timers k"
  "user_timers (sched_removed t k) = user_timers k" "user_timers (tl_unlink t k) = user_timers k"
  "user_timers (tl_set q xs t k) = user_timers k"
  "user_timers (timer_stopped (TimerOf t) k) = user_timers k"
  "user_timers (timer_started (TimerOf t) k) = user_timers k"
  "user_timers (k\<lparr>timer_list := removeAll (TimerOf t) (timer_list k)\<rparr>) = user_timers k"
  by (auto simp: user_timers_def upd_sem_def upd_mutex_def upd_event_def upd_mb_def upd_timer_def sched_inserted_def
      sched_removed_def tl_unlink_eq tl_set_eq timer_stopped_def rt_timer_stop_def rt_timer_remove_def
      set_timer_flag_def upd_object_def timer_started_def Let_def)

lemma user_timers_moved [simp]:
  "user_timers (thread_resumed t k) = user_timers k" "user_timers (thread_suspended t k) = user_timers k"
  by (simp_all add: thread_resumed_def thread_suspended_def)

lemma user_timers_cpu: "cpu_frame k k' \<Longrightarrow> user_timers k' = user_timers k"
  by (simp add: user_timers_def cpu_frameD(7))

lemma touches_refl [simp]: "touches A k k"
  by (simp add: touches_def same_objs_def same_events_def)

lemma touches_trans [trans]:
  assumes "touches A k k'" "touches A k' k''"
  shows "touches A k k''"
proof -
  have "same_objs b k k'' \<and> set (lists k'' (Susp b)) \<subseteq> set (lists k (Susp b)) \<and>
      (\<forall>u\<in>set (lists k'' (Susp b)). same_events u k k'')" if "b \<notin> A" for b
  proof -
    have 1: "same_objs b k k'" "set (lists k' (Susp b)) \<subseteq> set (lists k (Susp b))"
      "\<And>u. u \<in> set (lists k' (Susp b)) \<Longrightarrow> same_events u k k'"
      using assms(1) that by (auto simp: touches_def)
    have 2: "same_objs b k' k''" "set (lists k'' (Susp b)) \<subseteq> set (lists k' (Susp b))"
      "\<And>u. u \<in> set (lists k'' (Susp b)) \<Longrightarrow> same_events u k' k''"
      using assms(2) that by (auto simp: touches_def)
    show ?thesis using 1 2 by (auto simp: same_objs_def same_events_def)
  qed
  moreover have "ipc_flag b k'' = ipc_flag b k" "stack_addr (thread k'' u) = stack_addr (thread k u)"
    "user_timers k'' \<subseteq> user_timers k" for b u
    using assms by (auto simp: touches_def)
  ultimately show ?thesis by (simp add: touches_def)
qed

lemma touches_same:
  assumes "lists k' = lists k" "\<And>u. same_events u k k'" "\<And>b. b \<notin> A \<Longrightarrow> same_objs b k k'"
    and "\<And>b. ipc_flag b k' = ipc_flag b k" "\<And>u. stack_addr (thread k' u) = stack_addr (thread k u)"
    and "user_timers k' \<subseteq> user_timers k"
  shows "touches A k k'"
  using assms by (simp add: touches_def)

lemma touches_objects [simp]:
  "touches {a} k (upd_sem a f k)" "touches {a} k (upd_mutex a g k)" "touches {a} k (upd_event a h k)"
  "touches {a} k (upd_mb a m k)" "touches A k (upd_ram r k)"
  by (rule touches_same; simp add: same_objs_def same_events_def ipc_flag_def user_timers_def upd_defs upd_ram_def)+

lemma touches_schedule:
  assumes "rt_schedule k = Some k'"
  shows "touches A k k'"
proof -
  have "cpu_frame k k'" using rt_schedule_frame[OF assms] by simp
  note d = cpu_frameD[OF this]
  show ?thesis by (rule touches_same) (simp_all add: d same_objs_def same_events_def ipc_flag_def user_timers_def)
qed

lemma touches_error [simp]: "touches A k (upd_thread t (\<lambda>th. th\<lparr>error := e\<rparr>) k)"
  by (rule touches_same) (simp_all add: same_objs_def same_events_def ipc_flag_def)

text \<open>A thread that waits for the object called, or for nothing, may change.\<close>

lemma touches_frame:
  assumes fr: "ipc_frame k k'"
    and "\<And>b. b \<notin> A \<Longrightarrow> set (lists k' (Susp b)) \<subseteq> set (lists k (Susp b))"
    and "\<And>u. event_set (thread k' u) = event_set (thread k u) \<and> event_info (thread k' u) = event_info (thread k u) \<and>
      stack_addr (thread k' u) = stack_addr (thread k u)"
    and "\<And>b. ipc_flag b k' = ipc_flag b k" "user_timers k' \<subseteq> user_timers k"
  shows "touches A k k'"
  using assms(2-) ipc_frameD[OF fr] by (simp add: touches_def same_objs_def same_events_def)

lemma ipc_flag_resumed: "ipc_flag b (thread_resumed t k) = ipc_flag b k"
  by (simp add: thread_resumed_def ipc_flag_def timer_stopped_def rt_timer_stop_def set_timer_flag_def
      rt_timer_remove_def sched_inserted_def upd_object_def tl_unlink_eq)

lemma touches_resumed:
  assumes "wf_kernel lo k"
  shows "touches A k (thread_resumed t k)"
proof (rule touches_frame[OF ipc_frame_resumed])
  have "wf_queues k" using assms by auto
  then show "set (lists (thread_resumed t k) (Susp b)) \<subseteq> set (lists k (Susp b))" for b
    by (simp add: thread_resumed_lists)
qed (auto simp: thread_resumed_thread ipc_flag_resumed)

lemma touches_resume_one:
  assumes w: "wf_kernel lo k" and q: "wait_queue q" and r: "resume_one_and_schedule q k = Some k'"
  shows "touches A k k'"
proof (cases "lists k q")
  case Nil
  then show ?thesis using r by (simp add: resume_one_and_schedule_def)
next
  case (Cons u us)
  then have "rt_schedule (thread_resumed u k) = Some k'"
    using r rt_ipc_list_resume_ok(1)[OF w q Cons] by (simp add: resume_one_and_schedule_def)
  then show ?thesis using touches_trans[OF touches_resumed[OF w] touches_schedule] by blast
qed

lemma resume_one_ready:
  assumes w: "wf_kernel lo k" and q: "wait_queue q" and r: "resume_one_and_schedule q k = Some k'"
    and u: "lists k q = u # us"
  shows "tstat k' u = RT_THREAD_READY" "error (thread k' u) = error (thread k u)"
proof -
  have "rt_schedule (thread_resumed u k) = Some k'"
    using r u rt_ipc_list_resume_ok(1)[OF w q u] by (simp add: resume_one_and_schedule_def)
  then have "thread k' = thread (thread_resumed u k)" using rt_schedule_frame cpu_frameD(1) by blast
  then show "tstat k' u = RT_THREAD_READY" "error (thread k' u) = error (thread k u)"
    using tstat_resumed[of u k] by (simp_all add: tstat_def thread_resumed_thread)
qed

lemma ipc_flag_timer [simp]:
  "ipc_flag b (timer_stopped (TimerOf t) k) = ipc_flag b k" "ipc_flag b (timer_started (TimerOf t) k) = ipc_flag b k"
  by (simp_all add: ipc_flag_def timer_stopped_def timer_started_def rt_timer_stop_def set_timer_flag_def
      rt_timer_remove_def upd_object_def Let_def)

lemma ipc_flag_suspended: "ipc_flag b (thread_suspended t k) = ipc_flag b k"
  by (simp add: thread_suspended_def) (simp add: ipc_flag_def sched_removed_def)

lemma ipc_flag_block:
  assumes w: "wf_kernel lo k" and t: "tstat k t = RT_THREAD_READY" and r: "block_current q flag time t k = Some k'"
  shows "ipc_flag b k' = ipc_flag b k" "user_timers k' = user_timers k"
proof -
  obtain k1 k2 where k: "rt_ipc_list_suspend q t flag k = Some k1" "start_wait_timer t time k1 = Some k2"
    "rt_schedule k2 = Some k'"
    using r by (auto simp: block_current_def bind_eq_Some_conv)
  have "rt_thread_suspend t k = Some (RT_EOK, thread_suspended t k)"
    using rt_thread_suspend_eq[OF wf_kernelD(1)[OF w], of t] t by simp
  then have o: "objects k1 = objects (thread_suspended t k)" "timer_list k1 = timer_list (thread_suspended t k)"
    using k(1) by (auto simp: rt_ipc_list_suspend_def tl_insert_before_def tl_push_def tl_set_eq split: if_splits)
  then have 1: "ipc_flag b k1 = ipc_flag b k" "user_timers k1 = user_timers k"
    using ipc_flag_suspended[of b t k] user_timers_moved(2)[of t k] by (simp_all add: ipc_flag_def user_timers_def)
  let ?k = "upd_timer (TimerOf t) (\<lambda>t. t\<lparr>tm_init_tick := word_of_int time\<rparr>) k1"
  have "k2 = k1 \<or> k2 = timer_started (TimerOf t) ?k"
    using k(2) by (auto simp: start_wait_timer_def rt_timer_control_def bind_eq_Some_conv rt_timer_start_eq
        split: if_splits)
  moreover have "ipc_flag b ?k = ipc_flag b k1" by (simp add: ipc_flag_def upd_timer_def)
  ultimately have 2: "ipc_flag b k2 = ipc_flag b k1" "user_timers k2 = user_timers k1" by auto
  have "cpu_frame k2 k'" using rt_schedule_frame[OF k(3)] by simp
  then have "ipc_flag b k' = ipc_flag b k2" "user_timers k' = user_timers k2"
    using cpu_frameD(8) user_timers_cpu by (simp_all add: ipc_flag_def)
  then show "ipc_flag b k' = ipc_flag b k" "user_timers k' = user_timers k" using 1 2 by simp_all
qed

lemma touches_block:
  assumes w: "wf_kernel lo k" and lo: "lo \<le> 1" and t: "tstat k t = RT_THREAD_READY"
    and q: "q = Susp a \<or> q = SuspSender a" and r: "block_current q flag time t k = Some k'"
  shows "touches {a} k k'"
proof (rule touches_frame)
  have wq: "wait_queue q" using q by (auto simp: wait_queue_def)
  note b = block_current_ok[OF w lo t wq r]
  show "ipc_frame k k'" by (rule b(2))
  show "set (lists k' (Susp c)) \<subseteq> set (lists k (Susp c))" if "c \<notin> {a}" for c
    using b(10)[OF wait_queue_Susp(1), of c] q that by auto
  show "event_set (thread k' u) = event_set (thread k u) \<and> event_info (thread k' u) = event_info (thread k u) \<and>
    stack_addr (thread k' u) = stack_addr (thread k u)" for u
    using b(9) by simp
  show "ipc_flag c k' = ipc_flag c k" for c by (rule ipc_flag_block(1)[OF w t r])
  show "user_timers k' \<subseteq> user_timers k" by (simp add: ipc_flag_block(2)[OF w t r])
qed

lemma touches_change_priority:
  assumes w: "wf_kernel lo k" and r: "change_priority t p k = Some k'"
  shows "touches A k k'"
proof (rule touches_frame)
  note o = change_priority_ok[OF w r]
  show "ipc_frame k k'" by (rule o(2))
  show "set (lists k' (Susp c)) \<subseteq> set (lists k (Susp c))" for c using o(8)[OF wait_queue_Susp(1), of c] by simp
  show "event_set (thread k' u) = event_set (thread k u) \<and> event_info (thread k' u) = event_info (thread k u) \<and>
    stack_addr (thread k' u) = stack_addr (thread k u)" for u
    using w r by (cases rule: change_priority_cases) (simp_all add: sched_inserted_def sched_removed_def)
  show "ipc_flag c k' = ipc_flag c k" for c using o(9) by (simp add: ipc_flag_def)
  show "user_timers k' \<subseteq> user_timers k" using w r by (cases rule: change_priority_cases) simp_all
qed

lemma keeps_ready_change_priority:
  assumes w: "wf_kernel lo k" and r: "change_priority u p k = Some k'"
  shows "keeps_ready t k k'"
proof (rule keeps_ready_tstat)
  note o = change_priority_ok[OF w r]
  show "tstat k' v = tstat k v" for v using o(5) fun_cong[OF o(4), of v] by (cases "v = u") (simp_all add: tstat_def)
qed

section \<open>The effect of a call on the rest of the system\<close>

text \<open>The two frames and the nesting counts together.\<close>

definition call_frame :: "nat set \<Rightarrow> nat \<Rightarrow> kernel \<Rightarrow> kernel \<Rightarrow> bool" where
  "call_frame A t k k' \<longleftrightarrow> touches A k k' \<and> keeps_ready t k k' \<and> keeps_asleep t k k' \<and>
     interrupt_nest k' = interrupt_nest k \<and> lock_nest k' = lock_nest k \<and> tick k' = tick k"

lemma call_frame_refl [simp]: "call_frame A t k k" by (simp add: call_frame_def)

lemma call_frame_trans [trans]: "call_frame A t k k' \<Longrightarrow> call_frame A t k' k'' \<Longrightarrow> call_frame A t k k''"
  unfolding call_frame_def using touches_trans keeps_ready_trans keeps_asleep_trans by metis

lemma call_frame_objects [simp]:
  "call_frame {a} t k (upd_sem a f k)" "call_frame {a} t k (upd_mutex a g k)" "call_frame {a} t k (upd_event a h k)"
  "call_frame {a} t k (upd_mb a m k)" "call_frame A t k (upd_ram r k)"
  by (simp_all add: call_frame_def; simp add: keeps_ready_def keeps_asleep_def asleep_def tstat_def upd_defs upd_ram_def)+

lemma call_frame_error [simp]: "call_frame A t k (upd_thread u (\<lambda>th. th\<lparr>error := e\<rparr>) k)"
  by (auto simp: call_frame_def keeps_ready_def keeps_asleep_def asleep_def tstat_def)

lemma call_frame_schedule: "rt_schedule k = Some k' \<Longrightarrow> call_frame A t k k'"
  using touches_schedule keeps_ready_schedule keeps_asleep_schedule nests_frame[OF ipc_frame_schedule]
    ipc_frameD(9)[OF ipc_frame_schedule] by (auto simp: call_frame_def)

lemma call_frame_resume_one:
  assumes "wf_kernel lo k" "wait_queue q" "resume_one_and_schedule q k = Some k'"
  shows "call_frame A t k k'"
  using touches_resume_one[OF assms] keeps_ready_resume_one[OF assms] keeps_asleep_resume_one[OF assms]
    ipc_frameD(9)[OF resume_one_and_schedule_ok(2)[OF assms]] nests_frame[OF resume_one_and_schedule_ok(2)[OF assms]] by (simp add: call_frame_def)

lemma call_frame_block:
  assumes "wf_kernel lo k" "lo \<le> 1" "tstat k t = RT_THREAD_READY" "q = Susp a \<or> q = SuspSender a"
    "block_current q flag time t k = Some k'"
  shows "call_frame {a} t k k'"
proof -
  have q: "wait_queue q" using assms(4) by (auto simp: wait_queue_def)
  show ?thesis
    using touches_block[OF assms] keeps_ready_block[OF assms(1-3) q assms(5)] keeps_asleep_block[OF assms(1,3,5)]
      nests_frame[OF block_current_ok(2)[OF assms(1-3) q assms(5)]] by (simp add: call_frame_def)
qed

lemma call_frame_change_priority:
  assumes "wf_kernel lo k" "change_priority u p k = Some k'"
  shows "call_frame A t k k'"
  using touches_change_priority[OF assms] keeps_ready_change_priority[OF assms] keeps_asleep_change_priority[OF assms]
    nests_frame[OF change_priority_ok(2)[OF assms]] by (simp add: call_frame_def)

lemma call_frame_resumed:
  assumes "wf_kernel lo k" "tlist (thread k u) \<noteq> None"
  shows "call_frame A t k (thread_resumed u k)"
  using touches_resumed[OF assms(1)] keeps_ready_resumed keeps_asleep_resumed[OF assms(2)]
    nests_frame[OF ipc_frame_resumed] ipc_frameD(9)[OF ipc_frame_resumed] by (simp add: call_frame_def)

lemma sys_ok_frame:
  assumes "calls idle t k" "call_frame A t k k'" "wf_kernel 1 k'" "live k'" "run_ready k'"
  shows "sys_ok idle k'"
  using assms callsD[OF assms(1)] by (simp add: sys_ok_def call_frame_def keeps_ready_def)

lemma block_self_frame:
  assumes c: "calls idle t k" and q: "q = Susp a \<or> q = SuspSender a"
    and r: "block_current q flag time t (upd_thread t (\<lambda>th. th\<lparr>error := RT_EOK\<rparr>) k) = Some k'"
  shows "call_frame {a} t k k'"
proof -
  note d = callsD[OF c]
  have "tstat (upd_thread t (\<lambda>th. th\<lparr>error := RT_EOK\<rparr>) k) t = RT_THREAD_READY"
    using d(3,4) by (simp add: run_ready_def tstat_def)
  then have "call_frame {a} t (upd_thread t (\<lambda>th. th\<lparr>error := RT_EOK\<rparr>) k) k'"
    using call_frame_block[OF wf_kernel_set_error[OF d(1)] d(9) _ q r] by simp
  then show ?thesis by (rule call_frame_trans[OF call_frame_error])
qed

section \<open>The calls\<close>

abbreviation ipc_flag_ok :: "nat \<Rightarrow> kernel \<Rightarrow> bool" where
  "ipc_flag_ok a k \<equiv> ipc_flag a k = RT_IPC_FLAG_FIFO \<or> ipc_flag a k = RT_IPC_FLAG_PRIO"

lemma sem_inv_abs: "sem_inv a k \<longleftrightarrow> fst (sem_abs a k) = 0 \<or> snd (sem_abs a k) = []"
  by (simp add: sem_inv_def sem_abs_def)

lemma rt_sem_take_sys:
  assumes c: "calls idle t k" and a: "a \<noteq> 0" and f: "ipc_flag_ok a k" and time: "time < 0x7FFFFFFF"
  shows "\<exists>res k'. rt_sem_take a time k = Some (res, k') \<and> sys_ok idle k' \<and> call_frame {a} t k k' \<and>
    (sem_inv a k \<longrightarrow> sem_inv a k')"
proof -
  note d = callsD[OF c]
  obtain res k' where r: "rt_sem_take a time k = Some (res, k')" and l: "live k'"
    using rt_sem_take_live[OF d(1,9,2,3,4,5,6,7) a time] by blast
  note o = rt_sem_take_ok[OF d(1,9,3) f r]
  have fr: "call_frame {a} t k k'"
    using r
  proof (cases rule: rt_sem_take_cases)
    case (block s)
    then show ?thesis using block_self_frame[OF c, of "Susp a" a] d(4) by simp
  qed simp_all
  have "sem_inv a k \<longrightarrow> sem_inv a k'" using o(2) by (auto simp: sem_inv_abs spec_take_def word_gt_0)
  then show ?thesis using r sys_ok_frame[OF c fr o(1) l o(4)[OF d(8)]] fr by blast
qed

lemma rt_sem_release_sys:
  assumes c: "calls idle t k"
  shows "\<exists>k'. rt_sem_release a k = Some (RT_EOK, k') \<and> sys_ok idle k' \<and> call_frame {a} t k k' \<and>
    (sem_inv a k \<longrightarrow> sem_inv a k')"
proof -
  note d = callsD[OF c]
  obtain k' where r: "rt_sem_release a k = Some (RT_EOK, k')" and l: "live k'"
    using rt_sem_release_live[OF d(1,2)] by blast
  note o = rt_sem_release_ok[OF d(1) r]
  have "k' = upd_sem a (\<lambda>s. s\<lparr>sem_value := sem_value s + 1\<rparr>) k \<or> resume_one_and_schedule (Susp a) k = Some k'"
    using r by (auto simp: rt_sem_release_def resume_one_and_schedule_def bind_eq_Some_conv split: if_splits)
  then have fr: "call_frame {a} t k k'" using call_frame_resume_one[OF d(1) wait_queue_Susp(1)] by auto
  have "sem_inv a k \<longrightarrow> sem_inv a k'" using o(3) by (auto simp: sem_inv_abs spec_release_def split: list.splits)
  then show ?thesis using r sys_ok_frame[OF c fr o(1) l o(5)[OF d(3)]] fr by blast
qed

lemma mutex_inherit_frame:
  assumes "wf_kernel lo k" "mutex_inherit u ow k = Some k'"
  shows "call_frame A t k k'"
  using assms call_frame_change_priority[OF assms(1)]
  by (auto simp: mutex_inherit_def rt_thread_control_priority bind_eq_Some_conv split: if_splits)

lemma mutex_again_frame:
  assumes w: "wf_kernel lo k" and lo: "lo \<le> 1" and t: "tstat k t = RT_THREAD_READY"
    and r: "mutex_again a time t k = Some (res, k')"
  shows "call_frame {a} t k k'"
  using r
proof (cases rule: mutex_again_cases)
  case (block ow k1)
  note m = mutex_inherit_ok[OF w block(5)]
  have "tstat k1 t = RT_THREAD_READY" using m(4) t by (simp add: tstat_def)
  then have "call_frame {a} t k1 k'" using call_frame_block[OF m(1) lo _ _ block(6)] by simp
  then show ?thesis by (rule call_frame_trans[OF mutex_inherit_frame[OF w block(5)]])
qed simp_all

lemma mutex_again_sys:
  assumes c: "calls idle t k" and f: "ipc_flag_ok a k" and time: "time < 0x7FFFFFFF" and inv: "mutex_inv a k"
  shows "\<exists>res k'. mutex_again a time t k = Some (res, k') \<and> sys_ok idle k' \<and> call_frame {a} t k k' \<and> mutex_inv a k'"
proof -
  note d = callsD[OF c]
  obtain res k' where r: "mutex_again a time t k = Some (res, k')" and l: "live k'"
    using mutex_again_live[OF d(1,9,2,3,4,5,6) time inv] by blast
  note o = mutex_again_ok[OF d(1,9,3,4) f inv r]
  have fr: "call_frame {a} t k k'"
    by (rule mutex_again_frame[OF d(1,9) _ r]) (use d(3,4) in \<open>simp add: run_ready_def\<close>)
  show ?thesis using r sys_ok_frame[OF c fr o(1) l o(4)[OF d(8)]] fr o(2) by blast
qed

lemma rt_mutex_take_sys:
  assumes c: "calls idle t k" and a: "a \<noteq> 0" and f: "ipc_flag_ok a k" and time: "time < 0x7FFFFFFF"
    and inv: "mutex_inv a k" and h: "hold (mutexes k a) \<noteq> 0xFF"
  shows "\<exists>res k'. rt_mutex_take a time k = Some (res, k') \<and> sys_ok idle k' \<and> call_frame {a} t k k' \<and> mutex_inv a k'"
proof -
  note d = callsD[OF c]
  obtain res k' where r: "rt_mutex_take a time k = Some (res, k')" and l: "live k'"
    using rt_mutex_take_live[OF d(1,9,2,3,4,5,6,7) a time inv] by blast
  note o = rt_mutex_take_ok[OF d(1,9,3,4) f inv h r]
  let ?k = "upd_thread t (\<lambda>th. th\<lparr>error := RT_EOK\<rparr>) k"
  have w1: "wf_kernel 1 ?k" by (rule wf_kernel_set_error[OF d(1)])
  have rd: "tstat ?k t = RT_THREAD_READY" using d(3,4) by (simp add: run_ready_def tstat_def)
  have "k' = upd_mutex a (\<lambda>m. m\<lparr>hold := hold m + 1\<rparr>) ?k \<or> mutex_again a time t ?k = Some (res, k')"
    using r by (cases rule: rt_mutex_take_cases) (use d(4) in auto)
  then have "call_frame {a} t ?k k'" using mutex_again_frame[OF w1 d(9) rd] by auto
  then have fr: "call_frame {a} t k k'" by (rule call_frame_trans[OF call_frame_error])
  show ?thesis using r sys_ok_frame[OF c fr o(1) l o(4)[OF d(8)]] fr o(2) by blast
qed

lemma mutex_restore_frame:
  assumes "wf_kernel lo k" "mutex_restore b u k = Some k'"
  shows "call_frame A t k k'"
  using assms call_frame_change_priority[OF assms(1)]
  by (auto simp: mutex_restore_def rt_thread_control_priority bind_eq_Some_conv split: if_splits)

lemma rt_mutex_release_sys:
  assumes c: "calls idle t k" and inv: "mutex_inv a k"
  shows "\<exists>e k'. rt_mutex_release a k = Some (e, k') \<and> sys_ok idle k' \<and> call_frame {a} t k k' \<and> mutex_inv a k'"
proof -
  note d = callsD[OF c]
  obtain e k' where r: "rt_mutex_release a k = Some (e, k')" and l: "live k'"
    using rt_mutex_release_live[OF d(1,2,4,7) inv] by blast
  note o = rt_mutex_release_ok[OF d(1,3,4) inv r]
  let ?k = "upd_mutex a (\<lambda>m. m\<lparr>hold := hold m - 1\<rparr>) k"
  have w1: "wf_kernel 1 ?k" using d(1) by simp
  have fr1: "call_frame {a} t k k1" if "mutex_restore a t ?k = Some k1" for k1
    by (rule call_frame_trans[OF _ mutex_restore_frame[OF w1 that]]) simp
  have fr: "call_frame {a} t k k'"
    using r d(4)
  proof (cases rule: rt_mutex_release_cases)
    case (free k1)
    then show ?thesis using call_frame_trans[OF fr1[OF free(4)]] by simp
  next
    case (pass k1 u us)
    let ?k2 = "upd_mutex a (\<lambda>m. m\<lparr>owner := Some u, original_priority := current_priority (thread k1 u),
      hold := hold m + 1\<rparr>) k1"
    have "wf_kernel 1 ?k2" using mutex_restore_ok(1)[OF w1 pass(4)] by simp
    then have "call_frame {a} t ?k2 k'" using call_frame_resume_one[OF _ wait_queue_Susp(1) pass(6)] by blast
    then have "call_frame {a} t k1 k'" by (rule call_frame_trans[rotated]) simp
    then show ?thesis by (rule call_frame_trans[OF fr1[OF pass(4)]])
  qed simp_all
  show ?thesis using r sys_ok_frame[OF c fr o(1) l o(4)] fr o(2) by blast
qed

lemma call_frame_event_fields:
  assumes "wf_kernel lo k" "tstat k t = RT_THREAD_READY"
  shows "call_frame {a} t k (upd_thread t (\<lambda>th. th\<lparr>event_set := f th, event_info := g th\<rparr>) k)"
proof -
  have "t \<notin> set (lists k (Susp b))" for b
    using waiting_iff[OF assms(1) wait_queue_Susp(1), of b t] assms(2) by (simp add: waiting_def)
  then show ?thesis
    by (auto simp: call_frame_def touches_def same_objs_def same_events_def ipc_flag_def keeps_ready_def keeps_asleep_def
        asleep_def tstat_def)
qed

lemma call_frame_deliver:
  assumes w: "wf_kernel lo k" and t: "u \<in> set (lists k (Susp a))" and r: "event_deliver a u k = Some k'"
  shows "call_frame {a} t k k'"
proof -
  define k1 where "k1 = (if event_info (thread k u) AND RT_EVENT_FLAG_AND \<noteq> 0 then k
    else upd_thread u (\<lambda>th. th\<lparr>event_set := event_set th AND ev_set (events k a)\<rparr>) k)"
  define k2 where "k2 = (if event_info (thread k1 u) AND RT_EVENT_FLAG_CLEAR \<noteq> 0
    then upd_event a (\<lambda>e. e\<lparr>ev_set := ev_set e AND NOT (event_set (thread k1 u))\<rparr>) k1 else k1)"
  have "wf_kernel lo k1" using w wf_kernel_thread_fields[OF w, of _ u] by (simp add: k1_def)
  then have w2: "wf_kernel lo k2" by (simp add: k2_def)
  have s2: "tstat k2 u = RT_THREAD_SUSPEND"
    using waiting_iff[OF w wait_queue_Susp(1), of a u] t by (simp add: k2_def k1_def waiting_def tstat_def)
  have k': "k' = thread_resumed u k2"
    using r rt_thread_resume_eq[OF wf_kernelD(1)[OF w2], of u] s2
    unfolding event_deliver_def k1_def[symmetric] Let_def k2_def[symmetric] by simp
  have "u \<notin> set (lists k (Susp b))" if "b \<noteq> a" for b
    using wf_queuesD(2)[of k u "Susp b"] wf_queuesD(2)[of k u "Susp a"] w t that
    by (metis list_head.inject(2) option.inject wf_kernelD(1) wf_schedD(1))
  then have "call_frame {a} t k k1"
    by (auto simp: k1_def call_frame_def touches_def same_objs_def same_events_def ipc_flag_def keeps_ready_def
        keeps_asleep_def asleep_def tstat_def)
  also have "call_frame {a} t k1 k2" by (simp add: k2_def)
  also have "call_frame {a} t k2 k'"
    unfolding k'
    by (rule call_frame_resumed[OF w2]) (use queued_tlist[OF w wait_queue_Susp(1) t] in \<open>simp add: k2_def k1_def\<close>)
  finally show ?thesis .
qed

lemma call_frame_wake:
  assumes "wf_kernel lo k" "lists k (Susp a) = us @ ts" "event_wake a ts need k = Some (need', k')"
  shows "call_frame {a} t k k'"
  using assms
proof (induction ts arbitrary: us need k)
  case (Cons u ts)
  show ?case
  proof (cases "event_ready a u k")
    case True
    have u: "u \<in> set (lists k (Susp a))" using Cons.prems(2) by simp
    obtain k1 where k1: "event_deliver a u k = Some k1" "wf_kernel lo k1"
      "lists k1 (Susp a) = removeAll u (lists k (Susp a))" using event_deliver_ok[OF Cons.prems(1) u] by blast
    have "distinct (us @ u # ts)" using wf_queuesD(1)[of k "Susp a"] Cons.prems(1,2) by (metis wf_kernelD(1) wf_schedD(1))
    then have "lists k1 (Susp a) = us @ ts" using k1(3) Cons.prems(2) by (simp add: removeAll_id)
    moreover have "event_wake a ts True k1 = Some (need', k')" using True k1(1) Cons.prems(3) by simp
    ultimately have "call_frame {a} t k1 k'" using Cons.IH[OF k1(2)] by blast
    then show ?thesis by (rule call_frame_trans[OF call_frame_deliver[OF Cons.prems(1) u k1(1)]])
  next
    case False
    then show ?thesis using Cons.IH[OF Cons.prems(1), of "us @ [u]"] Cons.prems(2,3) by simp
  qed
qed simp

lemma rt_event_send_sys:
  assumes c: "calls idle t k" and a: "a \<noteq> 0" and inv: "event_inv a k"
  shows "\<exists>e k'. rt_event_send a evs k = Some (e, k') \<and> sys_ok idle k' \<and> call_frame {a} t k k' \<and> event_inv a k'"
proof (cases "evs = 0")
  case True
  then show ?thesis using a c inv by (simp add: rt_event_send_def calls_def)
next
  case False
  note d = callsD[OF c]
  obtain e k' where r: "rt_event_send a evs k = Some (e, k')" and l: "live k'"
    using rt_event_send_live[OF d(1,2) a] by blast
  note o = rt_event_send_ok[OF d(1) r False]
  let ?k = "upd_event a (\<lambda>e. e\<lparr>ev_set := ev_set e OR evs\<rparr>) k"
  obtain need k1 where k1: "event_wake a (lists k (Susp a)) False ?k = Some (need, k1)"
    and k': "(if need then rt_schedule k1 else Some k1) = Some k'"
    using r a False by (auto simp: rt_event_send_def bind_eq_Some_conv)
  have "call_frame {a} t ?k k1" using call_frame_wake[of 1 ?k a "[]", OF _ _ k1] d(1) by simp
  moreover have "call_frame {a} t k1 k'" using k' call_frame_schedule by (auto split: if_splits)
  ultimately have "call_frame {a} t ?k k'" by (rule call_frame_trans)
  then have fr: "call_frame {a} t k k'" by (rule call_frame_trans[rotated]) simp
  show ?thesis using r sys_ok_frame[OF c fr o(1) l o(3)[OF d(3)]] fr o(2) by blast
qed

lemma rt_event_recv_sys:
  assumes c: "calls idle t k" and a: "a \<noteq> 0" and f: "ipc_flag_ok a k" and time: "timeout < 0x7FFFFFFF"
    and opt: "opt AND RT_EVENT_FLAG_AND \<noteq> 0 \<or> opt AND RT_EVENT_FLAG_OR \<noteq> 0" and inv: "event_inv a k"
  shows "\<exists>res k'. rt_event_recv a evs opt timeout k = Some (res, k') \<and> sys_ok idle k' \<and> call_frame {a} t k k' \<and>
    event_inv a k'"
proof -
  note d = callsD[OF c]
  obtain res k' where r: "rt_event_recv a evs opt timeout k = Some (res, k')" and l: "live k'"
    using rt_event_recv_live[OF d(1,9,2,3,4,5,6,7) a time opt] by blast
  note o = rt_event_recv_ok[OF d(1,9,3,4) f inv r]
  have fr: "call_frame {a} t k k'"
    using r d(4)
  proof (cases rule: rt_event_recv_cases)
    case got
    then show ?thesis using call_frame_trans[OF call_frame_error call_frame_objects(3)] by simp
  next
    case none
    then show ?thesis using call_frame_trans[OF call_frame_error call_frame_error] by simp
  next
    case block
    let ?k = "upd_thread t (\<lambda>th. th\<lparr>event_set := evs, event_info := opt\<rparr>) k"
    have rd: "tstat k t = RT_THREAD_READY" using d(3,4) by (simp add: run_ready_def)
    have w1: "wf_kernel 1 ?k" by (rule wf_kernel_thread_fields[OF d(1)]) simp_all
    have "call_frame {a} t k ?k" by (rule call_frame_event_fields[OF d(1) rd])
    also have "call_frame {a} t ?k (upd_thread t (\<lambda>th. th\<lparr>error := RT_EOK\<rparr>) ?k)" by simp
    also have "call_frame {a} t (upd_thread t (\<lambda>th. th\<lparr>error := RT_EOK\<rparr>) ?k) k'"
      by (rule call_frame_block[OF wf_kernel_set_error[OF w1] d(9) _ _ block(5)]) (use rd in \<open>simp_all add: tstat_def\<close>)
    finally show ?thesis .
  qed simp_all
  show ?thesis using r sys_ok_frame[OF c fr o(1) l o(3)[OF d(8)]] fr o(2) by blast
qed

text \<open>A mailbox: the ring is well formed and its buffer lies apart from the stacks.\<close>

definition mb_ok :: "nat \<Rightarrow> kernel \<Rightarrow> bool" where
  "mb_ok a k \<longleftrightarrow> mb_inv a k \<and>
     stacks_apart (mb_pool (mailboxes k a)) (4 * unat (mb_size (mailboxes k a))) k"

lemma stacks_apart_touches: "touches A k k' \<Longrightarrow> stacks_apart x n k' = stacks_apart x n k"
  by (simp add: stacks_apart_def touches_def)

lemma mb_ok_frame:
  assumes "mb_inv a k'" "touches A k k'" "mb_ok a k" "mb_pool (mailboxes k' a) = mb_pool (mailboxes k a)"
    "mb_size (mailboxes k' a) = mb_size (mailboxes k a)"
  shows "mb_ok a k'"
  using assms stacks_apart_touches[OF assms(2)] by (simp add: mb_ok_def)

lemma call_frame_mb_put: "call_frame {a} t k (mb_put a v k)"
  unfolding mb_put_def Let_def by (rule call_frame_trans[OF call_frame_objects(5) call_frame_objects(4)])

lemma call_frame_mb_get: "call_frame {a} t k (snd (mb_get a k))"
  by (simp add: mb_get_def Let_def)

lemma rt_mb_send_wait_sys:
  assumes c: "calls idle t k" and a: "a \<noteq> 0" and f: "ipc_flag_ok a k" and time: "timeout < 0x7FFFFFFF"
    and inv: "mb_ok a k"
  shows "\<exists>res k'. rt_mb_send_wait a v timeout k = Some (res, k') \<and> sys_ok idle k' \<and> call_frame {a} t k k' \<and> mb_ok a k'"
proof -
  note d = callsD[OF c]
  have i: "mb_inv a k" "stacks_apart (mb_pool (mailboxes k a)) (4 * unat (mb_size (mailboxes k a))) k"
    using inv by (simp_all add: mb_ok_def)
  obtain res k' where r: "rt_mb_send_wait a v timeout k = Some (res, k')" and l: "live k'"
    using rt_mb_send_wait_live[OF d(1,9,2,3,4,5,6,7) a time i] by blast
  note o = rt_mb_send_wait_ok[OF d(1,9,3) f i(1) r]
  have "call_frame {a} t k k' \<and> mb_pool (mailboxes k' a) = mb_pool (mailboxes k a) \<and>
    mb_size (mailboxes k' a) = mb_size (mailboxes k a)"
  proof (cases "mb_entry (mailboxes k a) = mb_size (mailboxes k a) \<and> timeout = 0")
    case True
    then show ?thesis using r by (auto simp: rt_mb_send_wait_eq)
  next
    case False
    then have "mb_send_loop a v timeout k = Some (res, k')" using r rt_mb_send_wait_eq[of a v timeout k res k'] by auto
    then show ?thesis
    proof (cases rule: mb_send_loop_cases)
      case sent
      have w1: "wf_kernel 1 (mb_put a v k)" by (rule wf_kernel_mb_put[OF d(1)])
      note p = resume_one_and_schedule_ok(2)[OF w1 wait_queue_Susp(1) sent(3)]
      have "mailboxes k' = mailboxes (mb_put a v k)" by (rule ipc_frameD(4)[OF p])
      then show ?thesis
        using call_frame_trans[OF call_frame_mb_put call_frame_resume_one[OF w1 wait_queue_Susp(1) sent(3)]]
        by (simp add: mb_put_def Let_def)
    next
      case full
      then show ?thesis by simp
    next
      case (block s)
      then have st: "s = t" using d(4) by simp
      note b = block_self_ok(2)[OF d(1,9,3,4) _ f, of "SuspSender a" timeout k']
      have "mailboxes k' = mailboxes k" using b block st ipc_frameD(4) by (simp add: wait_queue_def)
      then show ?thesis using block_self_frame[OF c, of "SuspSender a" a] block st by simp
    qed
  qed
  then have fr: "call_frame {a} t k k'" "mb_pool (mailboxes k' a) = mb_pool (mailboxes k a)"
    "mb_size (mailboxes k' a) = mb_size (mailboxes k a)" by blast+
  have "mb_ok a k'" using mb_ok_frame[OF o(2) _ inv fr(2,3)] fr(1) by (auto simp: call_frame_def)
  then show ?thesis using r sys_ok_frame[OF c fr(1) o(1) l o(3)[OF d(8)]] fr by blast
qed

lemma rt_mb_recv_sys:
  assumes c: "calls idle t k" and a: "a \<noteq> 0" and f: "ipc_flag_ok a k" and time: "timeout < 0x7FFFFFFF"
    and inv: "mb_ok a k"
  shows "\<exists>res k'. rt_mb_recv a timeout k = Some (res, k') \<and> sys_ok idle k' \<and> call_frame {a} t k k' \<and> mb_ok a k'"
proof -
  note d = callsD[OF c]
  have i: "mb_inv a k" using inv by (simp add: mb_ok_def)
  obtain res k' where r: "rt_mb_recv a timeout k = Some (res, k')" and l: "live k'"
    using rt_mb_recv_live[OF d(1,9,2,3,4,5,6,7) a time] by blast
  note o = rt_mb_recv_ok[OF d(1,9,3) f i r]
  have "call_frame {a} t k k' \<and> mb_pool (mailboxes k' a) = mb_pool (mailboxes k a) \<and>
    mb_size (mailboxes k' a) = mb_size (mailboxes k a)"
  proof (cases "mb_entry (mailboxes k a) = 0 \<and> timeout = 0")
    case True
    then show ?thesis using r by (auto simp: rt_mb_recv_eq)
  next
    case False
    then have "mb_recv_loop a timeout k = Some (res, k')" using r rt_mb_recv_eq[of a timeout k res k'] by auto
    then show ?thesis
    proof (cases rule: mb_recv_loop_cases)
      case (got v k1)
      have g: "k1 = snd (mb_get a k)" using got(2) by simp
      have w1: "wf_kernel 1 k1" using mb_get_frame(5)[OF got(2) d(1)] .
      have q: "wait_queue (SuspSender a)" by (simp add: wait_queue_def)
      note p = resume_one_and_schedule_ok(2)[OF w1 q got(4)]
      have "mailboxes k' = mailboxes k1" by (rule ipc_frameD(4)[OF p])
      then show ?thesis
        using call_frame_trans[OF call_frame_mb_get[of a t k, folded g] call_frame_resume_one[OF w1 q got(4)]]
        by (simp add: g mb_get_def Let_def)
    next
      case (none s)
      then show ?thesis using call_frame_trans[OF call_frame_error call_frame_error] by simp
    next
      case (block s)
      then have st: "s = t" using d(4) by simp
      note b = block_self_ok(2)[OF d(1,9,3,4) wait_queue_Susp(1) f, of a timeout k']
      have "mailboxes k' = mailboxes k" using b block st ipc_frameD(4) by simp
      then show ?thesis using block_self_frame[OF c, of "Susp a" a] block st by simp
    qed
  qed
  then have fr: "call_frame {a} t k k'" "mb_pool (mailboxes k' a) = mb_pool (mailboxes k a)"
    "mb_size (mailboxes k' a) = mb_size (mailboxes k a)" by blast+
  have "mb_ok a k'" using mb_ok_frame[OF o(2) _ inv fr(2,3)] fr(1) by (auto simp: call_frame_def)
  then show ?thesis using r sys_ok_frame[OF c fr(1) o(1) l o(3)[OF d(8)]] fr by blast
qed

section \<open>Yielding and sleeping\<close>

lemma mb_send_loop_sys:
  assumes c: "calls idle t k" and a: "a \<noteq> 0" and f: "ipc_flag_ok a k" and time: "timeout < 0x7FFFFFFF"
    and inv: "mb_ok a k"
  shows "\<exists>res k'. mb_send_loop a v timeout k = Some (res, k') \<and> sys_ok idle k' \<and> call_frame {a} t k k' \<and> mb_ok a k'"
proof (cases "mb_entry (mailboxes k a) = mb_size (mailboxes k a) \<and> timeout = 0")
  case True
  let ?k = "upd_thread t (\<lambda>th. th\<lparr>error := RT_EOK\<rparr>) k"
  note d = callsD[OF c]
  have r: "mb_send_loop a v timeout k = Some (Ret (- RT_EFULL), ?k)"
    using True d(4) by (simp add: mb_send_loop_def rt_thread_self_def Let_def)
  have fr: "call_frame {a} t k ?k" by simp
  have "mb_ok a ?k" using inv by (simp add: mb_ok_def mb_inv_def stacks_apart_def)
  moreover have "sys_ok idle ?k"
    by (rule sys_ok_frame[OF c fr wf_kernel_set_error[OF d(1)]]) (use d(2,3) in \<open>simp_all add: run_ready_def tstat_def\<close>)
  ultimately show ?thesis using r fr by blast
next
  case False
  then show ?thesis using rt_mb_send_wait_sys[OF c a f time inv] rt_mb_send_wait_eq[of a v timeout k] by metis
qed

lemma mb_recv_loop_sys:
  assumes c: "calls idle t k" and a: "a \<noteq> 0" and f: "ipc_flag_ok a k" and time: "timeout < 0x7FFFFFFF"
    and inv: "mb_ok a k"
  shows "\<exists>res k'. mb_recv_loop a timeout k = Some (res, k') \<and> sys_ok idle k' \<and> call_frame {a} t k k' \<and> mb_ok a k'"
proof (cases "mb_entry (mailboxes k a) = 0 \<and> timeout = 0")
  case True
  let ?k1 = "upd_thread t (\<lambda>th. th\<lparr>error := RT_EOK\<rparr>) k"
  let ?k = "upd_thread t (\<lambda>th. th\<lparr>error := - RT_ETIMEOUT\<rparr>) ?k1"
  note d = callsD[OF c]
  have r: "mb_recv_loop a timeout k = Some (Ret (- RT_ETIMEOUT, None), ?k)"
    using True d(4) by (simp add: mb_recv_loop_def rt_thread_self_def Let_def)
  have fr: "call_frame {a} t k ?k" by (rule call_frame_trans[OF call_frame_error call_frame_error])
  have "mb_ok a ?k" using inv by (simp add: mb_ok_def mb_inv_def stacks_apart_def)
  moreover have "sys_ok idle ?k"
    by (rule sys_ok_frame[OF c fr wf_kernel_set_error[OF wf_kernel_set_error[OF d(1)]]])
      (use d(2,3) in \<open>simp_all add: run_ready_def tstat_def\<close>)
  ultimately show ?thesis using r fr by blast
next
  case False
  then show ?thesis using rt_mb_recv_sys[OF c a f time inv] rt_mb_recv_eq[of a timeout k] by metis
qed

lemma rotated_frame:
  assumes w: "wf_kernel lo k" and t: "tstat k t = RT_THREAD_READY"
  shows "call_frame A u k (thread_rotated t k)"
proof -
  have th: "thread (thread_rotated t k) = thread k" using assms by (intro rotated_thread) auto
  have tl: "tlist (thread k t) = Some (Ready (tprio k t))"
    using t wf_schedD(3)[OF wf_kernelD(1)[OF w], of t] by (auto simp: thread_ok_def tstat_def tprio_def Let_def)
  have l: "lists (thread_rotated t k) (Susp b) = lists k (Susp b)" for b
    using tl by (simp add: thread_rotated_def tl_push_def tl_set_eq tl_unlink_eq)
  have "ipc_frame k (thread_rotated t k)"
    by (simp add: thread_rotated_def tl_push_def tl_set_eq tl_unlink_eq ipc_frame_def ipc_state_def)
  then show ?thesis
    using th l ipc_frameD[of k "thread_rotated t k"]
    by (simp add: call_frame_def touches_def same_objs_def same_events_def keeps_ready_def keeps_asleep_def asleep_def
        tstat_def ipc_flag_def user_timers_def thread_rotated_def tl_push_def tl_set_eq tl_unlink_eq)
qed

lemma current_rotated [simp]: "current (thread_rotated t k) = current k"
  by (simp add: thread_rotated_def tl_push_def tl_set_eq tl_unlink_eq)

lemma rt_thread_yield_sys:
  assumes w: "wf_kernel lo k" and l: "live k" and rr: "run_ready k"
  shows "\<exists>e k'. rt_thread_yield k = Some (e, k') \<and> wf_kernel lo k' \<and> live k' \<and> run_ready k' \<and> call_frame A u k k'"
proof -
  obtain t where t: "current k = Some t" using l by (auto simp: live_def)
  obtain e k' where r: "rt_thread_yield k = Some (e, k')" and l': "live k'"
    using rt_thread_yield_returns[OF w l] by blast
  have w': "wf_kernel lo k'" by (rule wf_kernel_yield[OF w r])
  have "run_ready k' \<and> call_frame A u k k'"
  proof (cases "tstat k t = RT_THREAD_READY \<and> tlist_shared t k")
    case False
    then show ?thesis using r rr by (auto simp: rt_thread_yield_eq[OF w t])
  next
    case True
    have k': "rt_schedule (thread_rotated t k) = Some k'" using r True by (auto simp: rt_thread_yield_eq[OF w t])
    have w1: "wf_kernel lo (thread_rotated t k)" using wf_kernel_rotated[OF w] True by blast
    have th: "thread (thread_rotated t k) = thread k" using True w by (intro rotated_thread) auto
    then have "run_ready (thread_rotated t k)" using rr by (simp add: run_ready_def tstat_def)
    then have "run_ready k'" by (rule run_ready_schedule_any[OF wf_kernelD(1)[OF w1] k'])
    moreover have "call_frame A u k k'"
      using call_frame_trans[OF rotated_frame[OF w] call_frame_schedule[OF k']] True by blast
    ultimately show ?thesis by blast
  qed
  then show ?thesis using r l' w' by blast
qed

lemma touches_suspended: "touches A k (thread_suspended t k)"
proof (rule touches_frame[OF ipc_frame_suspended])
  show "set (lists (thread_suspended t k) (Susp b)) \<subseteq> set (lists k (Susp b))" for b
    by (auto simp: thread_suspended_def sched_removed_def)
qed (auto simp: thread_suspended_thread ipc_flag_suspended)

lemma touches_timer:
  "touches A k (upd_timer i f k)" "touches A k (timer_started (TimerOf t) k)" "touches A k (timer_stopped (TimerOf t) k)"
  by (rule touches_same; simp add: same_objs_def same_events_def upd_timer_def timer_started_def Let_def ipc_flag_def
      timer_stopped_def rt_timer_stop_def set_timer_flag_def rt_timer_remove_def upd_object_def user_timers_def)+

lemma rt_thread_sleep_sys:
  assumes c: "calls idle t k" and time: "tck < 0x7FFFFFFF"
  shows "\<exists>k'. rt_thread_sleep tck k = Some k' \<and> sys_ok idle k' \<and> call_frame {} t k k'"
proof -
  note d = callsD[OF c]
  have rd: "tstat k t = RT_THREAD_READY" using d(3,4) by (simp add: run_ready_def)
  let ?k1 = "thread_suspended t k"
  let ?k2 = "upd_timer (TimerOf t) (\<lambda>t. t\<lparr>tm_init_tick := tck\<rparr>) ?k1"
  let ?k3 = "timer_started (TimerOf t) ?k2"
  have s: "rt_thread_suspend t k = Some (RT_EOK, ?k1)"
    using rt_thread_suspend_eq[OF wf_kernelD(1)[OF d(1)], of t] rd by simp
  have w1: "wf_kernel 1 ?k1" by (rule wf_kernel_suspended[OF d(1) rd])
  have s1: "tstat ?k1 t = RT_THREAD_SUSPEND" by (rule tstat_suspended)
  have st: "rt_timer_start (TimerOf t) ?k2 = Some (RT_EOK, ?k3)"
    using time by (simp add: rt_timer_start_eq upd_timer_def)
  have w3: "wf_kernel 1 ?k3" using wf_kernel_arm[OF w1 d(9) s1] st by (simp add: rt_timer_control_def)
  have "timer_fns ?k1" using wf_kernelD(2)[OF w1] by (simp add: wf_timers_def)
  moreover have l1: "live ?k1" by (rule live_suspended[OF d(2) rd])
  ultimately have "periods_ok ?k2"
    by (auto simp: live_def periods_ok_def timer_fns_def timer_flag_def upd_timer_def)
  moreover have "stacks_ok ?k1" using l1 by (simp add: live_def)
  then have "stacks_ok ?k2" by (rule stacks_ok_cong) (simp_all add: upd_timer_def tstat_def)
  ultimately have "live ?k2" using l1 by (simp add: live_def upd_timer_def)
  then have l3: "live ?k3" by (rule live_started)
  have th: "thread ?k3 = thread ?k1" by (simp add: upd_timer_def)
  have "tstat ?k3 idle = RT_THREAD_READY"
    using d(5,6) th by (simp add: tstat_def thread_suspended_thread)
  then obtain k' where k': "rt_schedule ?k3 = Some k'" "live k'"
    using rt_schedule_live[OF wf_kernelD(1)[OF w3] l3] by blast
  have r: "rt_thread_sleep tck k = Some k'"
    using d(4) s st k'(1) by (simp add: rt_thread_sleep_def rt_thread_self_def rt_timer_control_def)
  have "touches {} k ?k1" by (rule touches_suspended)
  also have "touches {} ?k1 ?k2" by (rule touches_timer)
  also have "touches {} ?k2 ?k3" by (rule touches_timer)
  also have "touches {} ?k3 k'" by (rule touches_schedule[OF k'(1)])
  finally have to: "touches {} k k'" .
  have "ipc_frame ?k1 ?k2" by (simp add: ipc_frame_def ipc_state_def upd_timer_def)
  then have fr: "ipc_frame k ?k3"
    using ipc_frame_trans[OF ipc_frame_suspended ipc_frame_trans[OF _ ipc_frame_timer_started]] by blast
  have "keeps_ready t k ?k3" using th by (auto simp: keeps_ready_def tstat_def thread_suspended_thread)
  then have "keeps_ready t k k'" using keeps_ready_trans keeps_ready_schedule[OF k'(1)] by blast
  moreover have "keeps_asleep t k k'"
    by (rule keeps_asleep_trans[OF keeps_asleep_suspended keeps_asleep_trans[OF _ keeps_asleep_schedule[OF k'(1)]]])
      (auto intro!: keeps_asleep_same simp: tstat_def started_other)
  moreover have "tick k' = tick k"
    using ipc_frameD(9)[OF ipc_frame_trans[OF fr ipc_frame_schedule[OF k'(1)]]] .
  ultimately have cf: "call_frame {} t k k'"
    using to nests_frame[OF ipc_frame_trans[OF fr ipc_frame_schedule[OF k'(1)]]] by (simp add: call_frame_def)
  have "lock_nest ?k3 = 0" using nests_frame(2)[OF fr] d(8) by simp
  then have "run_ready k'" using run_ready_schedule[OF wf_kernelD(1)[OF w3] k'(1)] by blast
  then show ?thesis using r cf sys_ok_frame[OF c cf wf_kernel_schedule[OF w3 k'(1)] k'(2)] by blast
qed

end
