(* ===== verification/PoolCalls.thy ===== *)
theory PoolCalls
  imports CallFrame
begin

text \<open>
  The calls on message queues and memory pools return, keep the system between two calls and touch
  no other object, when the pools do not overlap the stacks of the threads.
\<close>

section \<open>Message queues\<close>

lemma live_upd_mq [simp]: "live k \<Longrightarrow> live (upd_mq a f k)"
  by (simp add: live_def stacks_ok_def stack_ok_def kram_def periods_ok_def timer_flag_def tstat_def upd_mq_def Let_def)

lemma stacks_apart_upd [simp]:
  "stacks_apart x n (upd_mq a f k) = stacks_apart x n k" "stacks_apart x n (upd_ram r k) = stacks_apart x n k"
  "stacks_apart x n (upd_mp a g k) = stacks_apart x n k"
  "stacks_apart x n (set_msg_next y z k) = stacks_apart x n k"
  by (simp_all add: stacks_apart_def set_msg_next_def)

lemma call_frame_pools [simp]:
  "call_frame A t k (upd_mq a f k)" "call_frame A t k (upd_mp a g k)" "call_frame A t k (set_msg_next x v k)"
proof -
  show "call_frame A t k (upd_mq a f k)" "call_frame A t k (upd_mp a g k)"
    unfolding call_frame_def
    by (auto intro!: touches_same keeps_ready_tstat keeps_asleep_same
        simp: same_events_def same_objs_def ipc_flag_def user_timers_def tstat_def upd_mq_def upd_mp_def)
  show "call_frame A t k (set_msg_next x v k)" by (simp add: set_msg_next_def)
qed

text \<open>Writing to memory that holds no stack leaves the system alive.\<close>

definition same_but_ram :: "kernel \<Rightarrow> kernel \<Rightarrow> bool" where
  "same_but_ram k k' \<longleftrightarrow> thread k' = thread k \<and> lists k' = lists k \<and> timers k' = timers k \<and> objects k' = objects k \<and>
     timer_list k' = timer_list k \<and> current k' = current k \<and> sems k' = sems k \<and> mutexes k' = mutexes k \<and>
     events k' = events k \<and> mailboxes k' = mailboxes k \<and> interrupt_nest k' = interrupt_nest k \<and>
     lock_nest k' = lock_nest k \<and> tick k' = tick k"

lemma live_confined:
  assumes "live k" "same_but_ram k k'" "stacks_apart p n k" "confined p n (kram k) (kram k')"
  shows "live k'"
proof -
  have "kram k' (unat (stack_addr (thread k t))) = kram k (unat (stack_addr (thread k t)))" for t
    using assms(3,4) by (auto simp: stacks_apart_def confined_def apart_def)
  then show ?thesis
    using assms(1,2) by (simp add: live_def same_but_ram_def stacks_ok_def stack_ok_def periods_ok_def timer_flag_def tstat_def Let_def)
qed

lemma call_frame_same: "same_but_ram k k' \<Longrightarrow> call_frame A t k k'"
  unfolding call_frame_def same_but_ram_def
  by (auto intro!: touches_same keeps_ready_tstat keeps_asleep_same
      simp: same_events_def same_objs_def ipc_flag_def user_timers_def tstat_def)

lemma mq_same_but_ram:
  "same_but_ram k (mq_append a x b sz k)" "same_but_ram k (mq_prepend a x b sz k)"
  "mq_take a b sz k = Some k' \<Longrightarrow> same_but_ram k k'"
  by (auto simp: same_but_ram_def mq_append_def mq_prepend_def mq_take_def mq_give_back_def mq_unlink_def
      set_msg_next_def Let_def upd_mq_def upd_ram_def)

lemma confined_sub: "confined x c m m' \<Longrightarrow> p \<le> x \<Longrightarrow> x + c \<le> p + n \<Longrightarrow> confined p n m m'"
  by (auto simp: confined_def)

definition mq_ok :: "nat \<Rightarrow> nat list \<Rightarrow> nat list \<Rightarrow> kernel \<Rightarrow> bool" where
  "mq_ok a q f k \<longleftrightarrow> mq_rep a q f k \<and>
     stacks_apart (mq_pool (mqueues k a)) (unat (max_msgs (mqueues k a)) * msg_step (mqueues k a)) k"

lemma mq_okD:
  assumes "mq_ok a q f k"
  defines "p \<equiv> mq_pool (mqueues k a)" and "n \<equiv> unat (max_msgs (mqueues k a)) * msg_step (mqueues k a)"
  shows "mq_rep a q f k" "stacks_apart p n k"
    "x \<in> set q \<union> set f \<Longrightarrow> p \<le> x \<and> x + msg_step (mqueues k a) \<le> p + n"
    "x \<in> set q \<union> set f \<Longrightarrow> slot p (msg_step (mqueues k a)) (unat (max_msgs (mqueues k a))) x"
    "f \<noteq> [] \<Longrightarrow> msg_queue_free (mqueues k a) = hd f" "q \<noteq> [] \<Longrightarrow> msg_queue_head (mqueues k a) = hd q"
    "msg_queue_tail (mqueues k a) \<noteq> 0 \<Longrightarrow> msg_queue_tail (mqueues k a) \<in> set q"
proof -
  show r: "mq_rep a q f k" and "stacks_apart p n k" using assms by (simp_all add: mq_ok_def)
  show s: "slot p (msg_step (mqueues k a)) (unat (max_msgs (mqueues k a))) x" if "x \<in> set q \<union> set f"
    using mq_repD(5)[OF r, of x] that by (simp add: p_def)
  show "p \<le> x \<and> x + msg_step (mqueues k a) \<le> p + n" if "x \<in> set q \<union> set f"
    using slot_bound[OF s[OF that]] by (simp add: n_def)
  show "msg_queue_free (mqueues k a) = hd f" if "f \<noteq> []" using mq_repD(2)[OF r] that by (cases f) auto
  show "msg_queue_head (mqueues k a) = hd q" if "q \<noteq> []" using mq_repD(1)[OF r] that by (cases q) auto
  show "msg_queue_tail (mqueues k a) \<in> set q" if "msg_queue_tail (mqueues k a) \<noteq> 0"
    using mq_repD(3)[OF r] that by (auto split: if_splits)
qed

lemma mq_put_live:
  assumes l: "live k" and ok: "mq_ok a q (x # f) k" and out: "outside_pool a b sz k"
    and sz: "sz \<le> unat (mq_msg_size (mqueues k a))"
  shows "live (mq_append a x b sz k)" "live (mq_prepend a x b sz k)"
proof -
  note d = mq_okD[OF ok]
  let ?p = "mq_pool (mqueues k a)" and ?n = "unat (max_msgs (mqueues k a)) * msg_step (mqueues k a)"
  let ?t = "msg_queue_tail (mqueues k a)"
  have st: "sz + 4 \<le> msg_step (mqueues k a)" using sz by (simp add: msg_step_def)
  have x: "?p \<le> x" "x + msg_step (mqueues k a) \<le> ?p + ?n" using d(3)[of x] by simp_all
  have cp: "rt_memcpy (x + 4) b sz m = byte_copy (x + 4) b sz m" for m
    by (rule memcpy_slot[OF out _ st]) (use d(4)[of x] in simp)
  have w1: "confined ?p ?n m (byte_copy (x + 4) b sz m)" for m by (rule confined_sub[OF confined_copy[OF st] x])
  have w2: "confined ?p ?n m (store32 x v m)" for m v
    by (rule confined_sub[of x 4, OF confined_store32]) (use x st in linarith)+
  have t: "confined ?p ?n m (store32 ?t v m)" if "?t \<noteq> 0" for m v
    by (rule confined_sub[of ?t 4, OF confined_store32]) (use d(3)[of ?t] d(7)[OF that] st in auto)
  show "live (mq_append a x b sz k)"
    by (rule live_confined[OF l mq_same_but_ram(1) d(2)])
      (use confined_trans[OF confined_trans[OF w2 w1] t] confined_trans[OF w2 w1] in \<open>simp add: mq_append_eq cp Let_def\<close>)
  show "live (mq_prepend a x b sz k)"
    by (rule live_confined[OF l mq_same_but_ram(2) d(2)]) (use confined_trans[OF w1 w2] in \<open>simp add: mq_prepend_eq cp\<close>)
qed

lemma sys_ok_put:
  assumes c: "calls idle t k" and s: "same_but_ram k k1" and w: "wf_kernel 1 k1" and l: "live k1"
  shows "\<exists>k'. resume_one_and_schedule (Susp a) k1 = Some k' \<and> sys_ok idle k' \<and> call_frame A t k k'"
proof -
  obtain k' where k': "resume_one_and_schedule (Susp a) k1 = Some k'" "live k'"
    using resume_one_and_schedule_live[OF w l wait_queue_Susp(1)] by blast
  note o = resume_one_and_schedule_ok[OF w wait_queue_Susp(1) k'(1)]
  have fr: "call_frame A t k k'"
    by (rule call_frame_trans[OF call_frame_same[OF s] call_frame_resume_one[OF w wait_queue_Susp(1) k'(1)]])
  have "run_ready k1" using s callsD(3)[OF c] by (simp add: same_but_ram_def run_ready_def tstat_def)
  then have "run_ready k'" by (rule o(5))
  then show ?thesis using k' fr sys_ok_frame[OF c fr o(1) k'(2)] by blast
qed

lemma rt_mq_send_sys:
  assumes c: "calls idle t k" and a: "a \<noteq> 0" "b \<noteq> 0" "sz \<noteq> 0" and ok: "mq_ok a q f k" and out: "outside_pool a b sz k"
  shows "\<exists>e k'. rt_mq_send a b sz k = Some (e, k') \<and> sys_ok idle k' \<and> call_frame A t k k'"
    "\<exists>e k'. rt_mq_urgent a b sz k = Some (e, k') \<and> sys_ok idle k' \<and> call_frame A t k k'"
proof -
  note d = callsD[OF c] and m = mq_okD[OF ok]
  have s: "sys_ok idle k" using c by (simp add: calls_def)
  show "\<exists>e k'. rt_mq_send a b sz k = Some (e, k') \<and> sys_ok idle k' \<and> call_frame A t k k'"
    "\<exists>e k'. rt_mq_urgent a b sz k = Some (e, k') \<and> sys_ok idle k' \<and> call_frame A t k k'"
  proof (atomize(full), cases "unat (mq_msg_size (mqueues k a)) < sz \<or> f = []")
    case True
    then show "(\<exists>e k'. rt_mq_send a b sz k = Some (e, k') \<and> sys_ok idle k' \<and> call_frame A t k k') \<and>
      (\<exists>e k'. rt_mq_urgent a b sz k = Some (e, k') \<and> sys_ok idle k' \<and> call_frame A t k k')"
      using a s mq_repD(2)[OF m(1)] by (auto simp: rt_mq_send_def rt_mq_urgent_def)
  next
    case False
    then obtain x f' where f: "f = x # f'" and sz: "sz \<le> unat (mq_msg_size (mqueues k a))" by (cases f) auto
    have h: "msg_queue_free (mqueues k a) = x" "x \<noteq> 0" using mq_repD(2)[OF m(1)] f by simp_all
    note l = mq_put_live[OF d(2) ok[unfolded f] out sz]
    have w: "wf_kernel 1 (mq_append a x b sz k)" "wf_kernel 1 (mq_prepend a x b sz k)" using d(1) by simp_all
    show "(\<exists>e k'. rt_mq_send a b sz k = Some (e, k') \<and> sys_ok idle k' \<and> call_frame A t k k') \<and>
      (\<exists>e k'. rt_mq_urgent a b sz k = Some (e, k') \<and> sys_ok idle k' \<and> call_frame A t k k')"
      using sys_ok_put[OF c mq_same_but_ram(1) w(1) l(1), of a A] sys_ok_put[OF c mq_same_but_ram(2) w(2) l(2), of a A]
        a sz h by (auto simp: rt_mq_send_def rt_mq_urgent_def)
  qed
qed

lemma rt_mq_send_wakes:
  assumes w: "wf_kernel lo k" and rep: "mq_rep a q (x # f) k" and sz: "sz \<le> unat (mq_msg_size (mqueues k a))"
    and r: "rt_mq_send a b sz k = Some (e, k') \<or> rt_mq_urgent a b sz k = Some (e, k')"
  shows "lists k' (Susp a) = tl (lists k (Susp a))"
    "lists k (Susp a) = u # us \<Longrightarrow> tstat k' u = RT_THREAD_READY \<and> error (thread k' u) = error (thread k u)"
proof -
  have x: "msg_queue_free (mqueues k a) = x" "x \<noteq> 0" using mq_repD(2)[OF rep] by simp_all
  obtain k1 where k1: "resume_one_and_schedule (Susp a) k1 = Some k'" "wf_kernel lo k1" "lists k1 = lists k"
    "thread k1 = thread k"
    using r sz x w by (auto simp: rt_mq_send_def rt_mq_urgent_def bind_eq_Some_conv
        intro: that[of "mq_append a x b sz k"] that[of "mq_prepend a x b sz k"])
  show "lists k' (Susp a) = tl (lists k (Susp a))"
    using resume_one_and_schedule_ok(3)[OF k1(2) wait_queue_Susp(1) k1(1)] k1(3) by simp
  show "tstat k' u = RT_THREAD_READY \<and> error (thread k' u) = error (thread k u)" if "lists k (Susp a) = u # us"
    using resume_one_ready[OF k1(2) wait_queue_Susp(1) k1(1), of u us] that k1(3,4) by simp
qed

lemma mq_take_live:
  assumes l: "live k" and ok: "mq_ok a (x # q) f k" and out: "outside_pool a b sz k" and s: "stacks_apart b sz k"
  shows "\<exists>k'. mq_take a b sz k = Some k' \<and> live k'"
proof -
  note d = mq_okD[OF ok]
  let ?n = "min sz (unat (mq_msg_size (mqueues k a)))"
  have st: "?n + 4 \<le> msg_step (mqueues k a)" "?n \<le> sz" by (simp_all add: msg_step_def)
  have x: "mq_pool (mqueues k a) \<le> x" "x + 4 \<le> mq_pool (mqueues k a) +
      unat (max_msgs (mqueues k a)) * msg_step (mqueues k a)"
    using d(3)[of x] st by auto
  have cp: "rt_memcpy b (x + 4) ?n m = byte_copy b (x + 4) ?n m" for m
    by (rule memcpy_out[OF out _ st(2,1)]) (use d(4)[of x] in simp)
  let ?k1 = "upd_ram (rt_memcpy b (x + 4) ?n) k"
  have l1: "live ?k1"
    by (rule live_ram[OF l s]) (use st(2) in \<open>auto simp: cp apart_def byte_copy_def\<close>)
  have l2: "live (upd_ram (store32 x v) ?k1)" for v
    by (rule live_ram[OF l1, of "mq_pool (mqueues k a)"]) (use d(2) x in \<open>auto simp: stacks_apart_def apart_def store32_def\<close>)
  have h: "msg_queue_head (mqueues k a) = x" "x \<noteq> 0" using mq_repD(1)[OF d(1)] by simp_all
  have mt: "mq_take a b sz k = Some (mq_give_back a x (upd_ram (rt_memcpy b (x + 4) ?n)
    (upd_mq a (\<lambda>m. m\<lparr>mq_entry := mq_entry m - 1\<rparr>) (mq_unlink a k))))"
    using h by (simp add: mq_take_def Let_def mq_unlink_def)
  obtain k' where k': "mq_take a b sz k = Some k'" using mt by blast
  have "live k'"
  proof (rule live_confined[OF l2 [of "of_nat (msg_queue_free (mqueues k a))"]])
    show "same_but_ram (upd_ram (store32 x (of_nat (msg_queue_free (mqueues k a)))) ?k1) k'"
      using mq_same_but_ram(3)[OF k'] by (simp add: same_but_ram_def) (simp add: upd_ram_def)
    show "stacks_apart 0 0 (upd_ram (store32 x (of_nat (msg_queue_free (mqueues k a)))) ?k1)"
      by (simp add: stacks_apart_def apart_def)
    show "confined 0 0 (kram (upd_ram (store32 x (of_nat (msg_queue_free (mqueues k a)))) ?k1)) (kram k')"
      using k' mt by (auto simp: confined_def mq_give_back_def set_msg_next_def mq_unlink_def Let_def)
  qed
  then show ?thesis using k' by blast
qed

lemma rt_mq_recv_sys:
  assumes c: "calls idle t k" and a: "a \<noteq> 0" "b \<noteq> 0" "sz \<noteq> 0" and f: "ipc_flag_ok a k"
    and time: "timeout < 0x7FFFFFFF" and ok: "mq_ok a q f k" and out: "outside_pool a b sz k" and s: "stacks_apart b sz k"
  shows "\<exists>res k'. rt_mq_recv a b sz timeout k = Some (res, k') \<and> sys_ok idle k' \<and> call_frame {a} t k k'"
proof -
  note d = callsD[OF c] and m = mq_okD[OF ok]
  have so: "sys_ok idle k" using c by (simp add: calls_def)
  show ?thesis
  proof (cases q)
    case Nil
    then have e: "mq_entry (mqueues k a) = 0" using mq_entry_zero[OF m(1)] by simp
    obtain k' where b: "block_current (Susp a) (ipc_flag a k) timeout t (upd_thread t (\<lambda>th. th\<lparr>error := RT_EOK\<rparr>) k) = Some k'"
      "live k'" using mb_block_live(1)[OF d(1,9,2,3,4,5,6) time] by blast
    note o = block_self_ok[OF d(1,9,3,4) wait_queue_Susp(1) f b(1)]
    have fr: "call_frame {a} t k k'" by (rule block_self_frame[OF c _ b(1)]) simp
    have "sys_ok idle k'" by (rule sys_ok_frame[OF c fr o(1) b(2) o(7)[OF d(8)]])
    then show ?thesis using e a so b fr d(4,7)
      by (auto simp: rt_mq_recv_def mq_recv_loop_def rt_thread_self_def Let_def)
  next
    case (Cons x q')
    then have e: "mq_entry (mqueues k a) \<noteq> 0" using mq_entry_zero[OF m(1)] by simp
    obtain k' where k': "mq_take a b sz k = Some k'" "live k'"
      using mq_take_live[OF d(2) ok[unfolded Cons] out s] by blast
    have fr: "call_frame {a} t k k'" by (rule call_frame_same[OF mq_same_but_ram(3)[OF k'(1)]])
    have "run_ready k'" using d(3) mq_take_frame(1,3)[OF k'(1)] by (simp add: run_ready_def tstat_def)
    then have "sys_ok idle k'" by (rule sys_ok_frame[OF c fr mq_take_frame(5)[OF k'(1) d(1)] k'(2)])
    then show ?thesis using e a fr k' by (simp add: rt_mq_recv_def mq_recv_loop_def)
  qed
qed

section \<open>Memory pools\<close>

definition mp_ok :: "nat \<Rightarrow> nat list \<Rightarrow> kernel \<Rightarrow> bool" where
  "mp_ok a f k \<longleftrightarrow> mp_rep a f k \<and> mp_waiters_ok a k \<and>
     stacks_apart (start_address (mempools k a)) (block_total_count (mempools k a) * (block_size (mempools k a) + 4)) k"

lemma mp_okD:
  assumes "mp_ok a f k"
  defines "p \<equiv> start_address (mempools k a)" and "n \<equiv> block_total_count (mempools k a) * (block_size (mempools k a) + 4)"
  shows "mp_rep a f k" "mp_waiters_ok a k" "stacks_apart p n k"
    "x \<in> set f \<or> x + 4 \<in> mp_used a f k \<Longrightarrow> p \<le> x \<and> x + 4 \<le> p + n"
proof -
  show r: "mp_rep a f k" and "mp_waiters_ok a k" "stacks_apart p n k" using assms by (simp_all add: mp_ok_def)
  show "p \<le> x \<and> x + 4 \<le> p + n" if "x \<in> set f \<or> x + 4 \<in> mp_used a f k"
  proof -
    have "slot p (block_size (mempools k a) + 4) (block_total_count (mempools k a)) x"
      using that r by (auto simp: mp_rep_def mp_used_def Let_def p_def)
    then show ?thesis using slot_bound by (fastforce simp: n_def)
  qed
qed

lemma stacks_apart_sub: "stacks_apart p n k \<Longrightarrow> p \<le> x \<Longrightarrow> x + c \<le> p + n \<Longrightarrow> stacks_apart x c k"
  unfolding stacks_apart_def apart_def by (meson le_trans)

lemma mp_wait_live:
  assumes w: "wf_kernel lo k" and lo: "lo \<le> 1" and l: "live k" and r: "tstat k t = RT_THREAD_READY"
    and u: "u \<noteq> t" "tstat k u = RT_THREAD_READY" and time: "time < 0x7FFFFFFF"
  shows "\<exists>e k1 k2 k3 k'. rt_thread_suspend t k = Some (e, k1) \<and> tl_insert_after (Susp a) t k1 = Some k2 \<and>
    start_wait_timer t time (upd_mp a (\<lambda>m. m\<lparr>suspend_thread_count := c m\<rparr>) k2) = Some k3 \<and>
    rt_schedule k3 = Some k' \<and> live k'"
proof -
  let ?k1 = "thread_suspended t k"
  let ?k2 = "tl_set (Susp a) (t # lists ?k1 (Susp a)) t ?k1"
  let ?k3 = "upd_mp a (\<lambda>m. m\<lparr>suspend_thread_count := c m\<rparr>) ?k2"
  have s: "rt_thread_suspend t k = Some (RT_EOK, ?k1)"
    using rt_thread_suspend_eq[OF wf_kernelD(1)[OF w], of t] r by simp
  have w1: "wf_kernel lo ?k1" by (rule wf_kernel_suspended[OF w r])
  have n1: "tlist (thread ?k1 t) = None" by (simp add: thread_suspended_thread)
  have i: "tl_insert_after (Susp a) t ?k1 = Some ?k2" using n1 by (simp add: tl_insert_after_def)
  have q: "t \<notin> set (lists ?k1 (Susp a))" "distinct (lists ?k1 (Susp a))"
    using wf_queuesD[of ?k1] wf_kernelD(1)[OF w1] n1 by (auto dest!: wf_schedD(1))
  have "wf_kernel lo ?k2"
    by (rule wf_kernel_enqueue[OF w1 tstat_suspended n1]) (use q in simp_all)
  then have w3: "wf_kernel lo ?k3" by simp
  have l3: "live ?k3" using live_tl_set[OF live_suspended[OF l r]] by simp
  have s3: "tstat ?k3 t = RT_THREAD_SUSPEND" using tstat_suspended[of t k] by (simp add: tstat_def tl_set_eq)
  obtain k3 where k3: "start_wait_timer t time ?k3 = Some k3" using start_wait_timer_returns[OF time] by blast
  note m = start_wait_timer_ok[OF w3 lo s3 k3]
  have l4: "live k3" by (rule start_wait_timer_live[OF w3 l3 k3])
  have "tstat k3 u = RT_THREAD_READY"
    using m(3) u by (simp add: tstat_def tl_set_eq thread_suspended_thread)
  then obtain k' where "rt_schedule k3 = Some k'" "live k'" using rt_schedule_live[OF wf_kernelD(1)[OF m(1)] l4] by blast
  then show ?thesis using s i k3 by blast
qed

lemma call_frame_mp_wait:
  assumes w: "wf_kernel lo k" and lo: "lo \<le> 1" and r: "tstat k t = RT_THREAD_READY"
    and s: "rt_thread_suspend t k = Some (e, k1)" and i: "tl_insert_after (Susp a) t k1 = Some k2"
    and st: "start_wait_timer t time (upd_mp a (\<lambda>m. m\<lparr>suspend_thread_count := c m\<rparr>) k2) = Some k3"
    and sc: "rt_schedule k3 = Some k'"
  shows "call_frame {a} t k k'"
proof -
  let ?k2 = "upd_mp a (\<lambda>m. m\<lparr>suspend_thread_count := c m\<rparr>) k2"
  have k1: "k1 = thread_suspended t k" using rt_thread_suspend_eq[OF wf_kernelD(1)[OF w], of t] r s by simp
  have "call_frame {a} t k k1"
    unfolding k1 call_frame_def using nests_frame[OF ipc_frame_suspended[of k t]] touches_suspended[of "{a}" k t]
      keeps_asleep_suspended[of t k] ipc_frameD(9)[OF ipc_frame_suspended[of k t]]
    by (auto intro!: keeps_ready_tstat simp: tstat_def thread_suspended_thread)
  moreover have "call_frame {a} t k1 k2"
  proof -
    have "k2 = tl_set (Susp a) (t # lists k1 (Susp a)) t k1" using i by (auto simp: tl_insert_after_def)
    then show ?thesis
      unfolding call_frame_def touches_def using keeps_asleep_tl_set
      by (auto intro!: keeps_ready_tstat simp: tl_set_eq same_objs_def same_events_def ipc_flag_def user_timers_def tstat_def)
  qed
  moreover have "call_frame {a} t ?k2 k3"
  proof -
    let ?g = "\<lambda>t. t\<lparr>tm_init_tick := word_of_int time\<rparr>"
    have k3: "k3 = ?k2 \<or> k3 = timer_started (TimerOf t) (upd_timer (TimerOf t) ?g ?k2)"
      using st by (auto simp: start_wait_timer_def rt_timer_start_eq bind_eq_Some_conv rt_timer_control_def split: if_splits)
    then have "touches {a} ?k2 k3" using touches_trans[OF touches_timer(1,2)] by auto
    moreover have "thread k3 = thread ?k2 \<and> interrupt_nest k3 = interrupt_nest ?k2 \<and> lock_nest k3 = lock_nest ?k2 \<and>
      tick k3 = tick ?k2"
      using k3 by (auto simp: upd_timer_def timer_started_def Let_def)
    ultimately show ?thesis using keeps_asleep_wait_timer[OF st] by (auto simp: call_frame_def tstat_def intro!: keeps_ready_tstat)
  qed
  ultimately show ?thesis
    using call_frame_trans[OF _ call_frame_schedule[OF sc]] call_frame_trans call_frame_pools(2) by meson
qed

lemma mp_take_live:
  assumes l: "live k" and ok: "mp_ok a (x # f) k"
  shows "\<exists>k'. mp_take a k = Some (x + 4, k') \<and> live k' \<and> call_frame A t k k' \<and> run_ready k' = run_ready k \<and>
    (wf_kernel lo k \<longrightarrow> wf_kernel lo k')"
proof -
  note d = mp_okD[OF ok]
  have h: "block_list (mempools k a) = x" "x \<noteq> 0" using mp_repD(1)[OF d(1)] by simp_all
  let ?k1 = "upd_mp a (\<lambda>m. m\<lparr>block_list := unat (load32 x (kram k))\<rparr>)
    (upd_mp a (\<lambda>m. m\<lparr>block_free_count := sub32 (block_free_count m) 1\<rparr>) k)"
  let ?k2 = "upd_ram (store32 x (of_nat a)) ?k1"
  have r: "mp_take a k = Some (x + 4, ?k2)" using h by (simp add: mp_take_def Let_def)
  have "live ?k2"
    by (rule live_ram[of _ "start_address (mempools k a)" "block_total_count (mempools k a) * (block_size (mempools k a) + 4)"])
      (use l d(3) d(4)[of x] in \<open>auto simp: apart_def store32_def\<close>)
  moreover have "call_frame A t k ?k2"
    using call_frame_trans[OF call_frame_trans[OF call_frame_pools(2) call_frame_pools(2)] call_frame_objects(5)] by blast
  moreover have "run_ready ?k2 = run_ready k" by (simp add: run_ready_def tstat_def)
  ultimately show ?thesis using r by (intro exI[of _ ?k2]) (simp add: wf_kernel_ram)
qed

lemma mp_alloc_loop_sys:
  assumes c: "calls idle t k" and time: "time < 0x7FFFFFFF" and ok: "mp_ok a f k"
  shows "\<exists>res k'. mp_alloc_loop a time k = Some (res, k') \<and> sys_ok idle k' \<and> call_frame {a} t k k'"
proof -
  note d = callsD[OF c] and m = mp_okD[OF ok]
  have so: "sys_ok idle k" using c by (simp add: calls_def)
  show ?thesis
  proof (cases f)
    case (Cons x f')
    obtain k' where k': "mp_take a k = Some (x + 4, k')" "live k'" "call_frame {a} t k k'" "run_ready k'" "wf_kernel 1 k'"
      using mp_take_live[OF d(2) ok[unfolded Cons], of "{a}" t 1] d(1,3) by blast
    have "block_free_count (mempools k a) \<noteq> 0" using mp_repD(2)[OF m(1)] Cons by simp
    then show ?thesis using k' sys_ok_frame[OF c k'(3,5,2,4)] by (simp add: mp_alloc_loop_def)
  next
    case Nil
    then have z: "block_free_count (mempools k a) = 0" using mp_repD(2)[OF m(1)] by simp
    show ?thesis
    proof (cases "time = 0")
      case True
      have e: "rt_set_errno (- RT_ETIMEOUT) k = upd_thread t (\<lambda>th. th\<lparr>error := - RT_ETIMEOUT\<rparr>) k"
        using d(4,7) by (simp add: rt_set_errno_def rt_interrupt_get_nest_def rt_thread_self_def)
      have fr: "call_frame {a} t k (rt_set_errno (- RT_ETIMEOUT) k)" by (simp add: e)
      have "sys_ok idle (rt_set_errno (- RT_ETIMEOUT) k)"
        by (rule sys_ok_frame[OF c fr]) (use d(1-3) wf_kernel_set_error[OF d(1)] in \<open>simp_all add: e run_ready_def tstat_def\<close>)
      then show ?thesis using z True fr by (simp add: mp_alloc_loop_def)
    next
      case False
      let ?k = "upd_thread t (\<lambda>th. th\<lparr>error := RT_EOK\<rparr>) k"
      have w1: "wf_kernel 1 ?k" by (rule wf_kernel_set_error[OF d(1)])
      have rd: "tstat ?k t = RT_THREAD_READY" "tstat ?k idle = RT_THREAD_READY"
        using d(3,4,6) by (simp_all add: run_ready_def tstat_def)
      obtain e k1 k2 k3 k' where k: "rt_thread_suspend t ?k = Some (e, k1)" "tl_insert_after (Susp a) t k1 = Some k2"
        "start_wait_timer t time (upd_mp a (\<lambda>m. m\<lparr>suspend_thread_count := add32 (suspend_thread_count m) 1\<rparr>) k2) = Some k3"
        "rt_schedule k3 = Some k'" "live k'"
        using mp_wait_live[OF w1 d(9) live_set_error[OF d(2)] rd(1) d(5) rd(2) time, of a
            "\<lambda>m. add32 (suspend_thread_count m) 1"] by blast
      note o = mp_wait_ok[OF w1 d(9) rd(1) k(1-4)]
      have fr: "call_frame {a} t k k'"
        by (rule call_frame_trans[OF call_frame_error call_frame_mp_wait[OF w1 d(9) rd(1) k(1-4)]])
      have "run_ready k'" using o(4) d(8) by simp
      then have "sys_ok idle k'" by (rule sys_ok_frame[OF c fr o(1) k(5)])
      then show ?thesis using z False k d(4,7) fr
        by (auto simp: mp_alloc_loop_def RT_DEBUG_NOT_IN_INTERRUPT_def rt_interrupt_get_nest_def rt_thread_self_def Let_def)
    qed
  qed
qed

lemma rt_mp_free_frame:
  assumes w: "wf_kernel lo k" and rep: "mp_rep a f k" and b: "x + 4 \<in> mp_used a f k" and r: "rt_mp_free (x + 4) k = Some k'"
  shows "call_frame A t k k'"
proof -
  let ?k1 = "mp_give_back a x k"
  have f1: "call_frame A t k ?k1"
    unfolding mp_give_back_def Let_def
    by (rule call_frame_trans[OF call_frame_trans[OF call_frame_pools(2) call_frame_objects(5)] call_frame_pools(2)])
  show ?thesis
  proof (cases "suspend_thread_count (mempools k a) = 0")
    case True
    then show ?thesis using r mp_free_eq[OF rep b w] f1 by simp
  next
    case False
    then obtain u where u: "rt_schedule (upd_mp a (\<lambda>m. m\<lparr>suspend_thread_count := sub32 (suspend_thread_count m) 1\<rparr>)
        (thread_resumed u (upd_thread u (\<lambda>th. th\<lparr>error := RT_EOK\<rparr>) ?k1))) = Some k'" and q: "u \<in> set (lists k (Susp a))"
      using r mp_free_eq[OF rep b w] by (auto split: list.splits)
    have w1: "wf_kernel lo (upd_thread u (\<lambda>th. th\<lparr>error := RT_EOK\<rparr>) ?k1)"
      by (rule wf_kernel_set_error) (use w in simp)
    have tl: "tlist (thread (upd_thread u (\<lambda>th. th\<lparr>error := RT_EOK\<rparr>) ?k1) u) \<noteq> None"
      using queued_tlist[OF w wait_queue_Susp(1) q] by simp
    show ?thesis
      by (rule call_frame_trans[OF f1 call_frame_trans[OF call_frame_error call_frame_trans[OF call_frame_resumed[OF w1 tl]
        call_frame_trans[OF call_frame_pools(2) call_frame_schedule[OF u]]]]])
  qed
qed

lemma rt_mp_free_sys:
  assumes c: "calls idle t k" and ok: "mp_ok a f k" and b: "x + 4 \<in> mp_used a f k"
  shows "\<exists>k'. rt_mp_free (x + 4) k = Some k' \<and> sys_ok idle k' \<and> call_frame {} t k k'"
proof -
  note d = callsD[OF c] and m = mp_okD[OF ok]
  have "stacks_apart x 4 k" by (rule stacks_apart_sub[OF m(3)]) (use m(4)[of x] b in simp_all)
  then obtain k' where k': "rt_mp_free (x + 4) k = Some k'" "live k'"
    using rt_mp_free_live[OF d(1,2) m(1,2) b] by blast
  note o = rt_mp_free_ok[OF d(1) m(1,2) b k'(1)]
  have fr: "call_frame {} t k k'" by (rule rt_mp_free_frame[OF d(1) m(1) b k'(1)])
  show ?thesis using k' fr sys_ok_frame[OF c fr o(1) k'(2) o(2)[OF d(3)]] by blast
qed

end
