(* ===== verification/Sample.thy ===== *)
theory Sample
  imports IpcCore
begin

text \<open>
  A concrete kernel state on which the theorems are applied: the idle thread at address 1 with
  priority 31, two threads at addresses 2 and 3 with priority 10, all ready, thread 2 running, an
  empty heap and no timer running. \<open>empty_nodes\<close> are list nodes that are all linked to themselves.
\<close>

definition blank_thread :: rt_thread where
  "blank_thread = \<lparr>tlist = None, sp = 0, entry = 0, parameter = 0, stack_addr = 0, stack_size = 0,
     error = 0, stat = RT_THREAD_INIT, current_priority = 0, init_priority = 0, number_mask = 0,
     event_set = 0, event_info = 0, init_tick = 0, remaining_tick = 0, cleanup = 0, user_data = 0\<rparr>"

definition ready_thread :: "u8 \<Rightarrow> u32 \<Rightarrow> rt_thread" where
  "ready_thread p st = blank_thread\<lparr>tlist := Some (Ready (unat p)), stat := RT_THREAD_READY,
     current_priority := p, init_priority := p, number_mask := prio_mask (unat p),
     stack_addr := st, stack_size := 256, sp := st + 128, init_tick := 5, remaining_tick := 5\<rparr>"

definition blank_timer :: "obj_id \<Rightarrow> rt_timer" where
  "blank_timer i = \<lparr>timeout_func = (case i of TimerOf _ \<Rightarrow> Thread_timeout | Obj _ \<Rightarrow> User_timeout 0),
     tm_parameter = (case i of TimerOf t \<Rightarrow> t | Obj _ \<Rightarrow> 0), tm_init_tick = 0, timeout_tick = 0\<rparr>"

definition empty_heap :: heap where
  "empty_heap = \<lparr>heap_ptr = 0, heap_end = 0, lfree = 0, mem_size_aligned = 0, used_mem = 0,
     max_mem = 0, blk = (\<lambda>_. \<lparr>magic = 0, used = 0, hnext = 0, hprev = 0\<rparr>), ram = (\<lambda>_. 0x23)\<rparr>"

definition sample :: kernel where
  "sample = \<lparr>
     thread = (\<lambda>_. blank_thread)(1 := ready_thread 31 0x1000, 2 := ready_thread 10 0x2000,
                                 3 := ready_thread 10 0x3000),
     lists = (\<lambda>_. [])(Ready 31 := [1], Ready 10 := [2, 3]),
     ready_group = prio_mask 31 OR prio_mask 10,
     current = Some 2, sched_priority = 10, lock_nest = 0, interrupt_nest = 0, tick = 0,
     timers = blank_timer, timer_list = [], random_nr = 0,
     objects = (\<lambda>_. \<lparr>obj_name = replicate 8 0, obj_type = 0, obj_flag = 0\<rparr>),
     containers = (\<lambda>_. []),
     sems = (\<lambda>_. \<lparr>sem_value = 0\<rparr>),
     mutexes = (\<lambda>_. \<lparr>mutex_value = 1, original_priority = 0xFF, hold = 0, owner = None\<rparr>),
     events = (\<lambda>_. \<lparr>ev_set = 0\<rparr>),
     mailboxes = (\<lambda>_. \<lparr>mb_pool = 0x4000, mb_size = 4, mb_entry = 0, in_offset = 0, out_offset = 0\<rparr>),
     mqueues = (\<lambda>_. \<lparr>mq_pool = 0, mq_msg_size = 0, max_msgs = 0, mq_entry = 0, msg_queue_head = 0,
                     msg_queue_tail = 0, msg_queue_free = 0\<rparr>),
     mempools = (\<lambda>_. \<lparr>start_address = 0, mp_size = 0, block_size = 0, block_list = 0,
                      block_total_count = 0, block_free_count = 0, suspend_thread_count = 0\<rparr>),
     kheap = empty_heap, rt_errno = 0\<rparr>"

definition empty_nodes :: "list_head list_addr rt_list_heap" where
  "empty_nodes = \<lparr>nxt = (\<lambda>x. x), prv = (\<lambda>x. x)\<rparr>"

lemmas sample_simps = sample_def blank_thread_def ready_thread_def blank_timer_def empty_heap_def

lemma thread_ok_blank: "thread_ok blank_thread"
  by (simp add: thread_ok_def blank_thread_def)

lemma thread_ok_ready: "unat p < 32 \<Longrightarrow> thread_ok (ready_thread p st)"
  by (auto simp: thread_ok_def ready_thread_def blank_thread_def Let_def)

lemma sample_wf_sched: "wf_sched sample"
proof -
  have "wf_queues sample"
    by (auto simp: wf_queues_def sample_simps split: if_splits)
  moreover have "wf_group sample"
    by (auto simp: wf_group_def sample_simps bit_or_iff bit_prio_mask)
  moreover have "thread_ok (thread sample t)" for t
    using thread_ok_blank thread_ok_ready[of 31] thread_ok_ready[of 10] by (simp add: sample_def)
  ultimately show ?thesis by (simp add: wf_sched_def)
qed

lemma sample_wf: "wf_kernel lo sample"
proof (rule wf_kernelI[OF sample_wf_sched])
  show "wf_timers lo sample"
    by (simp add: wf_timers_def timers_at_def timers_linked_def timer_fns_def timer_flag_def
        sample_def blank_timer_def)
  show "wf_objects sample" by (simp add: wf_objects_def sample_def)
  show "null_ok sample" by (simp add: null_ok_def sample_simps tstat_def)
qed

lemma sample_tstat: "tstat sample t = (if t \<in> {1, 2, 3} then RT_THREAD_READY else RT_THREAD_INIT)"
  by (simp add: tstat_def sample_simps)

lemma sample_live: "live sample"
proof -
  have "stack_ok sample t" if "t \<in> {1, 2, 3}" for t
    using that by (auto simp: stack_ok_def kram_def sample_simps)
  then have "stacks_ok sample" by (auto simp: stacks_ok_def sample_tstat)
  moreover have "periods_ok sample" by (simp add: periods_ok_def timer_flag_def sample_def)
  ultimately show ?thesis by (simp add: live_def sample_def)
qed

lemma sample_stack_ok: "must_run sample t \<Longrightarrow> stack_ok sample t"
  using sample_live by (auto simp: live_def stacks_ok_def must_run_def)

end
