(* ===== verification/System.thy ===== *)
theory System
  imports PoolCalls Sample
begin

text \<open>
  The kernel as a whole: the clock tick, the calls a thread makes, the continuations of the calls
  a thread was switched away in, and what holds in every state that they reach.
\<close>

section \<open>The clock tick\<close>

text \<open>\<^verbatim>\<open>SysTick_Handler\<close> of the board.\<close>

definition SysTick_Handler :: "callback \<Rightarrow> kernel \<Rightarrow> kernel option" where
  "SysTick_Handler cb k = do {
     k \<leftarrow> rt_tick_increase cb (rt_interrupt_enter k);
     Some (rt_interrupt_leave k)
   }"

text \<open>What the tick keeps besides well-formedness, for any property \<open>P\<close> of a state and its successor.\<close>

lemma call_timeout_cases:
  assumes w: "wf_kernel lo k" and r: "call_timeout cb i k = Some k'"
  obtains (thread) t where "i = TimerOf t" "rt_thread_timeout t k = Some k'"
    | (user) f where "timeout_func (timers k i) = User_timeout f" "cb f (tm_parameter (timers k i)) k = Some k'"
proof (cases "timeout_func (timers k i)")
  case Thread_timeout
  have f: "timer_fns k" using wf_kernelD(2)[OF w] by (simp add: wf_timers_def)
  then obtain t where i: "i = TimerOf t" using Thread_timeout by (cases i) (auto simp: timer_fns_def)
  then have "tm_parameter (timers k i) = t" using f by (simp add: timer_fns_def)
  then show ?thesis using r Thread_timeout i that(1) by (simp add: call_timeout_def)
next
  case (User_timeout f)
  then show ?thesis using r that(2) by (simp add: call_timeout_def)
qed

text \<open>The objects of the application, by the addresses of their control blocks, and the threads that
  it resumes with \<^verbatim>\<open>rt_thread_resume\<close>.\<close>

record registry =
  reg_sems :: "nat set"
  reg_mutexes :: "nat set"
  reg_events :: "nat set"
  reg_mbs :: "nat set"
  reg_timers :: "nat set"
  reg_resumed :: "nat set"

definition reg_all :: "registry \<Rightarrow> nat set" where
  "reg_all R = reg_sems R \<union> reg_mutexes R \<union> reg_events R \<union> reg_mbs R"

definition reg_ok :: "registry \<Rightarrow> bool" where
  "reg_ok R \<longleftrightarrow> 0 \<notin> reg_all R \<and> reg_sems R \<inter> reg_mutexes R = {} \<and> reg_sems R \<inter> reg_events R = {} \<and>
     reg_sems R \<inter> reg_mbs R = {} \<and> reg_mutexes R \<inter> reg_events R = {} \<and> reg_mutexes R \<inter> reg_mbs R = {} \<and>
     reg_events R \<inter> reg_mbs R = {} \<and> reg_timers R \<inter> reg_all R = {}"

definition obj_ok :: "registry \<Rightarrow> nat \<Rightarrow> kernel \<Rightarrow> bool" where
  "obj_ok R a k \<longleftrightarrow> ipc_flag_ok a k \<and> (a \<in> reg_sems R \<longrightarrow> sem_inv a k) \<and> (a \<in> reg_mutexes R \<longrightarrow> mutex_inv a k) \<and>
     (a \<in> reg_events R \<longrightarrow> event_inv a k) \<and> (a \<in> reg_mbs R \<longrightarrow> mb_ok a k)"

definition objs_ok :: "registry \<Rightarrow> kernel \<Rightarrow> bool" where
  "objs_ok R k \<longleftrightarrow> (\<forall>a\<in>reg_all R. obj_ok R a k) \<and> user_timers k \<subseteq> reg_timers R"

definition sys_inv :: "registry \<Rightarrow> nat \<Rightarrow> kernel \<Rightarrow> bool" where
  "sys_inv R idle k \<longleftrightarrow> sys_ok idle k \<and> objs_ok R k"

lemma obj_ok_touches:
  assumes t: "touches A k k'" and a: "a \<notin> A" and o: "obj_ok R a k"
  shows "obj_ok R a k'"
proof -
  have s: "same_objs a k k'" "set (lists k' (Susp a)) \<subseteq> set (lists k (Susp a))"
    "\<And>u. u \<in> set (lists k' (Susp a)) \<Longrightarrow> same_events u k k'" "ipc_flag a k' = ipc_flag a k"
    using t a by (auto simp: touches_def)
  have e: "lists k (Susp a) = [] \<Longrightarrow> lists k' (Susp a) = []" using s(2) by auto
  have "sem_inv a k \<Longrightarrow> sem_inv a k'" using s(1) e by (auto simp: sem_inv_def same_objs_def)
  moreover have "mutex_inv a k \<Longrightarrow> mutex_inv a k'" using s(1) e by (auto simp: mutex_inv_def same_objs_def Let_def)
  moreover have "event_inv a k \<Longrightarrow> event_inv a k'"
    using s(1-3) by (auto simp: event_inv_def event_ready_def same_objs_def same_events_def)
  moreover have "mb_ok a k \<Longrightarrow> mb_ok a k'"
    using s(1) stacks_apart_touches[OF t] by (simp add: mb_ok_def mb_inv_def same_objs_def)
  ultimately show ?thesis using o s(4) by (simp add: obj_ok_def)
qed

lemma objs_ok_touches: "touches {} k k' \<Longrightarrow> objs_ok R k \<Longrightarrow> objs_ok R k'"
  using obj_ok_touches[of "{}" k k'] by (auto simp: objs_ok_def) (auto simp: touches_def)

lemma objs_ok_call:
  assumes "call_frame {a} t k k'" "objs_ok R k" "a \<in> reg_all R" "obj_ok R a k'"
  shows "objs_ok R k'"
proof -
  have "obj_ok R b k'" if "b \<in> reg_all R" for b
    using assms that obj_ok_touches[of "{a}" k k' b R] by (cases "b = a") (simp_all add: objs_ok_def call_frame_def)
  moreover have "user_timers k' \<subseteq> reg_timers R"
    using assms(1,2) by (auto simp: objs_ok_def call_frame_def touches_def)
  ultimately show ?thesis by (simp add: objs_ok_def)
qed

text \<open>In the interrupt: what holds beside \<^term>\<open>wf_kernel 0 k\<close> and \<^term>\<open>live k\<close>.\<close>

definition isr_ok :: "registry \<Rightarrow> nat \<Rightarrow> kernel \<Rightarrow> bool" where
  "isr_ok R idle k \<longleftrightarrow> run_ready k \<and> tstat k idle = RT_THREAD_READY \<and> interrupt_nest k = 1 \<and> lock_nest k = 0 \<and>
     objs_ok R k"

definition callback_sys :: "registry \<Rightarrow> nat \<Rightarrow> callback \<Rightarrow> bool" where
  "callback_sys R idle cb \<longleftrightarrow>
     (\<forall>f p k k'. wf_kernel 0 k \<longrightarrow> isr_ok R idle k \<longrightarrow> cb f p k = Some k' \<longrightarrow> isr_ok R idle k')"

text \<open>What the tick interrupt keeps: as \<open>call_frame\<close>, but it does wake sleeping threads.\<close>

definition isr_frame :: "kernel \<Rightarrow> kernel \<Rightarrow> bool" where
  "isr_frame k k' \<longleftrightarrow> touches {} k k' \<and> (\<forall>u. tstat k u = RT_THREAD_READY \<longrightarrow> tstat k' u = RT_THREAD_READY) \<and>
     interrupt_nest k' = interrupt_nest k \<and> lock_nest k' = lock_nest k"

lemma isr_frame_call: "(\<And>t. call_frame {} t k k') \<Longrightarrow> isr_frame k k'"
  unfolding isr_frame_def call_frame_def keeps_ready_def by (metis n_not_Suc_n)

lemma isr_ok_frame:
  assumes "isr_ok R idle k" "isr_frame k k'" "run_ready k'"
  shows "isr_ok R idle k'"
  using assms objs_ok_touches[of k k' R] by (auto simp: isr_ok_def isr_frame_def)

lemma rt_thread_timeout_sys:
  assumes w: "wf_kernel lo k" and rr: "run_ready k" and r: "rt_thread_timeout t k = Some k'"
  shows "run_ready k'" "isr_frame k k'"
proof -
  let ?k1 = "upd_thread t (\<lambda>th. th\<lparr>error := - RT_ETIMEOUT\<rparr>) k"
  let ?k2 = "tl_unlink t ?k1"
  let ?k3 = "sched_inserted t ?k2"
  have s: "tstat k t = RT_THREAD_SUSPEND" using r by (auto simp: rt_thread_timeout_def)
  have w1: "wf_kernel lo ?k1" by (rule wf_kernel_set_error[OF w])
  have s1: "tstat ?k1 t = RT_THREAD_SUSPEND" using s by (simp add: tstat_def)
  have w2: "wf_sched ?k2" using wf_kernel_unlink_suspended[OF w1 s1] by auto
  have n: "tlist (thread ?k2 t) = None" "tprio ?k2 t < 32" using tprio_lt[OF w2] by (simp_all add: tl_unlink_eq)
  have k': "rt_schedule ?k3 = Some k'"
    using r rt_schedule_insert_thread_eq[OF n] by (auto simp: rt_thread_timeout_def bind_eq_Some_conv)
  have "thread_ok (thread ?k2 t)" using w2 by blast
  then have m: "number_mask (thread ?k2 t) = prio_mask (tprio ?k2 t)"
    using s by (auto simp: thread_ok_def tprio_def tstat_def tl_unlink_eq Let_def)
  have w3: "wf_sched ?k3" by (rule wf_sched_inserted[OF wf_sched_but[OF w2] n m])
  have "run_ready ?k3"
    using rr s by (auto simp: run_ready_def sched_inserted_def tl_unlink_eq tstat_def)
  then show "run_ready k'" by (rule run_ready_schedule_any[OF w3 k'])
  have "touches {} k ?k3"
  proof (rule touches_frame)
    show "ipc_frame k ?k3"
      by (meson ipc_frame_trans ipc_frame_upd_thread ipc_frame_tl_unlink ipc_frame_sched_inserted)
    have "wf_queues ?k1" using w1 by auto
    then show "set (lists ?k3 (Susp b)) \<subseteq> set (lists k (Susp b))" for b
      using lists_unlink[of ?k1 t "Susp b"] by (simp add: sched_inserted_def)
    show "user_timers ?k3 \<subseteq> user_timers k" by simp
  qed (auto simp: sched_inserted_def tl_unlink_eq ipc_flag_def)
  then have "touches {} k k'" using touches_trans touches_schedule[OF k'] by blast
  moreover have "tstat k' u = RT_THREAD_READY" if "tstat k u = RT_THREAD_READY" for u
  proof -
    have "tstat ?k3 u = RT_THREAD_READY" using s that by (auto simp: sched_inserted_def tl_unlink_eq tstat_def)
    then show ?thesis using rt_schedule_frame[OF k'] cpu_frameD(1)[of ?k3 k'] by (auto simp: tstat_def)
  qed
  moreover have "interrupt_nest k' = interrupt_nest ?k3" "lock_nest k' = lock_nest ?k3"
    using nests_frame[OF ipc_frame_schedule[OF k']] by simp_all
  ultimately show "isr_frame k k'" by (simp add: isr_frame_def sched_inserted_def tl_unlink_eq)
qed

lemma timer_flags_frame:
  "isr_frame k (rt_timer_remove i k)" "run_ready (rt_timer_remove i k) = run_ready k"
  by (auto simp: rt_timer_remove_def isr_frame_def touches_def same_objs_def same_events_def ipc_flag_def
      run_ready_def tstat_def user_timers_def)

text \<open>A user timer's flag is no IPC flag of an application object.\<close>

lemma objs_ok_timer:
  assumes R: "reg_ok R" and a: "a \<in> reg_timers R" and o: "objs_ok R k"
    and k': "lists k' = lists k" "thread k' = thread k" "sems k' = sems k" "mutexes k' = mutexes k"
      "events k' = events k" "mailboxes k' = mailboxes k" "\<And>b. b \<noteq> a \<Longrightarrow> ipc_flag b k' = ipc_flag b k"
      "user_timers k' \<subseteq> Set.insert a (user_timers k)"
  shows "objs_ok R k'"
proof -
  have "obj_ok R b k'" if "b \<in> reg_all R" for b
  proof -
    have "b \<noteq> a" using R a that by (auto simp: reg_ok_def)
    moreover have "obj_ok R b k" using o that by (simp add: objs_ok_def)
    ultimately show ?thesis
      using k' by (simp add: obj_ok_def sem_inv_def mutex_inv_def event_inv_def event_ready_def mb_ok_def mb_inv_def
          stacks_apart_def)
  qed
  then show ?thesis using o a k'(8) by (auto simp: objs_ok_def)
qed

lemma timer_op_frame:
  "lists (set_timer_flag i f k) = lists k" "thread (set_timer_flag i f k) = thread k"
  "sems (set_timer_flag i f k) = sems k" "mutexes (set_timer_flag i f k) = mutexes k"
  "events (set_timer_flag i f k) = events k" "mailboxes (set_timer_flag i f k) = mailboxes k"
  "b \<noteq> a \<Longrightarrow> ipc_flag b (set_timer_flag (Obj a) f k) = ipc_flag b k"
  "user_timers (set_timer_flag i f k) = user_timers k"
  "current (set_timer_flag i f k) = current k" "interrupt_nest (set_timer_flag i f k) = interrupt_nest k"
  "lock_nest (set_timer_flag i f k) = lock_nest k"
  by (simp_all add: set_timer_flag_def upd_object_def ipc_flag_def user_timers_def)

lemma timer_started_more:
  "lists (timer_started i k) = lists k" "thread (timer_started i k) = thread k"
  "sems (timer_started i k) = sems k" "mutexes (timer_started i k) = mutexes k"
  "events (timer_started i k) = events k" "mailboxes (timer_started i k) = mailboxes k"
  "b \<noteq> a \<Longrightarrow> ipc_flag b (timer_started (Obj a) k) = ipc_flag b k"
  "user_timers (timer_started (Obj a) k) \<subseteq> Set.insert a (user_timers k)"
  "current (timer_started i k) = current k" "interrupt_nest (timer_started i k) = interrupt_nest k"
  "lock_nest (timer_started i k) = lock_nest k"
  by (auto simp: timer_started_def Let_def ipc_flag_def user_timers_def)

lemma isr_ok_flag:
  assumes R: "reg_ok R" and i: "\<And>a. i = Obj a \<Longrightarrow> a \<in> reg_timers R" and o: "isr_ok R idle k"
  shows "isr_ok R idle (set_timer_flag i flag_off k)" "isr_ok R idle (timer_started i k)"
proof -
  have "objs_ok R (set_timer_flag i flag_off k) \<and> objs_ok R (timer_started i k)"
  proof (cases i)
    case (Obj a)
    have k: "objs_ok R k" using o by (simp add: isr_ok_def)
    show ?thesis
      using objs_ok_timer[OF R i[OF Obj] k, of "set_timer_flag i flag_off k"]
        objs_ok_timer[OF R i[OF Obj] k, of "timer_started i k"] timer_started_more(8)[of a k]
      by (auto simp: Obj timer_op_frame timer_started_more)
  next
    case (TimerOf t)
    have "touches {} k (set_timer_flag (TimerOf t) flag_off k)"
      by (rule touches_same) (simp_all add: timer_op_frame same_objs_def same_events_def,
        simp add: ipc_flag_def set_timer_flag_def upd_object_def)
    then show ?thesis
      using objs_ok_touches[of k] touches_timer(2)[of "{}" k t] o by (auto simp: TimerOf isr_ok_def)
  qed
  then show "isr_ok R idle (set_timer_flag i flag_off k)" "isr_ok R idle (timer_started i k)"
    using o by (simp_all add: isr_ok_def timer_op_frame timer_started_more run_ready_def tstat_def)
qed

lemma timer_fire_sys:
  assumes R: "reg_ok R" and w: "wf_kernel 0 k" and o: "isr_ok R idle k" and i: "i \<in> set (timer_list k)"
    and cb: "callback_ok cb" "callback_sys R idle cb" and r: "timer_fire cb i k = Some k'"
  shows "isr_ok R idle k'"
proof -
  let ?k1 = "rt_timer_remove i k"
  obtain k2 where k2: "call_timeout cb i ?k1 = Some k2"
    and k': "k' = set_timer_flag i flag_off k2 \<or> (\<exists>e. rt_timer_start i (set_timer_flag i flag_off k2) = Some (e, k'))"
    using r by (auto simp: timer_fire_def bind_eq_Some_conv split: if_splits)
  have w1: "wf_kernel 0 ?k1" by (rule wf_kernel_timer_remove[OF w])
  have o1: "isr_ok R idle ?k1"
    by (rule isr_ok_frame[OF o timer_flags_frame(1)]) (use o in \<open>simp add: timer_flags_frame isr_ok_def\<close>)
  have "isr_ok R idle k2"
    using w1 k2
  proof (cases rule: call_timeout_cases)
    case (thread t)
    have "run_ready ?k1" using o1 by (simp add: isr_ok_def)
    then show ?thesis using isr_ok_frame[OF o1 rt_thread_timeout_sys(2,1)[OF w1 _ thread(2)]] by blast
  next
    case (user f)
    then show ?thesis using cb(2) w1 o1 by (auto simp: callback_sys_def)
  qed
  moreover have it: "a \<in> reg_timers R" if "i = Obj a" for a
    using o i that by (auto simp: isr_ok_def objs_ok_def user_timers_def)
  ultimately have "isr_ok R idle (set_timer_flag i flag_off k2)"
    "isr_ok R idle (timer_started i (set_timer_flag i flag_off k2))"
    using isr_ok_flag[OF R it] by blast+
  then show ?thesis using k' by (auto simp: rt_timer_start_eq split: if_splits)
qed

lemma timer_check_loop_sys:
  assumes R: "reg_ok R" and cb: "callback_ok cb" "callback_total cb" "callback_sys R idle cb"
    and "wf_kernel 0 k" "live k" "isr_ok R idle k" "timer_check_loop cb (tick k) k = Some k'"
  shows "isr_ok R idle k'"
  using assms(5-)
proof (induction "expired_count k" arbitrary: k rule: less_induct)
  case less
  show ?case
  proof (cases "timer_list k")
    case Nil
    then show ?thesis using less.prems by (simp add: timer_check_loop.simps)
  next
    case (Cons i l)
    show ?thesis
    proof (cases "timer_expired (tick k) i k")
      case False
      then show ?thesis using less.prems Cons by (simp add: timer_check_loop.simps)
    next
      case True
      have i: "i \<in> set (timer_list k)" using Cons by simp
      obtain k1 where k1: "timer_fire cb i k = Some k1" "live k1" "expired_count k1 < expired_count k"
        using timer_fire_progress[OF less.prems(1,2) cb(1,2) i True] by blast
      have w1: "wf_kernel 0 k1" using timer_fire_ok[OF less.prems(1) cb(1) k1(1)] by simp
      have "isr_ok R idle k1" by (rule timer_fire_sys[OF R less.prems(1,3) i cb(1,3) k1(1)])
      moreover have "timer_check_loop cb (tick k1) k1 = Some k'"
        using less.prems(4) True Cons k1(1) by (subst (asm) timer_check_loop.simps) (simp add: rt_tick_get_def)
      ultimately show ?thesis using less.hyps[OF k1(3) w1 k1(2)] by blast
    qed
  qed
qed

section \<open>The tick interrupt\<close>

lemma isr_ok_time:
  assumes "isr_ok R idle k"
  shows "isr_ok R idle (upd_thread t (\<lambda>th. th\<lparr>remaining_tick := f th\<rparr>) k)" "isr_ok R idle (k\<lparr>tick := n\<rparr>)"
proof -
  have "touches {} k (upd_thread t (\<lambda>th. th\<lparr>remaining_tick := f th\<rparr>) k)" "touches {} k (k\<lparr>tick := n\<rparr>)"
    by (rule touches_same; simp add: same_events_def same_objs_def ipc_flag_def user_timers_def)+
  then show "isr_ok R idle (upd_thread t (\<lambda>th. th\<lparr>remaining_tick := f th\<rparr>) k)" "isr_ok R idle (k\<lparr>tick := n\<rparr>)"
    using assms objs_ok_touches[of k _ R] by (auto simp: isr_ok_def run_ready_def tstat_def)
qed

lemma rt_timer_check_sys:
  assumes "reg_ok R" "callback_ok cb" "callback_total cb" "callback_sys R idle cb" "wf_kernel 0 k" "live k"
    "isr_ok R idle k" "rt_timer_check cb k = Some k'"
  shows "isr_ok R idle k'"
  using timer_check_loop_sys[OF assms(1-7)] assms(8) by (simp add: rt_timer_check_def rt_tick_get_def)

lemma rt_tick_increase_sys:
  assumes R: "reg_ok R" and cb: "callback_ok cb" "callback_total cb" "callback_sys R idle cb"
    and w: "wf_kernel 1 k" and l: "live k" and o: "isr_ok R idle k" and r: "rt_tick_increase cb k = Some k'"
  shows "isr_ok R idle k'"
proof -
  obtain t where t: "current k = Some t" using l by (auto simp: live_def)
  let ?k1 = "k\<lparr>tick := tick k + 1\<rparr>"
  let ?k2 = "upd_thread t (\<lambda>th. th\<lparr>remaining_tick := remaining_tick th - 1\<rparr>) ?k1"
  let ?k3 = "upd_thread t (\<lambda>th. th\<lparr>remaining_tick := init_tick th\<rparr>) ?k2"
  have w2: "wf_kernel 0 ?k2" by (rule wf_kernel_thread_fields[OF wf_kernel_tick[OF w]]) simp_all
  have w3: "wf_kernel 0 ?k3" by (rule wf_kernel_thread_fields[OF w2]) simp_all
  have l2: "live ?k2" and l3: "live ?k3"
    using l by (auto simp: live_def stacks_ok_def stack_ok_def kram_def periods_ok_def timer_flag_def
        tstat_def Let_def)
  have o2: "isr_ok R idle ?k2" by (rule isr_ok_time(1)[OF isr_ok_time(2)[OF o]])
  have o3: "isr_ok R idle ?k3" by (rule isr_ok_time(1)[OF o2])
  have "rt_timer_check cb ?k2 = Some k' \<or>
    (\<exists>e k4. rt_thread_yield ?k3 = Some (e, k4) \<and> rt_timer_check cb k4 = Some k')"
    using r t by (auto simp: rt_tick_increase_def rt_thread_self_def Let_def bind_eq_Some_conv split: if_splits)
  then show ?thesis
  proof (elim disjE exE conjE)
    assume "rt_timer_check cb ?k2 = Some k'"
    then show ?thesis by (rule rt_timer_check_sys[OF R cb w2 l2 o2])
  next
    fix e k4
    assume y: "rt_thread_yield ?k3 = Some (e, k4)" and c: "rt_timer_check cb k4 = Some k'"
    have rr: "run_ready ?k3" using o3 by (simp add: isr_ok_def)
    have k4: "wf_kernel 0 k4 \<and> live k4 \<and> run_ready k4 \<and> call_frame {} u ?k3 k4" for u
      using rt_thread_yield_sys[OF w3 l3 rr, of "{}" u] y by auto
    have "isr_ok R idle k4" by (rule isr_ok_frame[OF o3 isr_frame_call]) (use k4 in blast)+
    then show ?thesis using rt_timer_check_sys[OF R cb _ _ _ c] k4 by blast
  qed
qed

lemma nest_frame:
  "touches {} k (k\<lparr>interrupt_nest := n\<rparr>)" "wf_kernel lo (k\<lparr>interrupt_nest := n\<rparr>) = wf_kernel lo k"
  "live (k\<lparr>interrupt_nest := n\<rparr>) = live k"
proof -
  show "touches {} k (k\<lparr>interrupt_nest := n\<rparr>)"
    by (rule touches_same) (simp_all add: same_events_def same_objs_def ipc_flag_def user_timers_def)
  have w: "wf_kernel lo k \<Longrightarrow> wf_kernel lo (k\<lparr>interrupt_nest := n\<rparr>)" for k n
    using wf_sched_cong[of k "k\<lparr>interrupt_nest := n\<rparr>"] wf_timers_cong[of lo k "k\<lparr>interrupt_nest := n\<rparr>"]
      wf_objects_sched[of k "k\<lparr>interrupt_nest := n\<rparr>"]
    by (simp add: wf_kernel_def timer_flag_def tstat_def null_ok_def)
  show "wf_kernel lo (k\<lparr>interrupt_nest := n\<rparr>) = wf_kernel lo k"
    using w[of k n] w[of "k\<lparr>interrupt_nest := n\<rparr>" "interrupt_nest k"] by auto
  show "live (k\<lparr>interrupt_nest := n\<rparr>) = live k"
    by (simp add: live_def stacks_ok_def stack_ok_def kram_def periods_ok_def timer_flag_def tstat_def Let_def)
qed

lemma SysTick_Handler_sys:
  assumes R: "reg_ok R" and cb: "callback_ok cb" "callback_total cb" "callback_sys R idle cb"
    and s: "sys_inv R idle k"
  shows "\<exists>k'. SysTick_Handler cb k = Some k' \<and> sys_inv R idle k' \<and> tick k' = tick k + 1"
proof -
  have s': "sys_ok idle k" "objs_ok R k" using s by (simp_all add: sys_inv_def)
  note d = sys_okD[OF s'(1)]
  let ?k = "rt_interrupt_enter k"
  have w: "wf_kernel 1 ?k" and l: "live ?k" using d by (simp_all add: rt_interrupt_enter_def nest_frame)
  have "objs_ok R ?k" using objs_ok_touches[OF nest_frame(1) s'(2)] by (simp add: rt_interrupt_enter_def)
  then have o: "isr_ok R idle ?k"
    using d by (simp add: isr_ok_def rt_interrupt_enter_def run_ready_def tstat_def)
  obtain k1 where k1: "rt_tick_increase cb ?k = Some k1" "live k1" using rt_tick_increase_returns[OF w l cb(1,2)] by blast
  have w1: "wf_kernel 2 k1" "tick k1 = tick k + 1"
    using rt_tick_increase_ok[OF w cb(1) k1(1)] by (simp_all add: rt_interrupt_enter_def)
  have o1: "isr_ok R idle k1" by (rule rt_tick_increase_sys[OF R cb w l o k1(1)])
  have "objs_ok R (rt_interrupt_leave k1)"
    using objs_ok_touches[OF nest_frame(1), of R k1] o1 by (simp add: isr_ok_def rt_interrupt_leave_def)
  moreover have "sys_ok idle (rt_interrupt_leave k1)"
    using o1 k1(2) wf_kernel_mono[OF w1(1), of 1]
    by (simp add: sys_ok_def isr_ok_def rt_interrupt_leave_def nest_frame run_ready_def tstat_def)
  ultimately show ?thesis using k1(1) w1(2)
    by (simp add: SysTick_Handler_def sys_inv_def rt_interrupt_leave_def)
qed

section \<open>Threads that call the kernel\<close>

text \<open>
  The calls a thread makes, and what a thread that was switched away inside a blocking call
  continues with. A call runs to its end or to its \<^verbatim>\<open>rt_schedule()\<close> without interruption; the tick
  interrupt comes between calls.
\<close>

datatype syscall =
    Sem_take nat int
  | Sem_release nat
  | Mutex_take nat int
  | Mutex_release nat
  | Event_send nat u32
  | Event_recv nat u32 u8 int
  | Mb_send nat u32 int
  | Mb_recv nat int
  | Yield
  | Delay u32
  | Thread_resume nat

datatype pending =
    In_sem_take
  | In_mutex_take nat int
  | In_event_recv
  | In_mb_send nat u32 wait_state
  | In_mb_recv nat wait_state
  | In_delay

fun in_call :: "('c \<Rightarrow> pending) \<Rightarrow> ('r, 'c) outcome \<times> kernel \<Rightarrow> pending option \<times> kernel" where
  "in_call f (Ret r, k) = (None, k)"
| "in_call f (Wait c, k) = (Some (f c), k)"

fun run_call :: "syscall \<Rightarrow> kernel \<Rightarrow> (pending option \<times> kernel) option" where
  "run_call (Sem_take a time) k = map_option (in_call (\<lambda>_. In_sem_take)) (rt_sem_take a time k)"
| "run_call (Sem_release a) k = map_option (\<lambda>(_, k). (None, k)) (rt_sem_release a k)"
| "run_call (Mutex_take a time) k = map_option (in_call (\<lambda>_. In_mutex_take a time)) (rt_mutex_take a time k)"
| "run_call (Mutex_release a) k = map_option (\<lambda>(_, k). (None, k)) (rt_mutex_release a k)"
| "run_call (Event_send a evs) k = map_option (\<lambda>(_, k). (None, k)) (rt_event_send a evs k)"
| "run_call (Event_recv a evs opt time) k = map_option (in_call (\<lambda>_. In_event_recv)) (rt_event_recv a evs opt time k)"
| "run_call (Mb_send a v time) k = map_option (in_call (In_mb_send a v)) (rt_mb_send_wait a v time k)"
| "run_call (Mb_recv a time) k = map_option (in_call (In_mb_recv a)) (rt_mb_recv a time k)"
| "run_call Yield k = map_option (\<lambda>(_, k). (None, k)) (rt_thread_yield k)"
| "run_call (Delay n) k = map_option (\<lambda>k. (Some In_delay, k)) (rt_thread_delay n k)"
| "run_call (Thread_resume u) k = map_option (\<lambda>(_, k). (None, k)) (rt_thread_resume u k)"

fun resume_call :: "nat \<Rightarrow> pending \<Rightarrow> kernel \<Rightarrow> (pending option \<times> kernel) option" where
  "resume_call t In_sem_take k = Some (None, k)"
| "resume_call t (In_mutex_take a time) k =
     map_option (in_call (\<lambda>_. In_mutex_take a time)) (rt_mutex_take_cont a time t k)"
| "resume_call t In_event_recv k = Some (None, k)"
| "resume_call t (In_mb_send a v w) k = map_option (in_call (In_mb_send a v)) (rt_mb_send_wait_cont a v w k)"
| "resume_call t (In_mb_recv a w) k = map_option (in_call (In_mb_recv a)) (rt_mb_recv_cont a w k)"
| "resume_call t In_delay k = Some (None, snd (rt_thread_sleep_cont t k))"

text \<open>The calls a program may make: on objects it has created, with wait times that the timer can
  represent, and without wrapping the nesting count of a mutex. A thread that waits for a
  mailbox measures the time it has waited with the tick counter, so it must run again before
  half of the counter's range has passed.\<close>

fun legal :: "registry \<Rightarrow> kernel \<Rightarrow> syscall \<Rightarrow> bool" where
  "legal R k (Sem_take a time) \<longleftrightarrow> a \<in> reg_sems R \<and> time < 0x7FFFFFFF"
| "legal R k (Sem_release a) \<longleftrightarrow> a \<in> reg_sems R"
| "legal R k (Mutex_take a time) \<longleftrightarrow> a \<in> reg_mutexes R \<and> time < 0x7FFFFFFF \<and> hold (mutexes k a) \<noteq> 0xFF"
| "legal R k (Mutex_release a) \<longleftrightarrow> a \<in> reg_mutexes R"
| "legal R k (Event_send a evs) \<longleftrightarrow> a \<in> reg_events R"
| "legal R k (Event_recv a evs opt time) \<longleftrightarrow> a \<in> reg_events R \<and> time < 0x7FFFFFFF \<and>
     (opt AND RT_EVENT_FLAG_AND \<noteq> 0 \<or> opt AND RT_EVENT_FLAG_OR \<noteq> 0)"
| "legal R k (Mb_send a v time) \<longleftrightarrow> a \<in> reg_mbs R \<and> time < 0x7FFFFFFF"
| "legal R k (Mb_recv a time) \<longleftrightarrow> a \<in> reg_mbs R \<and> time < 0x7FFFFFFF"
| "legal R k Yield \<longleftrightarrow> True"
| "legal R k (Delay n) \<longleftrightarrow> n < 0x7FFFFFFF"
| "legal R k (Thread_resume u) \<longleftrightarrow> u \<in> reg_resumed R"

fun pending_ok :: "registry \<Rightarrow> pending \<Rightarrow> bool" where
  "pending_ok R (In_mutex_take a time) \<longleftrightarrow> a \<in> reg_mutexes R \<and> time < 0x7FFFFFFF"
| "pending_ok R (In_mb_send a v (t, time, start)) \<longleftrightarrow> a \<in> reg_mbs R \<and> time < 0x7FFFFFFF"
| "pending_ok R (In_mb_recv a (t, time, start)) \<longleftrightarrow> a \<in> reg_mbs R \<and> time < 0x7FFFFFFF"
| "pending_ok R _ \<longleftrightarrow> True"

fun recent :: "u32 \<Rightarrow> pending \<Rightarrow> bool" where
  "recent now (In_mb_send a v (t, time, start)) \<longleftrightarrow> now - start < 0x80000000"
| "recent now (In_mb_recv a (t, time, start)) \<longleftrightarrow> now - start < 0x80000000"
| "recent now _ \<longleftrightarrow> True"

lemma remaining_time_bound:
  assumes "timeout < 0x7FFFFFFF" "tick k - start < 0x80000000"
  shows "remaining_time timeout start k < 0x7FFFFFFF"
proof (cases "timeout > 0")
  case True
  let ?e = "uint (tick k - start)"
  have e: "0 \<le> ?e" "?e < 0x80000000" using assms(2) by (simp_all add: word_less_def)
  have "word_of_int timeout - (tick k - start) = (word_of_int (timeout - ?e) :: u32)" by simp
  then have "sint (word_of_int timeout - (tick k - start) :: u32) = signed_take_bit 31 (timeout - ?e)"
    using sint_sbintrunc'[of "timeout - ?e", where 'a = 32] by simp
  also have "\<dots> = timeout - ?e"
  proof (rule signed_take_bit_int_eq_self)
    have "- 2147483648 \<le> timeout - ?e" "timeout - ?e < 2147483648" using e True assms(1) by linarith+
    then show "- (2 ^ 31) \<le> timeout - ?e" "timeout - ?e < 2 ^ 31" by simp_all
  qed
  finally have "sint (word_of_int timeout - (tick k - start) :: u32) = timeout - ?e" .
  moreover have "timeout - ?e < 0x7FFFFFFF" using e assms(1) by linarith
  ultimately show ?thesis using True by (simp add: remaining_time_def Let_def)
next
  case False
  then show ?thesis using assms by (simp add: remaining_time_def)
qed

record system =
  sys_kernel :: kernel
  sys_pending :: "nat \<Rightarrow> pending option"

definition system_ok :: "registry \<Rightarrow> nat \<Rightarrow> system \<Rightarrow> bool" where
  "system_ok R idle s \<longleftrightarrow> sys_inv R idle (sys_kernel s) \<and>
     (\<forall>t. case sys_pending s t of None \<Rightarrow> True | Some p \<Rightarrow> pending_ok R p)"

inductive system_step :: "registry \<Rightarrow> nat \<Rightarrow> callback \<Rightarrow> system \<Rightarrow> system \<Rightarrow> bool"
  for R :: registry and idle :: nat and cb :: callback where
  call: "current (sys_kernel s) = Some t \<Longrightarrow> t \<noteq> idle \<Longrightarrow> sys_pending s t = None \<Longrightarrow>
    legal R (sys_kernel s) c \<Longrightarrow> run_call c (sys_kernel s) = Some (p, k') \<Longrightarrow>
    system_step R idle cb s \<lparr>sys_kernel = k', sys_pending = (sys_pending s)(t := p)\<rparr>"
| resume: "current (sys_kernel s) = Some t \<Longrightarrow> t \<noteq> idle \<Longrightarrow> sys_pending s t = Some c \<Longrightarrow>
    recent (tick (sys_kernel s)) c \<Longrightarrow> resume_call t c (sys_kernel s) = Some (p, k') \<Longrightarrow>
    system_step R idle cb s \<lparr>sys_kernel = k', sys_pending = (sys_pending s)(t := p)\<rparr>"
| clock_tick: "SysTick_Handler cb (sys_kernel s) = Some k' \<Longrightarrow>
    system_step R idle cb s (s\<lparr>sys_kernel := k'\<rparr>)"

inductive_cases system_stepE: "system_step R idle cb s s'"

lemma sys_inv_calls: "sys_inv R idle k \<Longrightarrow> current k = Some t \<Longrightarrow> t \<noteq> idle \<Longrightarrow> calls idle t k"
  by (simp add: sys_inv_def calls_def)

lemma reg_only:
  assumes "reg_ok R"
  shows "a \<in> reg_sems R \<Longrightarrow> a \<in> reg_all R \<and> a \<noteq> 0 \<and> a \<notin> reg_mutexes R \<and> a \<notin> reg_events R \<and> a \<notin> reg_mbs R"
    "a \<in> reg_mutexes R \<Longrightarrow> a \<in> reg_all R \<and> a \<noteq> 0 \<and> a \<notin> reg_sems R \<and> a \<notin> reg_events R \<and> a \<notin> reg_mbs R"
    "a \<in> reg_events R \<Longrightarrow> a \<in> reg_all R \<and> a \<noteq> 0 \<and> a \<notin> reg_sems R \<and> a \<notin> reg_mutexes R \<and> a \<notin> reg_mbs R"
    "a \<in> reg_mbs R \<Longrightarrow> a \<in> reg_all R \<and> a \<noteq> 0 \<and> a \<notin> reg_sems R \<and> a \<notin> reg_mutexes R \<and> a \<notin> reg_events R"
  using assms by (auto simp: reg_ok_def reg_all_def)

lemma obj_okD:
  assumes "sys_inv R idle k" "a \<in> reg_all R"
  shows "ipc_flag_ok a k" "a \<in> reg_sems R \<Longrightarrow> sem_inv a k" "a \<in> reg_mutexes R \<Longrightarrow> mutex_inv a k"
    "a \<in> reg_events R \<Longrightarrow> event_inv a k" "a \<in> reg_mbs R \<Longrightarrow> mb_ok a k"
  using assms by (auto simp: sys_inv_def objs_ok_def obj_ok_def)

lemma call_frame_flag: "call_frame A t k k' \<Longrightarrow> ipc_flag b k' = ipc_flag b k"
  by (simp add: call_frame_def touches_def)

abbreviation pendings_ok :: "registry \<Rightarrow> pending option \<Rightarrow> bool" where
  "pendings_ok R p \<equiv> case p of None \<Rightarrow> True | Some c \<Rightarrow> pending_ok R c"

text \<open>What one call or continuation promises. Of the sleeping threads it wakes only those that the
  application resumes.\<close>

definition call_safe :: "registry \<Rightarrow> nat \<Rightarrow> nat \<Rightarrow> kernel \<Rightarrow> (pending option \<times> kernel) option \<Rightarrow> bool" where
  "call_safe R idle t k r \<longleftrightarrow>
     (\<exists>p k'. r = Some (p, k') \<and> sys_inv R idle k' \<and> pendings_ok R p \<and> tick k' = tick k \<and>
       (\<forall>u tmo. u \<noteq> t \<longrightarrow> u \<notin> reg_resumed R \<longrightarrow> asleep u tmo k \<longrightarrow> asleep u tmo k'))"

lemma call_safe_obj:
  assumes s: "sys_inv R idle k" and a: "a \<in> reg_all R"
    and ex: "\<exists>res k'. r = Some (res, k') \<and> sys_ok idle k' \<and> call_frame {a} t k k' \<and> P k'"
    and P: "\<And>k'. P k' \<Longrightarrow> ipc_flag_ok a k' \<Longrightarrow> obj_ok R a k'"
    and g: "\<And>res k'. r = Some (res, k') \<Longrightarrow> \<exists>p. g (res, k') = (p, k') \<and> pendings_ok R p"
  shows "call_safe R idle t k (map_option g r)"
proof -
  obtain res k' where r: "r = Some (res, k')" "sys_ok idle k'" "call_frame {a} t k k'" "P k'" using ex by blast
  have "ipc_flag_ok a k'" using obj_okD(1)[OF s a] call_frame_flag[OF r(3)] by simp
  then have "sys_inv R idle k'"
    using s r(2) objs_ok_call[OF r(3) _ a P[OF r(4)]] by (simp add: sys_inv_def)
  then show ?thesis using g[OF r(1)] r(1,3) by (auto simp: call_safe_def call_frame_def keeps_asleep_def)
qed

lemma in_call_ok:
  "(\<And>c. res = Wait c \<Longrightarrow> pending_ok R (f c)) \<Longrightarrow> \<exists>p. in_call f (res, k) = (p, k) \<and> pendings_ok R p"
  by (cases res) auto

lemma no_pending_ok: "\<exists>p. (\<lambda>(_, k). (None, k)) (e, k) = (p, k) \<and> pendings_ok R p"
  by simp

lemma call_safe_quiet:
  assumes "sys_inv R idle k" "r = Some (p, k')" "sys_ok idle k'" "call_frame {} t k k'" "pendings_ok R p"
  shows "call_safe R idle t k r"
  using assms objs_ok_touches[of k k' R] by (auto simp: call_safe_def sys_inv_def call_frame_def keeps_asleep_def)

lemma mb_wait_time:
  "mb_send_loop a v timeout k = Some (Wait w, k') \<Longrightarrow> fst (snd w) = timeout"
  "mb_recv_loop a timeout k = Some (Wait w, k') \<Longrightarrow> fst (snd w) = timeout"
  by (erule mb_send_loop_cases; simp) (erule mb_recv_loop_cases; simp)

lemma mb_calls_wait_time:
  "rt_mb_send_wait a v timeout k = Some (Wait w, k') \<Longrightarrow> fst (snd w) = timeout"
  "rt_mb_recv a timeout k = Some (Wait w, k') \<Longrightarrow> fst (snd w) = timeout"
  using rt_mb_send_wait_eq[of a v timeout k "Wait w" k'] rt_mb_recv_eq[of a timeout k "Wait w" k'] mb_wait_time
  by (auto split: if_splits)

lemma sem_call_safe:
  assumes R: "reg_ok R" and s: "sys_inv R idle k" and c: "calls idle t k" and a: "a \<in> reg_sems R"
  shows "time < 0x7FFFFFFF \<Longrightarrow> call_safe R idle t k (run_call (Sem_take a time) k)"
    "call_safe R idle t k (run_call (Sem_release a) k)"
proof -
  note A = reg_only(1)[OF R a] and o = obj_okD[OF s]
  have i: "sem_inv a k" "ipc_flag_ok a k" using o A a by blast+
  have P: "sem_inv a k' \<Longrightarrow> ipc_flag_ok a k' \<Longrightarrow> obj_ok R a k'" for k' using A by (simp add: obj_ok_def)
  show "call_safe R idle t k (run_call (Sem_take a time) k)" if "time < 0x7FFFFFFF"
    unfolding run_call.simps
    by (rule call_safe_obj[OF s, of a _ t "sem_inv a"], use A in blast, use rt_sem_take_sys[OF c _ i(2) that] A i in blast,
      use P in blast, rule in_call_ok, simp)
  show "call_safe R idle t k (run_call (Sem_release a) k)"
    unfolding run_call.simps
    by (rule call_safe_obj[OF s, of a _ t "sem_inv a"], use A in blast, use rt_sem_release_sys[OF c, of a] i in blast,
      use P in blast, rule no_pending_ok)
qed

lemma mutex_call_safe:
  assumes R: "reg_ok R" and s: "sys_inv R idle k" and c: "calls idle t k" and a: "a \<in> reg_mutexes R"
  shows "time < 0x7FFFFFFF \<Longrightarrow> hold (mutexes k a) \<noteq> 0xFF \<Longrightarrow> call_safe R idle t k (run_call (Mutex_take a time) k)"
    "call_safe R idle t k (run_call (Mutex_release a) k)"
    "time < 0x7FFFFFFF \<Longrightarrow> call_safe R idle t k (resume_call t (In_mutex_take a time) k)"
proof -
  note A = reg_only(2)[OF R a] and o = obj_okD[OF s]
  have i: "mutex_inv a k" "ipc_flag_ok a k" using o A a by blast+
  have P: "mutex_inv a k' \<Longrightarrow> ipc_flag_ok a k' \<Longrightarrow> obj_ok R a k'" for k' using A by (simp add: obj_ok_def)
  have g: "time < 0x7FFFFFFF \<Longrightarrow> \<exists>p. in_call (\<lambda>_. In_mutex_take a time) (res, k') = (p, k') \<and> pendings_ok R p"
    for res :: "(rt_err, nat) outcome" and k' by (rule in_call_ok) (use a in simp)
  show "call_safe R idle t k (run_call (Mutex_take a time) k)" if "time < 0x7FFFFFFF" "hold (mutexes k a) \<noteq> 0xFF"
    unfolding run_call.simps
    by (rule call_safe_obj[OF s, of a _ t "mutex_inv a"], use A in blast,
      rule rt_mutex_take_sys[OF c _ i(2) that(1) i(1) that(2)], use A in blast, use P in blast, rule g[OF that(1)])
  show "call_safe R idle t k (run_call (Mutex_release a) k)"
    unfolding run_call.simps
    by (rule call_safe_obj[OF s, of a _ t "mutex_inv a"], use A in blast, rule rt_mutex_release_sys[OF c i(1)],
      use P in blast, rule no_pending_ok)
  show "call_safe R idle t k (resume_call t (In_mutex_take a time) k)" if "time < 0x7FFFFFFF"
  proof (cases "error (thread k t) = - RT_EINTR")
    case True
    then have e: "rt_mutex_take_cont a time t k = mutex_again a time t k" by (simp add: rt_mutex_take_cont_def)
    show ?thesis
      unfolding resume_call.simps e
      by (rule call_safe_obj[OF s, of a _ t "mutex_inv a"], use A in blast, rule mutex_again_sys[OF c i(2) that i(1)],
        use P in blast, rule g[OF that])
  next
    case False
    then show ?thesis using s by (simp add: rt_mutex_take_cont_def call_safe_def)
  qed
qed

lemma event_call_safe:
  assumes R: "reg_ok R" and s: "sys_inv R idle k" and c: "calls idle t k" and a: "a \<in> reg_events R"
  shows "call_safe R idle t k (run_call (Event_send a evs) k)"
    "time < 0x7FFFFFFF \<Longrightarrow> opt AND RT_EVENT_FLAG_AND \<noteq> 0 \<or> opt AND RT_EVENT_FLAG_OR \<noteq> 0 \<Longrightarrow>
     call_safe R idle t k (run_call (Event_recv a evs opt time) k)"
proof -
  note A = reg_only(3)[OF R a] and o = obj_okD[OF s]
  have i: "event_inv a k" "ipc_flag_ok a k" using o A a by blast+
  have P: "event_inv a k' \<Longrightarrow> ipc_flag_ok a k' \<Longrightarrow> obj_ok R a k'" for k' using A by (simp add: obj_ok_def)
  show "call_safe R idle t k (run_call (Event_send a evs) k)"
    unfolding run_call.simps
    by (rule call_safe_obj[OF s, of a _ t "event_inv a"], use A in blast, rule rt_event_send_sys[OF c _ i(1)],
      use A in blast, use P in blast, rule no_pending_ok)
  show "call_safe R idle t k (run_call (Event_recv a evs opt time) k)"
    if "time < 0x7FFFFFFF" "opt AND RT_EVENT_FLAG_AND \<noteq> 0 \<or> opt AND RT_EVENT_FLAG_OR \<noteq> 0"
    unfolding run_call.simps
    by (rule call_safe_obj[OF s, of a _ t "event_inv a"], use A in blast, rule rt_event_recv_sys[OF c _ i(2) that i(1)],
      use A in blast, use P in blast, rule in_call_ok, simp)
qed

lemma mb_call_safe:
  assumes R: "reg_ok R" and s: "sys_inv R idle k" and c: "calls idle t k" and a: "a \<in> reg_mbs R"
  shows "time < 0x7FFFFFFF \<Longrightarrow> call_safe R idle t k (run_call (Mb_send a v time) k)"
    "time < 0x7FFFFFFF \<Longrightarrow> call_safe R idle t k (run_call (Mb_recv a time) k)"
    "time < 0x7FFFFFFF \<Longrightarrow> tick k - st < 0x80000000 \<Longrightarrow> call_safe R idle t k (resume_call t (In_mb_send a v (u, time, st)) k)"
    "time < 0x7FFFFFFF \<Longrightarrow> tick k - st < 0x80000000 \<Longrightarrow> call_safe R idle t k (resume_call t (In_mb_recv a (u, time, st)) k)"
proof -
  note A = reg_only(4)[OF R a] and o = obj_okD[OF s]
  have i: "mb_ok a k" "ipc_flag_ok a k" using o A a by blast+
  have P: "mb_ok a k' \<Longrightarrow> ipc_flag_ok a k' \<Longrightarrow> obj_ok R a k'" for k' using A by (simp add: obj_ok_def)
  have g: "\<exists>p. in_call (In_mb_send a v) (res, k') = (p, k') \<and> pendings_ok R p"
    if "\<And>w. res = Wait w \<Longrightarrow> fst (snd w) < 0x7FFFFFFF" for res :: "(rt_err, wait_state) outcome" and k'
    by (rule in_call_ok) (use a that in fastforce)
  have h: "\<exists>p. in_call (In_mb_recv a) (res, k') = (p, k') \<and> pendings_ok R p"
    if "\<And>w. res = Wait w \<Longrightarrow> fst (snd w) < 0x7FFFFFFF" for res :: "(rt_err \<times> u32 option, wait_state) outcome" and k'
    by (rule in_call_ok) (use a that in fastforce)
  show "call_safe R idle t k (run_call (Mb_send a v time) k)" if t: "time < 0x7FFFFFFF"
    unfolding run_call.simps
    by (rule call_safe_obj[OF s, of a _ t "mb_ok a"], use A in blast, rule rt_mb_send_wait_sys[OF c _ i(2) t i(1)],
      use A in blast, use P in blast, rule g, use mb_calls_wait_time(1) t in metis)
  show "call_safe R idle t k (run_call (Mb_recv a time) k)" if t: "time < 0x7FFFFFFF"
    unfolding run_call.simps
    by (rule call_safe_obj[OF s, of a _ t "mb_ok a"], use A in blast, rule rt_mb_recv_sys[OF c _ i(2) t i(1)],
      use A in blast, use P in blast, rule h, use mb_calls_wait_time(2) t in metis)
  show "call_safe R idle t k (resume_call t (In_mb_send a v (u, time, st)) k)"
    if t: "time < 0x7FFFFFFF" "tick k - st < 0x80000000"
  proof (cases "error (thread k u) = RT_EOK")
    case True
    note b = remaining_time_bound[OF t]
    have e: "rt_mb_send_wait_cont a v (u, time, st) k = mb_send_loop a v (remaining_time time st k) k"
      using True by (simp add: rt_mb_send_wait_cont_def)
    show ?thesis
      unfolding resume_call.simps e
      by (rule call_safe_obj[OF s, of a _ t "mb_ok a"], use A in blast, rule mb_send_loop_sys[OF c _ i(2) b i(1)],
        use A in blast, use P in blast, rule g, use mb_wait_time(1) b in metis)
  next
    case False
    then show ?thesis using s by (simp add: rt_mb_send_wait_cont_def call_safe_def)
  qed
  show "call_safe R idle t k (resume_call t (In_mb_recv a (u, time, st)) k)"
    if t: "time < 0x7FFFFFFF" "tick k - st < 0x80000000"
  proof (cases "error (thread k u) = RT_EOK")
    case True
    note b = remaining_time_bound[OF t]
    have e: "rt_mb_recv_cont a (u, time, st) k = mb_recv_loop a (remaining_time time st k) k"
      using True by (simp add: rt_mb_recv_cont_def)
    show ?thesis
      unfolding resume_call.simps e
      by (rule call_safe_obj[OF s, of a _ t "mb_ok a"], use A in blast, rule mb_recv_loop_sys[OF c _ i(2) b i(1)],
        use A in blast, use P in blast, rule h, use mb_wait_time(2) b in metis)
  next
    case False
    then show ?thesis using s by (simp add: rt_mb_recv_cont_def call_safe_def)
  qed
qed

lemma thread_resume_safe:
  assumes s: "sys_inv R idle k" and c: "calls idle t k" and u: "u \<in> reg_resumed R"
  shows "call_safe R idle t k (run_call (Thread_resume u) k)"
proof (cases "tstat k u = RT_THREAD_SUSPEND")
  case True
  note d = callsD[OF c]
  let ?k = "thread_resumed u k"
  have r: "rt_thread_resume u k = Some (RT_EOK, ?k)"
    using rt_thread_resume_eq[OF wf_kernelD(1)[OF d(1)], of u] True by simp
  note fr = ipc_frame_resumed[of k u]
  have "keeps_ready t k ?k" "wf_kernel 1 ?k" "live ?k" "run_ready ?k"
    using keeps_ready_resumed wf_kernel_resumed[OF d(1) True] live_resumed[OF d(2) True] run_ready_resumed[OF d(3)] by simp_all
  moreover have "sys_ok idle k" using c by (simp add: calls_def)
  ultimately have "sys_ok idle ?k"
    using nests_frame[OF fr] callsD[OF c] by (simp add: sys_ok_def keeps_ready_def)
  moreover have "objs_ok R ?k"
    using s objs_ok_touches[OF touches_resumed[OF d(1)], of R u] by (simp add: sys_inv_def)
  moreover have "asleep v tmo ?k" if "v \<notin> reg_resumed R" "asleep v tmo k" for v tmo
    using asleep_resumed_other[of v u tmo k] that u by blast
  ultimately show ?thesis
    using r ipc_frameD(9)[OF fr] by (simp add: call_safe_def sys_inv_def)
next
  case False
  then show ?thesis
    using s rt_thread_resume_eq[OF wf_kernelD(1)[OF callsD(1)[OF c]], of u] by (simp add: call_safe_def)
qed

lemma run_call_safe:
  assumes R: "reg_ok R" and s: "sys_inv R idle k" and t: "current k = Some t" "t \<noteq> idle" and l: "legal R k c"
  shows "call_safe R idle t k (run_call c k)"
proof -
  have c: "calls idle t k" by (rule sys_inv_calls[OF s t])
  note d = callsD[OF c]
  show ?thesis
  proof (cases c)
    case Yield
    obtain e k' where y: "rt_thread_yield k = Some (e, k')" "wf_kernel 1 k'" "live k'" "run_ready k'" "call_frame {} t k k'"
      using rt_thread_yield_sys[OF d(1,2,3)] by blast
    show ?thesis
      by (rule call_safe_quiet[OF s, of _ None, OF _ sys_ok_frame[OF c y(5,2,3,4)] y(5)]) (use y(1) Yield in simp_all)
  next
    case (Delay n)
    have n: "n < 0x7FFFFFFF" using l Delay by simp
    obtain k' where y: "rt_thread_sleep n k = Some k'" "sys_ok idle k'" "call_frame {} t k k'"
      using rt_thread_sleep_sys[OF c n] by blast
    show ?thesis
      by (rule call_safe_quiet[OF s, of _ "Some In_delay", OF _ y(2,3)]) (use y(1) Delay in \<open>simp_all add: rt_thread_delay_def\<close>)
  qed (use l sem_call_safe[OF R s c] mutex_call_safe[OF R s c] event_call_safe[OF R s c] mb_call_safe[OF R s c]
    thread_resume_safe[OF s c] in \<open>simp_all del: run_call.simps\<close>)
qed

lemma resume_call_safe:
  assumes R: "reg_ok R" and s: "sys_inv R idle k" and t: "current k = Some t" "t \<noteq> idle"
    and p: "pending_ok R c" "recent (tick k) c"
  shows "call_safe R idle t k (resume_call t c k)"
proof -
  have c: "calls idle t k" by (rule sys_inv_calls[OF s t])
  note d = callsD[OF c]
  show ?thesis
  proof (cases c)
    case In_delay
    let ?k = "snd (rt_thread_sleep_cont t k)"
    have fr: "call_frame {} t k ?k" by (simp add: rt_thread_sleep_cont_def)
    have "sys_ok idle ?k"
      by (rule sys_ok_frame[OF c fr])
        (use d(1,2,3) wf_kernel_set_error[OF d(1)] in \<open>simp_all add: rt_thread_sleep_cont_def run_ready_def tstat_def\<close>)
    then show ?thesis using call_safe_quiet[OF s, of _ None, OF _ _ fr] In_delay by simp
  next
    case (In_mb_send a v w)
    then show ?thesis using p mb_call_safe(3)[OF R s c] by (cases w) (simp del: resume_call.simps)
  next
    case (In_mb_recv a w)
    then show ?thesis using p mb_call_safe(4)[OF R s c] by (cases w) (simp del: resume_call.simps)
  next
    case (In_mutex_take a time)
    then show ?thesis using p mutex_call_safe(3)[OF R s c] by (simp del: resume_call.simps)
  qed (use s in \<open>simp_all add: call_safe_def\<close>)
qed

section \<open>The running system\<close>

lemma system_okD:
  assumes "system_ok R idle s"
  shows "sys_inv R idle (sys_kernel s)" "sys_pending s t = Some p \<Longrightarrow> pending_ok R p"
  using assms by (auto simp: system_ok_def split: option.splits dest: spec[of _ t])

lemma system_ok_upd:
  "system_ok R idle s \<Longrightarrow> sys_inv R idle k' \<Longrightarrow> pendings_ok R p \<Longrightarrow>
   system_ok R idle \<lparr>sys_kernel = k', sys_pending = (sys_pending s)(t := p)\<rparr>"
  by (auto simp: system_ok_def)

lemma system_step_ok:
  assumes R: "reg_ok R" and cb: "callback_ok cb" "callback_total cb" "callback_sys R idle cb"
    and s: "system_ok R idle s" and st: "system_step R idle cb s s'"
  shows "system_ok R idle s'"
  using st
proof (cases rule: system_step.cases)
  case (call t c p k')
  then show ?thesis
    using run_call_safe[OF R system_okD(1)[OF s] call(2,3,5)] system_ok_upd[OF s] by (auto simp: call_safe_def)
next
  case (resume t c p k')
  then show ?thesis
    using resume_call_safe[OF R system_okD(1)[OF s] resume(2,3) system_okD(2)[OF s resume(4)]] system_ok_upd[OF s]
    by (auto simp: call_safe_def)
next
  case (clock_tick k')
  then show ?thesis using SysTick_Handler_sys[OF R cb system_okD(1)[OF s]] s by (auto simp: system_ok_def)
qed

inductive reachable :: "registry \<Rightarrow> nat \<Rightarrow> callback \<Rightarrow> system \<Rightarrow> system \<Rightarrow> bool"
  for R :: registry and idle :: nat and cb :: callback and s0 :: system where
  start: "reachable R idle cb s0 s0"
| move: "reachable R idle cb s0 s \<Longrightarrow> system_step R idle cb s s' \<Longrightarrow> reachable R idle cb s0 s'"

lemma reachable_ok:
  assumes "reachable R idle cb s0 s" "reg_ok R" "callback_ok cb" "callback_total cb" "callback_sys R idle cb"
    "system_ok R idle s0"
  shows "system_ok R idle s"
  using assms(1) by induction (use assms system_step_ok in blast)+

section \<open>The sample state is a system state\<close>

definition sample_reg :: registry where
  "sample_reg = \<lparr>reg_sems = {100}, reg_mutexes = {101}, reg_events = {102}, reg_mbs = {103}, reg_timers = {104}, reg_resumed = {3}\<rparr>"

definition no_callback :: callback where
  "no_callback f p k = Some k"

definition sample_system :: system where
  "sample_system = \<lparr>sys_kernel = sample, sys_pending = (\<lambda>_. None)\<rparr>"

lemma sample_sys_ok: "sys_ok 1 sample"
  using sample_wf[of 1] sample_live by (simp add: sys_ok_def run_ready_def sample_tstat) (simp add: sample_def)

lemma sample_calls: "calls 1 2 sample"
  using sample_sys_ok by (simp add: calls_def) (simp add: sample_def)

lemma sample_flag: "ipc_flag a sample = RT_IPC_FLAG_FIFO"
  by (simp add: ipc_flag_def sample_def)

lemma sample_reg_ok: "reg_ok sample_reg"
  by (simp add: reg_ok_def reg_all_def sample_reg_def)

lemma sample_objs:
  "sem_inv a sample" "mutex_inv a sample" "event_inv a sample" "mb_ok a sample"
  by (simp_all add: sem_inv_def mutex_inv_def event_inv_def mb_ok_def mb_inv_def stacks_apart_def apart_def sample_simps)

lemma sample_system_ok: "system_ok sample_reg 1 sample_system"
proof -
  have "objs_ok sample_reg sample"
    using sample_objs sample_flag by (simp add: objs_ok_def obj_ok_def user_timers_def) (simp add: sample_def)
  then show ?thesis using sample_sys_ok by (simp add: system_ok_def sys_inv_def sample_system_def)
qed

lemma no_callback_ok: "callback_ok no_callback" "callback_total no_callback" "callback_sys R idle no_callback"
  by (simp_all add: callback_ok_def callback_total_def callback_sys_def no_callback_def)

text \<open>The sample state with a message queue of one free slot of 8 bytes at 105, and with memory pools
  of blocks of 8 bytes: one used and one free block at 106, one used block at 107.\<close>

definition sample_mq :: kernel where
  "sample_mq = upd_ram (store32 0x5000 0) (upd_mq 105 (\<lambda>m. m\<lparr>mq_pool := 0x5000, mq_msg_size := 8, max_msgs := 1,
     msg_queue_free := 0x5000\<rparr>) sample)"

definition sample_mp :: kernel where
  "sample_mp = upd_ram (\<lambda>m. store32 0x600C 0 (store32 0x6000 106 (store32 0x7000 107 m)))
     (upd_mp 106 (\<lambda>m. m\<lparr>start_address := 0x6000, mp_size := 24, block_size := 8, block_list := 0x600C,
        block_total_count := 2, block_free_count := 1\<rparr>)
     (upd_mp 107 (\<lambda>m. m\<lparr>start_address := 0x7000, mp_size := 12, block_size := 8, block_total_count := 1\<rparr>) sample))"

lemma sample_calls_ram:
  assumes s: "same_but_ram sample k" and c: "confined 0x5000 0x3000 (kram sample) (kram k)" and w: "wf_kernel 1 k"
  shows "calls 1 2 k"
proof -
  have "stacks_apart 0x5000 0x3000 sample" by (auto simp: stacks_apart_def apart_def sample_simps)
  then have "live k" by (rule live_confined[OF sample_live s _ c])
  moreover have "run_ready k" using s callsD(3)[OF sample_calls] by (simp add: same_but_ram_def run_ready_def tstat_def)
  ultimately have "sys_ok 1 k" using sys_ok_frame[OF sample_calls call_frame_same[OF s] w] by blast
  then show ?thesis using s callsD(4)[OF sample_calls] by (simp add: calls_def same_but_ram_def)
qed

lemma sample_mq_calls: "calls 1 2 sample_mq"
proof (rule sample_calls_ram)
  show "same_but_ram sample sample_mq" by (simp add: sample_mq_def same_but_ram_def upd_ram_def upd_mq_def)
  show "confined 0x5000 0x3000 (kram sample) (kram sample_mq)" by (auto simp: sample_mq_def confined_def store32_def)
  show "wf_kernel 1 sample_mq" by (simp only: sample_mq_def wf_kernel_ram wf_kernel_upd_mq sample_wf)
qed

lemma sample_mp_calls: "calls 1 2 sample_mp"
proof (rule sample_calls_ram)
  show "same_but_ram sample sample_mp" by (simp add: sample_mp_def same_but_ram_def upd_ram_def upd_mp_def)
  show "confined 0x5000 0x3000 (kram sample) (kram sample_mp)" by (auto simp: sample_mp_def confined_def store32_def)
  show "wf_kernel 1 sample_mp" by (simp only: sample_mp_def wf_kernel_ram wf_kernel_upd_mp sample_wf)
qed

lemma sample_mq_ok: "mq_ok 105 [] [0x5000] sample_mq"
proof -
  have "mq_rep 105 [] [0x5000] sample_mq"
    by (simp add: mq_rep_def sample_mq_def msg_step_def slot_def Let_def) (simp add: sample_def)
  moreover have "stacks_apart 0x5000 12 sample_mq"
    by (auto simp: sample_mq_def) (auto simp: stacks_apart_def apart_def sample_simps)
  moreover have "mq_pool (mqueues sample_mq 105) = 0x5000" "unat (max_msgs (mqueues sample_mq 105)) = 1"
    "msg_step (mqueues sample_mq 105) = 12" by (simp_all add: sample_mq_def msg_step_def)
  ultimately show ?thesis by (simp add: mq_ok_def)
qed

lemma sample_mp_rep:
  "mp_rep 106 [0x600C] sample_mp" "mp_used 106 [0x600C] sample_mp = {0x6004}"
  "mp_rep 107 [] sample_mp" "mp_used 107 [] sample_mp = {0x7004}"
proof -
  have m: "start_address (mempools sample_mp 106) = 0x6000" "block_size (mempools sample_mp 106) = 8"
    "block_total_count (mempools sample_mp 106) = 2" "block_list (mempools sample_mp 106) = 0x600C"
    "block_free_count (mempools sample_mp 106) = 1"
    "start_address (mempools sample_mp 107) = 0x7000" "block_size (mempools sample_mp 107) = 8"
    "block_total_count (mempools sample_mp 107) = 1" "block_list (mempools sample_mp 107) = 0"
    "block_free_count (mempools sample_mp 107) = 0"
    by (simp_all add: sample_mp_def) (simp_all add: sample_def)
  have ram: "load32 0x600C (kram sample_mp) = 0" "load32 0x6000 (kram sample_mp) = 106"
    "load32 0x7000 (kram sample_mp) = 107"
    by (simp_all add: sample_mp_def load32_store32_other)
  have s: "slot 0x6000 12 2 x \<longleftrightarrow> x = 0x6000 \<or> x = 0x600C" "slot 0x7000 12 1 x \<longleftrightarrow> x = 0x7000" for x
    by (auto simp: slot_def numeral_2_eq_2 less_Suc_eq intro: exI[of _ "Suc 0"])
  show "mp_rep 106 [0x600C] sample_mp" "mp_rep 107 [] sample_mp"
    by (auto simp: mp_rep_def Let_def m ram s s(2)[simplified])
  show "mp_used 106 [0x600C] sample_mp = {0x6004}" "mp_used 107 [] sample_mp = {0x7004}"
    by (auto simp: mp_used_def Let_def m s s(2)[simplified])
qed

lemma sample_mp_ok: "mp_ok 106 [0x600C] sample_mp" "mp_ok 107 [] sample_mp"
proof -
  have "stacks_apart 0x6000 24 sample" "stacks_apart 0x7000 12 sample"
    by (auto simp: stacks_apart_def apart_def sample_simps)
  then have "stacks_apart 0x6000 24 sample_mp" "stacks_apart 0x7000 12 sample_mp"
    by (simp_all add: sample_mp_def)
  moreover have "mp_waiters_ok 106 sample_mp" "mp_waiters_ok 107 sample_mp"
    by (simp_all add: mp_waiters_ok_def sample_mp_def) (simp_all add: sample_def)
  moreover have "start_address (mempools sample_mp 106) = 0x6000" "block_size (mempools sample_mp 106) = 8"
    "block_total_count (mempools sample_mp 106) = 2"
    "start_address (mempools sample_mp 107) = 0x7000" "block_size (mempools sample_mp 107) = 8"
    "block_total_count (mempools sample_mp 107) = 1"
    by (simp_all add: sample_mp_def)
  ultimately show "mp_ok 106 [0x600C] sample_mp" "mp_ok 107 [] sample_mp" by (simp_all add: mp_ok_def sample_mp_rep)
qed

end
