(* ===== verification/Sleep.thy ===== *)
theory Sleep
  imports System
begin

text \<open>
  How long \<^verbatim>\<open>rt_thread_delay\<close> lasts in the running system. A thread that nobody resumes, neither with
  \<^verbatim>\<open>rt_thread_resume\<close> nor from a timer, sleeps until the tick it asked for and is ready at that tick.
\<close>

section \<open>Sleeping threads and the tick interrupt\<close>

text \<open>The timeout functions of the application leave the thread \<open>u\<close> alone: they may wake and suspend
  other threads, but they do not resume \<open>u\<close> while it sleeps and do not suspend it while it is ready.\<close>

definition callback_leaves :: "nat \<Rightarrow> callback \<Rightarrow> bool" where
  "callback_leaves u cb \<longleftrightarrow> (\<forall>f p k k'. cb f p k = Some k' \<longrightarrow>
     (\<forall>tmo. asleep u tmo k \<longrightarrow> asleep u tmo k') \<and> (tstat k u = RT_THREAD_READY \<longrightarrow> tstat k' u = RT_THREAD_READY))"

lemma rt_thread_timeout_thread:
  assumes w: "wf_kernel lo k" and r: "rt_thread_timeout t k = Some k'"
  shows "tstat k' t = RT_THREAD_READY" "u \<noteq> t \<Longrightarrow> thread k' u = thread k u"
proof -
  let ?k = "tl_unlink t (upd_thread t (\<lambda>th. th\<lparr>error := - RT_ETIMEOUT\<rparr>) k)"
  obtain k1 where k1: "rt_schedule_insert_thread t ?k = Some k1" and k': "rt_schedule k1 = Some k'"
    using r by (auto simp: rt_thread_timeout_def bind_eq_Some_conv)
  have "thread k' = thread k1" using rt_schedule_frame[OF k'] cpu_frameD(1) by blast
  then show "tstat k' t = RT_THREAD_READY" "u \<noteq> t \<Longrightarrow> thread k' u = thread k u"
    using k1 by (auto simp: rt_schedule_insert_thread_def tl_insert_before_def tl_push_def tl_set_eq tl_unlink_eq
        tstat_def bind_eq_Some_conv Let_def)
qed

lemma asleep_cong:
  assumes "asleep u tmo k" "thread k' u = thread k u" "timers k' (TimerOf u) = timers k (TimerOf u)"
    "TimerOf u \<in> set (timer_list k')"
  shows "asleep u tmo k'"
  using assms by (simp add: asleep_def tstat_def)

lemma flag_off_frame:
  "thread (set_timer_flag i f k) = thread k" "timers (set_timer_flag i f k) = timers k"
  "timer_list (set_timer_flag i f k) = timer_list k" "tick (set_timer_flag i f k) = tick k"
  by (simp_all add: set_timer_flag_def upd_object_def)

lemma timer_fire_asleep:
  assumes w: "wf_kernel 0 k" and cb: "callback_leaves u cb" and i: "i \<in> set (timer_list k)"
    and r: "timer_fire cb i k = Some k'"
  shows "tstat k u = RT_THREAD_READY \<Longrightarrow> tstat k' u = RT_THREAD_READY"
    "i = TimerOf u \<Longrightarrow> tstat k' u = RT_THREAD_READY"
    "i \<noteq> TimerOf u \<Longrightarrow> asleep u tmo k \<Longrightarrow> asleep u tmo k'"
proof -
  let ?k1 = "rt_timer_remove i k"
  obtain k2 where k2: "call_timeout cb i ?k1 = Some k2"
    and k': "k' = set_timer_flag i flag_off k2 \<or> k' = timer_started i (set_timer_flag i flag_off k2)"
    using r by (auto simp: timer_fire_def bind_eq_Some_conv rt_timer_start_eq split: if_splits)
  have w1: "wf_kernel 0 ?k1" by (rule wf_kernel_timer_remove[OF w])
  have th: "thread k' = thread k2" using k' by (auto simp: flag_off_frame)
  have c: "(tstat k u = RT_THREAD_READY \<longrightarrow> tstat k2 u = RT_THREAD_READY) \<and>
    (i = TimerOf u \<longrightarrow> tstat k2 u = RT_THREAD_READY) \<and> (i \<noteq> TimerOf u \<longrightarrow> asleep u tmo k \<longrightarrow> asleep u tmo k2)"
    using w1 k2
  proof (cases rule: call_timeout_cases)
    case (thread t)
    note f = rt_thread_timeout_frame[OF thread(2)] and h = rt_thread_timeout_thread[OF w1 thread(2)]
    have "asleep u tmo k2" if "u \<noteq> t" "asleep u tmo k"
      using that(2) h(2)[OF that(1)] f thread(1) that by (intro asleep_cong[OF that(2)]) (auto simp: asleep_def)
    moreover have "tstat k2 u = RT_THREAD_READY" if "tstat k u = RT_THREAD_READY"
      using h that by (cases "u = t") (simp_all add: tstat_def)
    ultimately show ?thesis using thread(1) h(1) by (cases "u = t") simp_all
  next
    case (user f)
    have "timeout_func (timers k (TimerOf v)) = Thread_timeout" for v
      using wf_kernelD(2)[OF w] by (simp add: wf_timers_def timer_fns_def)
    then have "i \<noteq> TimerOf v" for v using user(1) by auto
    moreover have "asleep u tmo k \<longrightarrow> asleep u tmo ?k1" if "i \<noteq> TimerOf u"
      using that by (auto simp: asleep_def tstat_def)
    moreover have "tstat ?k1 u = tstat k u" by (simp add: tstat_def)
    moreover have "asleep u tmo ?k1 \<longrightarrow> asleep u tmo k2" "tstat ?k1 u = RT_THREAD_READY \<longrightarrow> tstat k2 u = RT_THREAD_READY"
      using cb user(2) unfolding callback_leaves_def by blast+
    ultimately show ?thesis by simp
  qed
  show "tstat k u = RT_THREAD_READY \<Longrightarrow> tstat k' u = RT_THREAD_READY"
    "i = TimerOf u \<Longrightarrow> tstat k' u = RT_THREAD_READY" using c th by (simp_all add: tstat_def)
  show "asleep u tmo k'" if "i \<noteq> TimerOf u" "asleep u tmo k"
  proof -
    have a: "asleep u tmo k2" using c that by blast
    then have m: "TimerOf u \<in> set (timer_list k2)" by (simp add: asleep_def)
    have "asleep u tmo (set_timer_flag i flag_off k2)" "asleep u tmo (timer_started i (set_timer_flag i flag_off k2))"
      by (rule asleep_cong[OF a]; use m that(1) in \<open>simp add: flag_off_frame started_other\<close>)+
    then show ?thesis using k' by auto
  qed
qed

lemma timer_check_loop_asleep:
  assumes cb: "callback_ok cb" "callback_total cb" "callback_leaves u cb"
    and "wf_kernel 0 k" "live k" "timer_check_loop cb (tick k) k = Some k'"
  shows "(tstat k u = RT_THREAD_READY \<longrightarrow> tstat k' u = RT_THREAD_READY) \<and>
    (asleep u tmo k \<longrightarrow> asleep u tmo k' \<or> tstat k' u = RT_THREAD_READY) \<and>
    (asleep u tmo k \<longrightarrow> 2 \<le> unat (tmo - (tick k - 1)) \<longrightarrow> asleep u tmo k')"
  using assms(4-)
proof (induction "expired_count k" arbitrary: k rule: less_induct)
  case less
  show ?case
  proof (cases "timer_list k")
    case Nil
    then show ?thesis using less.prems by (simp add: timer_check_loop.simps)
  next
    case (Cons i l)
    show ?thesis
    proof (cases "timer_expired (tick k) i k")
      case False
      then show ?thesis using less.prems Cons by (simp add: timer_check_loop.simps)
    next
      case True
      have i: "i \<in> set (timer_list k)" using Cons by simp
      obtain k1 where k1: "timer_fire cb i k = Some k1" "live k1" "expired_count k1 < expired_count k"
        using timer_fire_progress[OF less.prems(1,2) cb(1,2) i True] by blast
      have w1: "wf_kernel 0 k1" "tick k1 = tick k" using timer_fire_ok[OF less.prems(1) cb(1) k1(1)] by simp_all
      have "timer_check_loop cb (tick k1) k1 = Some k'"
        using less.prems(3) True Cons k1(1) by (subst (asm) timer_check_loop.simps) (simp add: rt_tick_get_def)
      note IH = less.hyps[OF k1(3) w1(1) k1(2) this]
      note f = timer_fire_asleep[OF less.prems(1) cb(3) i k1(1)]
      have "i \<noteq> TimerOf u" if "asleep u tmo k" "2 \<le> unat (tmo - (tick k - 1))"
      proof
        assume iu: "i = TimerOf u"
        have "tleft (tick k - 1) (timers k) i \<le> 1"
          using True timer_expired_tleft[OF timers_bound[OF less.prems(1) i]] by simp
        then show False using that iu by (simp add: tleft_def asleep_def)
      qed
      then show ?thesis using IH f w1(2) by metis
    qed
  qed
qed

lemma rt_tick_increase_asleep:
  assumes cb: "callback_ok cb" "callback_total cb" "callback_leaves u cb" and w: "wf_kernel 1 k" and l: "live k"
    and rr: "run_ready k" and r: "rt_tick_increase cb k = Some k'" and a: "asleep u tmo k"
  shows "asleep u tmo k' \<or> tstat k' u = RT_THREAD_READY" "2 \<le> unat (tmo - tick k) \<Longrightarrow> asleep u tmo k'"
proof -
  obtain t where t: "current k = Some t" using l by (auto simp: live_def)
  let ?k1 = "k\<lparr>tick := tick k + 1\<rparr>"
  let ?k2 = "upd_thread t (\<lambda>th. th\<lparr>remaining_tick := remaining_tick th - 1\<rparr>) ?k1"
  let ?k3 = "upd_thread t (\<lambda>th. th\<lparr>remaining_tick := init_tick th\<rparr>) ?k2"
  have w2: "wf_kernel 0 ?k2" by (rule wf_kernel_thread_fields[OF wf_kernel_tick[OF w]]) simp_all
  have w3: "wf_kernel 0 ?k3" by (rule wf_kernel_thread_fields[OF w2]) simp_all
  have l2: "live ?k2" and l3: "live ?k3"
    using l by (auto simp: live_def stacks_ok_def stack_ok_def kram_def periods_ok_def timer_flag_def
        tstat_def Let_def)
  have a2: "asleep u tmo ?k2" and a3: "asleep u tmo ?k3" using a by (auto simp: asleep_def tstat_def)
  have "rt_timer_check cb ?k2 = Some k' \<or>
    (\<exists>e k4. rt_thread_yield ?k3 = Some (e, k4) \<and> rt_timer_check cb k4 = Some k')"
    using r t by (auto simp: rt_tick_increase_def rt_thread_self_def Let_def bind_eq_Some_conv split: if_splits)
  then have "\<exists>k5. rt_timer_check cb k5 = Some k' \<and> wf_kernel 0 k5 \<and> live k5 \<and> asleep u tmo k5 \<and> tick k5 = tick k + 1"
  proof (elim disjE exE conjE)
    assume "rt_timer_check cb ?k2 = Some k'"
    then show ?thesis using w2 l2 a2 by (intro exI[of _ ?k2]) simp
  next
    fix e k4
    assume y: "rt_thread_yield ?k3 = Some (e, k4)" and c: "rt_timer_check cb k4 = Some k'"
    have rr3: "run_ready ?k3" using rr by (simp add: run_ready_def tstat_def)
    have k4: "wf_kernel 0 k4 \<and> live k4 \<and> call_frame {} (Suc u) ?k3 k4"
      using rt_thread_yield_sys[OF w3 l3 rr3, of "{}" "Suc u"] y by auto
    then have "asleep u tmo k4" using a3 by (auto simp: call_frame_def keeps_asleep_def)
    moreover have "tick k4 = tick k + 1" using k4 by (simp add: call_frame_def)
    ultimately show ?thesis using c k4 by blast
  qed
  then obtain k5 where k5: "timer_check_loop cb (tick k5) k5 = Some k'" "wf_kernel 0 k5" "live k5" "asleep u tmo k5"
    "tick k5 = tick k + 1" by (auto simp: rt_timer_check_def rt_tick_get_def)
  show "asleep u tmo k' \<or> tstat k' u = RT_THREAD_READY" "2 \<le> unat (tmo - tick k) \<Longrightarrow> asleep u tmo k'"
    using timer_check_loop_asleep[OF cb k5(2,3,1), of tmo] k5(4,5) by simp_all
qed

lemma SysTick_Handler_asleep:
  assumes R: "reg_ok R" and cb: "callback_ok cb" "callback_total cb" "callback_sys R idle cb" "callback_leaves u cb"
    and s: "sys_inv R idle k" and a: "asleep u tmo k" and r: "SysTick_Handler cb k = Some k'"
  shows "2 \<le> unat (tmo - tick k) \<Longrightarrow> asleep u tmo k'" "tmo = tick k + 1 \<Longrightarrow> tstat k' u = RT_THREAD_READY"
proof -
  have s': "sys_ok idle k" using s by (simp add: sys_inv_def)
  note d = sys_okD[OF s']
  let ?k = "rt_interrupt_enter k"
  have w: "wf_kernel 1 ?k" and l: "live ?k" using d by (simp_all add: rt_interrupt_enter_def nest_frame)
  have rr: "run_ready ?k" using d(3) by (simp add: rt_interrupt_enter_def run_ready_def tstat_def)
  have ak: "asleep u tmo ?k" using a by (simp add: rt_interrupt_enter_def asleep_def tstat_def)
  obtain k1 where k1: "rt_tick_increase cb ?k = Some k1" and k': "k' = rt_interrupt_leave k1"
    using r by (auto simp: SysTick_Handler_def bind_eq_Some_conv)
  note i = rt_tick_increase_asleep[OF cb(1,2,4) w l rr k1 ak]
  have w1: "wf_kernel 2 k1" "tick k1 = tick k + 1"
    using rt_tick_increase_ok[OF w cb(1) k1] by (simp_all add: rt_interrupt_enter_def)
  show "asleep u tmo k'" if "2 \<le> unat (tmo - tick k)"
    using i(2) that by (simp add: k' rt_interrupt_leave_def rt_interrupt_enter_def asleep_def tstat_def)
  show "tstat k' u = RT_THREAD_READY" if t: "tmo = tick k + 1"
  proof -
    have "\<not> asleep u tmo k1"
    proof
      assume "asleep u tmo k1"
      then have "TimerOf u \<in> set (timer_list k1)" "timeout_tick (timers k1 (TimerOf u)) = tmo" by (simp_all add: asleep_def)
      then have "2 \<le> unat (tmo - (tick k1 - 1))"
        using wf_kernelD(2)[OF w1(1)] by (auto simp: wf_timers_def tleft_def)
      then show False using t w1(2) by simp
    qed
    then show ?thesis using i(1) by (simp add: k' rt_interrupt_leave_def tstat_def)
  qed
qed

section \<open>Runs of the system\<close>

text \<open>A run, with the number of ticks in it.\<close>

inductive sys_run :: "registry \<Rightarrow> nat \<Rightarrow> callback \<Rightarrow> system \<Rightarrow> nat \<Rightarrow> system \<Rightarrow> bool"
  for R :: registry and idle :: nat and cb :: callback and s0 :: system where
  stay: "sys_run R idle cb s0 0 s0"
| quiet: "sys_run R idle cb s0 n s \<Longrightarrow> system_step R idle cb s s' \<Longrightarrow>
    tick (sys_kernel s') = tick (sys_kernel s) \<Longrightarrow> sys_run R idle cb s0 n s'"
| ticks: "sys_run R idle cb s0 n s \<Longrightarrow> system_step R idle cb s s' \<Longrightarrow>
    tick (sys_kernel s') = tick (sys_kernel s) + 1 \<Longrightarrow> sys_run R idle cb s0 (Suc n) s'"

lemma asleep_not_current:
  assumes "sys_inv R idle k" "asleep u tmo k"
  shows "current k \<noteq> Some u"
proof -
  have "run_ready k" using assms(1) sys_okD(3) by (auto simp: sys_inv_def)
  then show ?thesis using assms(2) by (auto simp: run_ready_def asleep_def)
qed

lemma system_step_asleep:
  assumes R: "reg_ok R" and cb: "callback_ok cb" "callback_total cb" "callback_sys R idle cb" "callback_leaves u cb"
    and u: "u \<notin> reg_resumed R"
    and s: "system_ok R idle s" and st: "system_step R idle cb s s'" and a: "asleep u tmo (sys_kernel s)"
  shows "tick (sys_kernel s') = tick (sys_kernel s) \<Longrightarrow> asleep u tmo (sys_kernel s')"
    "tick (sys_kernel s') = tick (sys_kernel s) + 1 \<Longrightarrow> SysTick_Handler cb (sys_kernel s) = Some (sys_kernel s')"
proof -
  note i = system_okD(1)[OF s]
  have n: "current (sys_kernel s) \<noteq> Some u" by (rule asleep_not_current[OF i a])
  have ne: "x \<noteq> x + 1" for x :: u32 by simp
  have "asleep u tmo (sys_kernel s') \<and> tick (sys_kernel s') = tick (sys_kernel s) \<or>
    SysTick_Handler cb (sys_kernel s) = Some (sys_kernel s') \<and> tick (sys_kernel s') = tick (sys_kernel s) + 1"
    using st
  proof (cases rule: system_step.cases)
    case (call t c p k')
    then have "asleep u tmo k'" "tick k' = tick (sys_kernel s)"
      using n a u run_call_safe[OF R i call(2,3,5)] by (auto simp: call_safe_def)
    then show ?thesis using call(1) by simp
  next
    case (resume t c p k')
    then have "asleep u tmo k'" "tick k' = tick (sys_kernel s)"
      using n a u resume_call_safe[OF R i resume(2,3) system_okD(2)[OF s resume(4)] resume(5)] by (auto simp: call_safe_def)
    then show ?thesis using resume(1) by simp
  next
    case (clock_tick k')
    then show ?thesis using SysTick_Handler_sys[OF R cb(1-3) i] by auto
  qed
  then show "tick (sys_kernel s') = tick (sys_kernel s) \<Longrightarrow> asleep u tmo (sys_kernel s')"
    "tick (sys_kernel s') = tick (sys_kernel s) + 1 \<Longrightarrow> SysTick_Handler cb (sys_kernel s) = Some (sys_kernel s')"
    using ne by fastforce+
qed

lemma sys_run_asleep:
  assumes R: "reg_ok R" and cb: "callback_ok cb" "callback_total cb" "callback_sys R idle cb" "callback_leaves u cb"
    and u: "u \<notin> reg_resumed R"
    and s: "system_ok R idle s" and a: "asleep u (tick (sys_kernel s) + n) (sys_kernel s)" and n: "n < 0x7FFFFFFF"
    and r: "sys_run R idle cb s m s'" and m: "m < unat n"
  shows "system_ok R idle s' \<and> asleep u (tick (sys_kernel s) + n) (sys_kernel s') \<and>
    tick (sys_kernel s') = tick (sys_kernel s) + of_nat m"
  using r m
proof (induction)
  case stay
  then show ?case using s a by simp
next
  case (quiet m s1 s2)
  then show ?case
    using system_step_ok[OF R cb(1-3) _ quiet.hyps(2)] system_step_asleep(1)[OF R cb u _ quiet.hyps(2)] by auto
next
  case (ticks m s1 s2)
  have IH: "system_ok R idle s1" "asleep u (tick (sys_kernel s) + n) (sys_kernel s1)"
    "tick (sys_kernel s1) = tick (sys_kernel s) + of_nat m" using ticks by auto
  have t: "SysTick_Handler cb (sys_kernel s1) = Some (sys_kernel s2)"
    by (rule system_step_asleep(2)[OF R cb u IH(1) ticks.hyps(2) IH(2) ticks.hyps(3)])
  have "m < 2 ^ 32" using ticks.prems unsigned_less[of n, where ?'a = nat] by simp
  then have mm: "unat (of_nat m :: u32) = m" by (simp add: unat_of_nat)
  have "unat (tick (sys_kernel s) + n - tick (sys_kernel s1)) = unat n - m"
    using ticks.prems unat_sub[of "of_nat m" n] by (simp add: IH(3) word_le_nat_alt mm)
  then have "2 \<le> unat (tick (sys_kernel s) + n - tick (sys_kernel s1))" using ticks.prems by simp
  then have "asleep u (tick (sys_kernel s) + n) (sys_kernel s2)"
    using SysTick_Handler_asleep(1)[OF R cb system_okD(1)[OF IH(1)] IH(2) t] by blast
  then show ?case
    using system_step_ok[OF R cb(1-3) IH(1) ticks.hyps(2)] ticks.hyps(3) IH(3) by simp
qed

lemma rt_thread_sleep_asleep:
  assumes w: "wf_kernel 1 k" and t: "current k = Some t" "tstat k t = RT_THREAD_READY"
    and r: "rt_thread_sleep n k = Some k'"
  shows "asleep t (tick k + n) k'"
proof -
  let ?k1 = "thread_suspended t k"
  let ?k2 = "upd_timer (TimerOf t) (\<lambda>t. t\<lparr>tm_init_tick := n\<rparr>) ?k1"
  have s: "rt_thread_suspend t k = Some (RT_EOK, ?k1)"
    using rt_thread_suspend_eq[OF wf_kernelD(1)[OF w], of t] t by simp
  have k': "rt_schedule (timer_started (TimerOf t) ?k2) = Some k'"
    using r t(1) s by (auto simp: rt_thread_sleep_def rt_thread_self_def rt_timer_control_def rt_timer_start_eq
        bind_eq_Some_conv split: if_splits)
  have "tick ?k1 = tick k" by (simp add: thread_suspended_def sched_removed_def)
  then have "asleep t (tick k + n) (timer_started (TimerOf t) ?k2)"
    using tstat_suspended[of t k]
    by (simp add: asleep_def tstat_def thread_suspended_thread) (simp add: timer_started_def upd_timer_def Let_def)
  then show ?thesis
    using rt_schedule_frame[OF k'] cpu_frameD[of "timer_started (TimerOf t) ?k2" k']
    by (auto simp: asleep_def tstat_def)
qed

end
