(* ===== verification/Heap.thy ===== *)
theory Heap
  imports Mem MemChain
begin

text \<open>
  The correctness of the memory manager of \<^verbatim>\<open>src/mem.c\<close>. The headers form a chain of blocks from
  offset 0 to the end block; \<open>hblocks\<close> relates the headers to the list of block offsets, and
  \<open>wf_heap\<close> is the heap's invariant: aligned blocks that tile the heap, no two free blocks in a row,
  and \<^verbatim>\<open>lfree\<close> at a free block. \<open>heap_allocs\<close> is the set of regions that are handed out. Every
  operation is shown to return, to keep the invariant and to change that set as it should.
\<close>

fun hblocks :: "(nat \<Rightarrow> heap_mem) \<Rightarrow> nat \<Rightarrow> nat \<Rightarrow> nat list \<Rightarrow> nat \<Rightarrow> bool" where
  "hblocks B q p [] e \<longleftrightarrow> p = e"
| "hblocks B q p (x # xs) e \<longleftrightarrow>
     p = x \<and> 4 dvd x \<and> hprev (B x) = q \<and> x + 16 \<le> hnext (B x) \<and> hblocks B x (hnext (B x)) xs e"

fun no_holes :: "(nat \<Rightarrow> heap_mem) \<Rightarrow> nat list \<Rightarrow> bool" where
  "no_holes B (x # y # xs) \<longleftrightarrow> (used (B x) \<noteq> 0 \<or> used (B y) \<noteq> 0) \<and> no_holes B (y # xs)"
| "no_holes B _ \<longleftrightarrow> True"

definition used_total :: "(nat \<Rightarrow> heap_mem) \<Rightarrow> nat list \<Rightarrow> nat" where
  "used_total B xs = (\<Sum>x\<leftarrow>xs. if used (B x) = 0 then 0 else hnext (B x) - x)"

definition heap_frame :: "heap \<Rightarrow> bool" where
  "heap_frame h \<longleftrightarrow> heap_end h = mem_size_aligned h + 12 \<and> 12 \<le> mem_size_aligned h \<and> 4 dvd heap_end h \<and>
     4 dvd heap_ptr h \<and> heap_ptr h + heap_end h + 12 < 2 ^ 32"

definition heap_chain :: "heap \<Rightarrow> nat list \<Rightarrow> bool" where
  "heap_chain h xs \<longleftrightarrow> heap_frame h \<and> hblocks (blk h) 0 0 xs (heap_end h) \<and> used (blk h (heap_end h)) \<noteq> 0 \<and>
     (\<forall>x\<in>set xs. magic (blk h x) = HEAP_MAGIC) \<and> used_mem h = used_total (blk h) xs"

definition lfree_ok :: "heap \<Rightarrow> nat list \<Rightarrow> bool" where
  "lfree_ok h xs \<longleftrightarrow> lfree h = heap_end h \<or> lfree h \<in> set xs \<and> used (blk h (lfree h)) = 0"

definition wf_heap :: "heap \<Rightarrow> nat list \<Rightarrow> bool" where
  "wf_heap h xs \<longleftrightarrow> heap_chain h xs \<and> no_holes (blk h) xs \<and> lfree_ok h xs"

text \<open>The regions that are handed out, each with its payload size, and the stronger condition that
  \<^verbatim>\<open>lfree\<close> is below every free block.\<close>

definition heap_allocs :: "heap \<Rightarrow> nat list \<Rightarrow> (nat \<times> nat) set" where
  "heap_allocs h xs = (\<lambda>x. (heap_ptr h + x + 12, hnext (blk h x) - x - 12)) ` {x \<in> set xs. used (blk h x) \<noteq> 0}"

definition lfree_lowest :: "heap \<Rightarrow> nat list \<Rightarrow> bool" where
  "lfree_lowest h xs \<longleftrightarrow> (\<forall>x\<in>set xs. used (blk h x) = 0 \<longrightarrow> lfree h \<le> x)"

subsection \<open>Chains of blocks\<close>

lemma hblocks_cong:
  "(\<And>x. x \<in> set xs \<Longrightarrow> hnext (B' x) = hnext (B x) \<and> hprev (B' x) = hprev (B x)) \<Longrightarrow>
   hblocks B' q p xs e = hblocks B q p xs e"
  by (induction xs arbitrary: q p) auto

lemma hblocks_append:
  "hblocks B q p (xs @ ys) e \<longleftrightarrow>
   (\<exists>r. hblocks B q p xs r \<and> hblocks B (last (q # xs)) r ys e)"
  by (induction xs arbitrary: q p) auto

lemma hblocks_le: "hblocks B q p xs e \<Longrightarrow> p \<le> e"
  by (induction xs arbitrary: q p) fastforce+

lemma hblocks_bounds:
  "hblocks B q p xs e \<Longrightarrow> x \<in> set xs \<Longrightarrow> p \<le> x \<and> x + 16 \<le> hnext (B x) \<and> hnext (B x) \<le> e \<and> 4 dvd x"
proof (induction xs arbitrary: q p)
  case (Cons y ys)
  then show ?case using hblocks_le[of B y "hnext (B y)" ys e] by fastforce
qed simp

lemma hblocks_sorted: "hblocks B q p xs e \<Longrightarrow> sorted_wrt (\<lambda>x y. hnext (B x) \<le> y) xs"
proof (induction xs arbitrary: q p)
  case (Cons y ys)
  then show ?case using hblocks_bounds[of B y "hnext (B y)" ys e] by auto
qed simp

lemma hblocks_distinct: "hblocks B q p xs e \<Longrightarrow> distinct xs"
proof (induction xs arbitrary: q p)
  case (Cons y ys)
  then show ?case using hblocks_bounds[of B y "hnext (B y)" ys e y] by auto
qed simp

lemma hblocks_apart:
  assumes h: "hblocks B q p xs e" and "x \<in> set xs" "y \<in> set xs" "x < y"
  shows "hnext (B x) \<le> y"
proof -
  have "sorted_wrt (\<lambda>x y. hnext (B x) \<le> y) xs" by (rule hblocks_sorted[OF h])
  moreover obtain i j where "i < length xs" "j < length xs" "x = xs ! i" "y = xs ! j"
    using assms by (auto simp: in_set_conv_nth)
  ultimately show ?thesis using assms hblocks_bounds[OF h assms(3)]
    by (cases i j rule: linorder_cases) (auto simp: sorted_wrt_iff_nth_less, fastforce)
qed

lemma hblocks_end_unique: "hblocks B q p xs e \<Longrightarrow> hblocks B q' p xs e' \<Longrightarrow> e = e'"
  by (induction xs arbitrary: p q q') auto

lemma hblocks_split:
  assumes "hblocks B q p xs e" "x \<in> set xs"
  obtains us vs where "xs = us @ x # vs" "hblocks B q p us x" "hblocks B (last (q # us)) x (x # vs) e"
proof -
  obtain us vs where xs: "xs = us @ x # vs" using assms(2) by (meson split_list)
  then obtain r where "hblocks B q p us r" "hblocks B (last (q # us)) r (x # vs) e"
    using assms(1) hblocks_append by blast
  then show ?thesis using that xs by simp
qed

lemma no_holes_cong: "(\<And>x. x \<in> set xs \<Longrightarrow> used (B' x) = used (B x)) \<Longrightarrow> no_holes B' xs = no_holes B xs"
  by (induction xs rule: induct_list012) auto

lemma no_holes_Cons:
  "no_holes B (x # ys) \<longleftrightarrow> no_holes B ys \<and> (ys = [] \<or> used (B x) \<noteq> 0 \<or> used (B (hd ys)) \<noteq> 0)"
  by (cases ys) auto

lemma no_holes_append:
  "no_holes B (xs @ ys) \<longleftrightarrow> no_holes B xs \<and> no_holes B ys \<and>
   (xs = [] \<or> ys = [] \<or> used (B (last xs)) \<noteq> 0 \<or> used (B (hd ys)) \<noteq> 0)"
  by (induction xs rule: induct_list012) (auto simp: no_holes_Cons)

lemma used_total_simps [simp]:
  "used_total B [] = 0"
  "used_total B (x # xs) = (if used (B x) = 0 then 0 else hnext (B x) - x) + used_total B xs"
  "used_total B (xs @ ys) = used_total B xs + used_total B ys"
  by (simp_all add: used_total_def)

lemma used_total_cong:
  "(\<And>x. x \<in> set xs \<Longrightarrow> used (B' x) = used (B x) \<and> hnext (B' x) = hnext (B x)) \<Longrightarrow> used_total B' xs = used_total B xs"
  by (induction xs) auto

lemma used_total_le: "hblocks B q p xs e \<Longrightarrow> used_total B xs \<le> e - p"
proof (induction xs arbitrary: q p)
  case (Cons x xs)
  then have "used_total B xs \<le> e - hnext (B x)" "hnext (B x) \<le> e" "x + 16 \<le> hnext (B x)" "p = x"
    using hblocks_le[of B x "hnext (B x)" xs e] by auto
  then show ?case by auto
qed simp

lemma hblocks_relink:
  assumes "hblocks B q p vs e" "\<And>z. z \<in> set vs \<Longrightarrow> hnext (B' z) = hnext (B z)"
    "\<And>z. z \<in> set (tl vs) \<Longrightarrow> hprev (B' z) = hprev (B z)" "vs \<noteq> [] \<Longrightarrow> hprev (B' (hd vs)) = q'"
  shows "hblocks B' q' p vs e"
proof (cases vs)
  case (Cons v vs')
  then have "hblocks B v (hnext (B v)) vs' e" using assms(1) by simp
  moreover have "hblocks B' v (hnext (B v)) vs' e = hblocks B v (hnext (B v)) vs' e"
    by (rule hblocks_cong) (use assms(2,3) Cons in auto)
  ultimately show ?thesis using assms Cons by auto
qed (use assms in simp)

lemma hblocks_middle:
  "hblocks B q p (us @ x # vs) e \<longleftrightarrow>
   hblocks B q p us x \<and> 4 dvd x \<and> hprev (B x) = last (q # us) \<and> x + 16 \<le> hnext (B x) \<and> hblocks B x (hnext (B x)) vs e"
  by (auto simp: hblocks_append)

lemma hblocks_before: "hblocks B q p us x \<Longrightarrow> z \<in> set us \<Longrightarrow> z < x \<and> hnext (B z) \<le> x"
  using hblocks_bounds by fastforce

lemma hblocks_after: "hblocks B q p vs e \<Longrightarrow> z \<in> set vs \<Longrightarrow> p \<le> z \<and> z < e"
  using hblocks_bounds by fastforce

lemma hblocks_hd: "hblocks B q p vs e \<Longrightarrow> p = hd (vs @ [e])"
  by (cases vs) auto

subsection \<open>The frame of a heap\<close>

lemma add32_less: "a + b < 2 ^ 32 \<Longrightarrow> add32 a b = a + b"
  by (simp add: add32_def)

lemma sub32_le:
  assumes "b \<le> a" "a < 2 ^ 32"
  shows "sub32 a b = a - b"
proof -
  have "b mod 2 ^ 32 = b" "a + (2 ^ 32 - b) = (a - b) + 2 ^ 32" "a - b < 2 ^ 32" using assms by simp_all
  then show ?thesis unfolding sub32_def by (simp only: mod_add_self2 mod_less)
qed

lemma heap_frameD:
  assumes "heap_frame h"
  shows "heap_end h = mem_size_aligned h + 12" "12 \<le> mem_size_aligned h" "4 dvd heap_end h" "4 dvd heap_ptr h"
    "heap_ptr h + heap_end h + 12 < 2 ^ 32"
  using assms unfolding heap_frame_def by blast+

lemma heap_chainD:
  assumes "heap_chain h xs"
  shows "heap_frame h" "hblocks (blk h) 0 0 xs (heap_end h)" "used (blk h (heap_end h)) \<noteq> 0"
    "x \<in> set xs \<Longrightarrow> magic (blk h x) = HEAP_MAGIC" "used_mem h = used_total (blk h) xs"
  using assms by (simp_all add: heap_chain_def)

definition same_heap :: "heap \<Rightarrow> heap \<Rightarrow> bool" where
  "same_heap h h' \<longleftrightarrow> heap_ptr h' = heap_ptr h \<and> heap_end h' = heap_end h \<and>
     mem_size_aligned h' = mem_size_aligned h \<and> ram h' = ram h"

lemma same_heap_refl [simp]: "same_heap h h"
  by (simp add: same_heap_def)

lemma same_heap_trans: "same_heap h h' \<Longrightarrow> same_heap h' h'' \<Longrightarrow> same_heap h h''"
  by (simp add: same_heap_def)

lemma same_heap_frame: "same_heap h h' \<Longrightarrow> heap_frame h' = heap_frame h"
  by (simp add: same_heap_def heap_frame_def)

subsection \<open>Merging two free blocks\<close>

definition merge_blocks :: "nat \<Rightarrow> nat \<Rightarrow> heap \<Rightarrow> heap" where
  "merge_blocks x y h =
     upd_blk (hnext (blk h y)) (\<lambda>b. b\<lparr>hprev := x\<rparr>) (upd_blk x (\<lambda>b. b\<lparr>hnext := hnext (blk h y)\<rparr>)
       (if lfree h = y then h\<lparr>lfree := x\<rparr> else h))"

lemma merge_blocks_simps [simp]:
  "same_heap h (merge_blocks x y h)" "used_mem (merge_blocks x y h) = used_mem h"
  "used (blk (merge_blocks x y h) z) = used (blk h z)" "magic (blk (merge_blocks x y h) z) = magic (blk h z)"
  "hnext (blk (merge_blocks x y h) z) = (if z = x then hnext (blk h y) else hnext (blk h z))"
  "hprev (blk (merge_blocks x y h) z) = (if z = hnext (blk h y) then x else hprev (blk h z))"
  "lfree (merge_blocks x y h) = (if lfree h = y then x else lfree h)"
  by (simp_all add: merge_blocks_def upd_blk_def same_heap_def)

lemma merge_hblocks:
  assumes h: "hblocks (blk h) 0 0 (us @ x # y # vs) e"
  shows "hblocks (blk (merge_blocks x y h)) 0 0 (us @ x # vs) e"
proof -
  let ?B = "blk h" and ?B' = "blk (merge_blocks x y h)"
  have u: "hblocks ?B 0 0 us x" and x: "4 dvd x" "hprev (?B x) = last (0 # us)" "x + 16 \<le> hnext (?B x)"
    and y: "hnext (?B x) = y" "y + 16 \<le> hnext (?B y)" and v: "hblocks ?B y (hnext (?B y)) vs e"
    using h by (auto simp: hblocks_middle)
  have n: "vs \<noteq> [] \<Longrightarrow> hd vs = hnext (?B y)" "z \<in> set (tl vs) \<Longrightarrow> z \<noteq> hnext (?B y)" for z
    using hblocks_hd[OF v] hblocks_distinct[OF v] by (cases vs; auto)+
  have "hblocks ?B' 0 0 us x = hblocks ?B 0 0 us x"
    by (rule hblocks_cong) (use hblocks_before[OF u] x y in fastforce)
  moreover have "hblocks ?B' x (hnext (?B y)) vs e"
    by (rule hblocks_relink[OF v]) (use hblocks_after[OF v, of x] n x y in auto)
  ultimately show ?thesis using u x y by (simp add: hblocks_middle)
qed

lemma middle_notin:
  assumes "hblocks B 0 0 (us @ x # vs) e"
  shows "x \<notin> set us" "x \<notin> set vs" "e \<notin> set (us @ x # vs)" "x < e"
  using hblocks_distinct[OF assms] hblocks_after[OF assms] by auto

lemma merge_blocks_ok:
  assumes c: "heap_chain h (us @ x # y # vs)" and f: "used (blk h x) = 0" "used (blk h y) = 0"
  shows "heap_chain (merge_blocks x y h) (us @ x # vs)"
    "heap_allocs (merge_blocks x y h) (us @ x # vs) = heap_allocs h (us @ x # y # vs)"
    "lfree_ok h (us @ x # y # vs) \<Longrightarrow> lfree_ok (merge_blocks x y h) (us @ x # vs)"
    "lfree_lowest h (us @ x # y # vs) \<Longrightarrow> lfree_lowest (merge_blocks x y h) (us @ x # vs)"
proof -
  let ?h = "merge_blocks x y h"
  note d = heap_chainD[OF c]
  note n = middle_notin[OF d(2)] and n' = middle_notin[of "blk h" "us @ [x]" y vs "heap_end h"]
  have e: "heap_end ?h = heap_end h" "heap_ptr ?h = heap_ptr h"
    using merge_blocks_simps(1)[of h x y] by (simp_all add: same_heap_def)
  have "used_total (blk ?h) us = used_total (blk h) us" "used_total (blk ?h) vs = used_total (blk h) vs"
    by (rule used_total_cong; use n in auto)+
  then show "heap_chain ?h (us @ x # vs)"
    using merge_hblocks[OF d(2)] same_heap_frame[OF merge_blocks_simps(1)] d f
    by (simp add: heap_chain_def e)
  show "heap_allocs ?h (us @ x # vs) = heap_allocs h (us @ x # y # vs)"
    unfolding heap_allocs_def e by (rule image_cong) (use f n in auto)
  show "lfree_ok ?h (us @ x # vs)" if "lfree_ok h (us @ x # y # vs)"
    using that f e n n' d(2) by (auto simp: lfree_ok_def)
  have "x < y" using d(2) by (auto simp: hblocks_middle)
  then show "lfree_lowest ?h (us @ x # vs)" if "lfree_lowest h (us @ x # y # vs)"
    using that by (auto simp: lfree_lowest_def)
qed

lemma plug_forward_eq:
  assumes "hnext (blk h x) = y" "x \<noteq> y"
  shows "plug_forward x h = (if used (blk h y) = 0 \<and> y \<noteq> heap_end h then merge_blocks x y h else h)"
  using assms by (simp add: plug_forward_def merge_blocks_def Let_def upd_blk_def)

lemma plug_backward_eq:
  assumes "hprev (blk h y) = x"
  shows "plug_backward y h = (if x \<noteq> y \<and> used (blk h x) = 0 then merge_blocks x y h else h)"
  using assms by (simp add: plug_backward_def merge_blocks_def Let_def upd_blk_def)

text \<open>What plugging holes keeps and reaches.\<close>

definition heap_step :: "heap \<Rightarrow> nat list \<Rightarrow> heap \<Rightarrow> nat list \<Rightarrow> bool" where
  "heap_step h xs h' xs' \<longleftrightarrow> same_heap h h' \<and> heap_allocs h' xs' = heap_allocs h xs \<and>
     (lfree_lowest h xs \<longrightarrow> lfree_lowest h' xs')"

lemma heap_step_refl [simp]: "heap_step h xs h xs"
  by (simp add: heap_step_def)

lemma heap_step_trans: "heap_step h xs h' xs' \<Longrightarrow> heap_step h' xs' h'' xs'' \<Longrightarrow> heap_step h xs h'' xs''"
  using same_heap_trans by (auto simp: heap_step_def)

lemma heap_step_merge:
  assumes "heap_chain h (us @ x # y # vs)" "used (blk h x) = 0" "used (blk h y) = 0"
  shows "heap_step h (us @ x # y # vs) (merge_blocks x y h) (us @ x # vs)"
  using merge_blocks_ok[OF assms] by (simp add: heap_step_def)

lemma plug_forward_ok:
  assumes c: "heap_chain h (us @ x # vs)" "lfree_ok h (us @ x # vs)" and f: "used (blk h x) = 0"
    and nh: "no_holes (blk h) vs"
  obtains ws where "heap_chain (plug_forward x h) (us @ x # ws)" "lfree_ok (plug_forward x h) (us @ x # ws)"
    "no_holes (blk (plug_forward x h)) (x # ws)" "heap_step h (us @ x # vs) (plug_forward x h) (us @ x # ws)"
    "\<And>z. used (blk (plug_forward x h) z) = used (blk h z)"
proof -
  note d = heap_chainD[OF c(1)]
  let ?y = "hnext (blk h x)"
  have x: "x + 12 \<le> ?y" "hblocks (blk h) x ?y vs (heap_end h)" using d(2) by (auto simp: hblocks_middle)
  note eq = plug_forward_eq[of h x ?y]
  show ?thesis
  proof (cases "used (blk h ?y) = 0 \<and> ?y \<noteq> heap_end h")
    case True
    then obtain ws where vs: "vs = ?y # ws" using x(2) by (cases vs) auto
    have m: "plug_forward x h = merge_blocks x ?y h" using eq True x by simp
    have "no_holes (blk h) (x # ws)" using nh True by (subst (asm) vs) (simp add: no_holes_Cons)
    then have "no_holes (blk (merge_blocks x ?y h)) (x # ws)" by (subst no_holes_cong[of _ _ "blk h"]) simp_all
    then show ?thesis
      using that[of ws] m merge_blocks_ok(1,3)[of h us x ?y ws] heap_step_merge[of h us x ?y ws] c f True vs by simp
  next
    case False
    then have m: "plug_forward x h = h" using eq x by auto
    have "vs \<noteq> [] \<Longrightarrow> used (blk h (hd vs)) \<noteq> 0" using False hblocks_hd[OF x(2)] hblocks_after[OF x(2), of ?y] by (cases vs) auto
    then have "no_holes (blk h) (x # vs)" using nh by (auto simp: no_holes_Cons)
    then show ?thesis using that[of vs] m c by simp
  qed
qed

lemma plug_backward_ok:
  assumes c: "heap_chain h (us @ x # vs)" "lfree_ok h (us @ x # vs)" and f: "used (blk h x) = 0"
    and nh: "no_holes (blk h) us" "no_holes (blk h) (x # vs)"
  obtains ws where "wf_heap (plug_backward x h) ws" "heap_step h (us @ x # vs) (plug_backward x h) ws"
proof -
  note d = heap_chainD[OF c(1)]
  have p: "hprev (blk h x) = last (0 # us)" using d(2) by (simp add: hblocks_middle)
  note eq = plug_backward_eq[OF p]
  show ?thesis
  proof (cases us rule: rev_cases)
    case Nil
    then have "x = 0" using d(2) by simp
    then show ?thesis using that[of "us @ x # vs"] eq Nil c nh by (simp add: wf_heap_def)
  next
    case (snoc us' w)
    have xw: "x \<noteq> w" using middle_notin(1)[OF d(2)] snoc by auto
    show ?thesis
    proof (cases "used (blk h w) = 0")
      case True
      have m: "plug_backward x h = merge_blocks w x h" using eq snoc True xw by simp
      have "no_holes (blk h) (us' @ w # vs)"
        using nh snoc True f by (auto simp: no_holes_append no_holes_Cons)
      then have "no_holes (blk (merge_blocks w x h)) (us' @ w # vs)" by (subst no_holes_cong[of _ _ "blk h"]) simp_all
      then show ?thesis
        using that[of "us' @ w # vs"] m merge_blocks_ok(1,3)[of h us' w x vs] heap_step_merge[of h us' w x vs] c f True snoc
        by (simp add: wf_heap_def)
    next
      case False
      then have "no_holes (blk h) (us @ x # vs)" using nh snoc by (auto simp: no_holes_append)
      then show ?thesis using that[of "us @ x # vs"] eq snoc False c by (simp add: wf_heap_def)
    qed
  qed
qed

lemma plug_holes_ok:
  assumes c: "heap_chain h (us @ x # vs)" "lfree_ok h (us @ x # vs)" and f: "used (blk h x) = 0"
    and nh: "no_holes (blk h) us" "no_holes (blk h) vs"
  obtains h' ws where "plug_holes x h = Some h'" "wf_heap h' ws" "heap_step h (us @ x # vs) h' ws"
proof -
  obtain vs' where p: "heap_chain (plug_forward x h) (us @ x # vs')" "lfree_ok (plug_forward x h) (us @ x # vs')"
    "no_holes (blk (plug_forward x h)) (x # vs')" "heap_step h (us @ x # vs) (plug_forward x h) (us @ x # vs')"
    "\<And>z. used (blk (plug_forward x h) z) = used (blk h z)"
    by (rule plug_forward_ok[OF c f nh(2)]) blast
  have "no_holes (blk (plug_forward x h)) us" using nh(1) by (subst no_holes_cong[of _ _ "blk h"]) (simp_all add: p(5))
  then obtain ws where w: "wf_heap (plug_backward x (plug_forward x h)) ws"
    "heap_step (plug_forward x h) (us @ x # vs') (plug_backward x (plug_forward x h)) ws"
    using plug_backward_ok[OF p(1,2) _ _ p(3)] f p(5) by metis
  have "x < heap_end h" by (rule middle_notin(4)[OF heap_chainD(2)[OF c(1)]])
  then show ?thesis using that[OF _ w(1) heap_step_trans[OF p(4) w(2)]] f by (simp add: plug_holes_def)
qed

subsection \<open>Regions handed out\<close>

lemma heap_allocsE:
  assumes "(p, n) \<in> heap_allocs h xs"
  obtains x where "x \<in> set xs" "used (blk h x) \<noteq> 0" "p = heap_ptr h + x + 12" "n = hnext (blk h x) - x - 12"
  using assms by (auto simp: heap_allocs_def)

lemma heap_allocsI:
  "x \<in> set xs \<Longrightarrow> used (blk h x) \<noteq> 0 \<Longrightarrow> (heap_ptr h + x + 12, hnext (blk h x) - x - 12) \<in> heap_allocs h xs"
  by (simp add: heap_allocs_def)

lemma heap_allocs_in_heap:
  assumes "heap_chain h xs" "(p, n) \<in> heap_allocs h xs"
  shows "heap_ptr h + 12 \<le> p" "p + n \<le> heap_ptr h + heap_end h" "4 \<le> n" "4 dvd p"
proof -
  note d = heap_chainD[OF assms(1)] and f = heap_frameD[OF heap_chainD(1)[OF assms(1)]]
  obtain x where x: "x \<in> set xs" "p = heap_ptr h + x + 12" "n = hnext (blk h x) - x - 12"
    using assms(2) by (rule heap_allocsE)
  have b: "x + 16 \<le> hnext (blk h x)" "hnext (blk h x) \<le> heap_end h" "4 dvd x"
    using hblocks_bounds[OF d(2) x(1)] by auto
  then show "heap_ptr h + 12 \<le> p" "p + n \<le> heap_ptr h + heap_end h" "4 \<le> n" using x by auto
  have "(4 :: nat) dvd 12" by simp
  then show "4 dvd p" unfolding x(2) using f(4) b(3) by (intro dvd_add)
qed

lemma heap_allocs_apart:
  assumes "heap_chain h xs" "(p, n) \<in> heap_allocs h xs" "(q, m) \<in> heap_allocs h xs" "(p, n) \<noteq> (q, m)"
  shows "apart p n q m"
proof -
  note d = heap_chainD[OF assms(1)]
  obtain x where x: "x \<in> set xs" "p = heap_ptr h + x + 12" "n = hnext (blk h x) - x - 12"
    using assms(2) by (rule heap_allocsE)
  obtain y where y: "y \<in> set xs" "q = heap_ptr h + y + 12" "m = hnext (blk h y) - y - 12"
    using assms(3) by (rule heap_allocsE)
  have "x \<noteq> y" using assms(4) x y by auto
  then consider "hnext (blk h x) \<le> y" | "hnext (blk h y) \<le> x"
    using hblocks_apart[OF d(2) x(1) y(1)] hblocks_apart[OF d(2) y(1) x(1)] by linarith
  then show ?thesis using x y hblocks_bounds[OF d(2) x(1)] hblocks_bounds[OF d(2) y(1)]
    by cases (auto simp: apart_def)
qed

lemma wf_heapD:
  assumes "wf_heap h xs"
  shows "heap_chain h xs" "no_holes (blk h) xs" "lfree_ok h xs"
  using assms by (simp_all add: wf_heap_def)

subsection \<open>Freeing a block\<close>

definition free_mark :: "nat \<Rightarrow> heap \<Rightarrow> heap" where
  "free_mark x h =
     (let h = upd_blk x (\<lambda>b. b\<lparr>used := 0, magic := HEAP_MAGIC\<rparr>) h;
          h = (if x < lfree h then h\<lparr>lfree := x\<rparr> else h)
      in h\<lparr>used_mem := sub32 (used_mem h) (sub32 (hnext (blk h x)) x)\<rparr>)"

lemma free_mark_simps [simp]:
  "same_heap h (free_mark x h)" "heap_end (free_mark x h) = heap_end h" "heap_ptr (free_mark x h) = heap_ptr h"
  "used (blk (free_mark x h) z) = (if z = x then 0 else used (blk h z))"
  "magic (blk (free_mark x h) z) = (if z = x then HEAP_MAGIC else magic (blk h z))"
  "hnext (blk (free_mark x h) z) = hnext (blk h z)" "hprev (blk (free_mark x h) z) = hprev (blk h z)"
  "lfree (free_mark x h) = min x (lfree h)"
  by (auto simp: free_mark_def upd_blk_def same_heap_def Let_def)

lemma free_mark_ok:
  assumes c: "heap_chain h (us @ x # vs)" and u: "used (blk h x) \<noteq> 0"
  shows "heap_chain (free_mark x h) (us @ x # vs)"
    "lfree_ok h (us @ x # vs) \<Longrightarrow> lfree_ok (free_mark x h) (us @ x # vs)"
    "heap_allocs (free_mark x h) (us @ x # vs) =
       heap_allocs h (us @ x # vs) - {(heap_ptr h + x + 12, hnext (blk h x) - x - 12)}"
    "lfree_lowest h (us @ x # vs) \<Longrightarrow> lfree_lowest (free_mark x h) (us @ x # vs)"
proof -
  note d = heap_chainD[OF c] and f = heap_frameD[OF heap_chainD(1)[OF c]]
  note n = middle_notin[OF d(2)]
  have b: "x + 16 \<le> hnext (blk h x)" "hnext (blk h x) \<le> heap_end h" using hblocks_bounds[OF d(2), of x] by auto
  have t: "used_total (blk h) (us @ x # vs) \<le> heap_end h" using used_total_le[OF d(2)] by simp
  have "sub32 (hnext (blk h x)) x = hnext (blk h x) - x" using b f(5) by (intro sub32_le) linarith+
  moreover have "sub32 (used_mem h) (hnext (blk h x) - x) = used_mem h - (hnext (blk h x) - x)"
    by (rule sub32_le) (use d(5) u t f(5) in auto)
  ultimately have "used_mem (free_mark x h) = used_mem h - (hnext (blk h x) - x)"
    by (simp add: free_mark_def upd_blk_def Let_def)
  moreover have "used_total (blk (free_mark x h)) us = used_total (blk h) us"
    "used_total (blk (free_mark x h)) vs = used_total (blk h) vs" by (rule used_total_cong; use n in auto)+
  ultimately have "used_mem (free_mark x h) = used_total (blk (free_mark x h)) (us @ x # vs)" using d(5) u by simp
  moreover have "hblocks (blk (free_mark x h)) 0 0 (us @ x # vs) (heap_end h)"
    using d(2) by (subst hblocks_cong[of _ _ "blk h"]) simp_all
  ultimately show "heap_chain (free_mark x h) (us @ x # vs)"
    using d(3,4) d(1) same_heap_frame[of h "free_mark x h"] n by (auto simp: heap_chain_def)
  show "lfree_ok (free_mark x h) (us @ x # vs)" if "lfree_ok h (us @ x # vs)"
    using that n by (auto simp: lfree_ok_def min_def)
  show "lfree_lowest (free_mark x h) (us @ x # vs)" if "lfree_lowest h (us @ x # vs)"
    using that by (auto simp: lfree_lowest_def)
  have i: "inj (\<lambda>z. (heap_ptr h + z + 12, hnext (blk h z) - z - 12))" by (simp add: inj_on_def)
  have "{z \<in> set (us @ x # vs). used (blk (free_mark x h) z) \<noteq> 0} = {z \<in> set (us @ x # vs). used (blk h z) \<noteq> 0} - {x}"
    by auto
  then show "heap_allocs (free_mark x h) (us @ x # vs) =
       heap_allocs h (us @ x # vs) - {(heap_ptr h + x + 12, hnext (blk h x) - x - 12)}"
    unfolding heap_allocs_def free_mark_simps(2,3,6) by (simp only: image_set_diff[OF i] image_insert image_empty)
qed

lemma rt_free_eq:
  assumes "heap_chain h xs" "x \<in> set xs" "used (blk h x) \<noteq> 0"
  shows "rt_free (heap_ptr h + x + 12) h = plug_holes x (free_mark x h)"
proof -
  note d = heap_chainD[OF assms(1)] and f = heap_frameD[OF heap_chainD(1)[OF assms(1)]]
  have b: "x + 16 \<le> hnext (blk h x)" "hnext (blk h x) \<le> heap_end h" using hblocks_bounds[OF d(2) assms(2)] by auto
  have "sub32 (heap_ptr h + x + 12) (heap_ptr h) = x + 12" using b f(5) by (subst sub32_le) linarith+
  moreover have "sub32 (x + 12) 12 = x" using b f(5) by (subst sub32_le) linarith+
  moreover have "(heap_ptr h + x + 12) mod 4 = 0"
    using heap_allocs_in_heap(4)[OF assms(1) heap_allocsI[of x xs h, OF assms(2,3)]] by presburger
  ultimately show ?thesis using b d(4)[OF assms(2)] assms(3)
    by (simp add: rt_free_def free_mark_def Let_def)
qed

lemma rt_free_ok:
  assumes w: "wf_heap h xs" and a: "(p, n) \<in> heap_allocs h xs"
  obtains h' xs' where "rt_free p h = Some h'" "wf_heap h' xs'" "same_heap h h'"
    "heap_allocs h' xs' = heap_allocs h xs - {(p, n)}" "lfree_lowest h xs \<Longrightarrow> lfree_lowest h' xs'"
proof -
  note w' = wf_heapD[OF w]
  obtain x where x: "x \<in> set xs" "used (blk h x) \<noteq> 0" "p = heap_ptr h + x + 12" "n = hnext (blk h x) - x - 12"
    using a by (rule heap_allocsE)
  obtain us vs where xs: "xs = us @ x # vs" using x(1) by (meson split_list)
  have n: "x \<notin> set us" "x \<notin> set vs" using middle_notin[OF heap_chainD(2)[OF w'(1), unfolded xs]] by auto
  note m = free_mark_ok[OF w'(1)[unfolded xs] x(2)]
  have "no_holes (blk h) us" "no_holes (blk h) vs" using w'(2) by (auto simp: xs no_holes_append no_holes_Cons)
  then have nh: "no_holes (blk (free_mark x h)) us" "no_holes (blk (free_mark x h)) vs"
    using n by (subst no_holes_cong[of _ _ "blk h"]; auto)+
  obtain h' ws where p: "plug_holes x (free_mark x h) = Some h'" "wf_heap h' ws" "heap_step (free_mark x h) (us @ x # vs) h' ws"
    by (rule plug_holes_ok[OF m(1) m(2)[OF w'(3)[unfolded xs]] _ nh]) simp_all
  have r: "rt_free p h = Some h'" using rt_free_eq[OF w'(1) x(1,2)] p(1) x(3) by simp
  have s: "same_heap h h'" using same_heap_trans[OF free_mark_simps(1)] p(3) by (auto simp: heap_step_def)
  show ?thesis by (rule that[OF r p(2) s]) (use p(3) m(3,4) x(3,4) xs in \<open>auto simp: heap_step_def\<close>)
qed

subsection \<open>Splitting a block and taking it\<close>

definition split_block :: "nat \<Rightarrow> nat \<Rightarrow> heap \<Rightarrow> heap" where
  "split_block x x2 h =
     (let y = hnext (blk h x);
          h1 = upd_blk x (\<lambda>b. b\<lparr>hnext := x2\<rparr>)
            (upd_blk x2 (\<lambda>b. \<lparr>magic = HEAP_MAGIC, used = 0, hnext = y, hprev = x\<rparr>) h)
      in if y \<noteq> heap_end h then upd_blk y (\<lambda>b. b\<lparr>hprev := x2\<rparr>) h1 else h1)"

lemma split_block_simps:
  assumes "x < x2" "x2 < hnext (blk h x)"
  shows "same_heap h (split_block x x2 h)" "used_mem (split_block x x2 h) = used_mem h" "lfree (split_block x x2 h) = lfree h"
    "used (blk (split_block x x2 h) z) = (if z = x2 then 0 else used (blk h z))"
    "magic (blk (split_block x x2 h) z) = (if z = x2 then HEAP_MAGIC else magic (blk h z))"
    "hnext (blk (split_block x x2 h) z) = (if z = x then x2 else if z = x2 then hnext (blk h x) else hnext (blk h z))"
    "hprev (blk (split_block x x2 h) z) = (if z = x2 then x else if z = hnext (blk h x) \<and> z \<noteq> heap_end h then x2 else hprev (blk h z))"
  using assms by (auto simp: split_block_def upd_blk_def same_heap_def Let_def)

lemma split_hblocks:
  assumes h: "hblocks (blk h) 0 0 (us @ x # vs) (heap_end h)" and x2: "4 dvd x2" "x + 16 \<le> x2" "x2 + 16 \<le> hnext (blk h x)"
  shows "hblocks (blk (split_block x x2 h)) 0 0 (us @ x # x2 # vs) (heap_end h)"
proof -
  let ?B = "blk h" and ?B' = "blk (split_block x x2 h)"
  have u: "hblocks ?B 0 0 us x" and x: "4 dvd x" "hprev (?B x) = last (0 # us)"
    and v: "hblocks ?B x (hnext (?B x)) vs (heap_end h)"
    using h by (auto simp: hblocks_middle)
  have l: "x < x2" "x2 < hnext (?B x)" using x2 by auto
  note s = split_block_simps[of x x2 h, OF l]
  have n: "vs \<noteq> [] \<Longrightarrow> hd vs = hnext (?B x)" "z \<in> set (tl vs) \<Longrightarrow> z \<noteq> hnext (?B x)" for z
    using hblocks_hd[OF v] hblocks_distinct[OF v] by (cases vs; auto)+
  have t: "z \<in> set (tl vs) \<Longrightarrow> z \<in> set vs" for z by (cases vs) auto
  have vb: "z \<in> set vs \<Longrightarrow> z \<noteq> x \<and> z \<noteq> x2 \<and> z \<noteq> heap_end h" for z using hblocks_after[OF v, of z] l by auto
  have "hblocks ?B' 0 0 us x = hblocks ?B 0 0 us x"
    by (rule hblocks_cong) (use hblocks_before[OF u] x2 in \<open>fastforce simp: s\<close>)
  moreover have "hblocks ?B' x2 (hnext (?B x)) vs (heap_end h)"
    by (rule hblocks_relink[OF v]) (use n t vb in \<open>auto simp: s\<close>)
  ultimately show ?thesis using u x x2 l by (auto simp: hblocks_middle s)
qed

text \<open>The block \<open>x\<close> is cut at \<open>x2\<close>; what the second part held is taken off the count.\<close>

lemma split_block_ok:
  assumes c: "heap_chain h (us @ x # vs)" and x2: "4 dvd x2" "x + 16 \<le> x2" "x2 + 16 \<le> hnext (blk h x)"
    and m: "h' = (split_block x x2 h)\<lparr>used_mem := used_mem h - (if used (blk h x) = 0 then 0 else hnext (blk h x) - x2)\<rparr>"
  shows "heap_chain h' (us @ x # x2 # vs)"
    "lfree_ok h (us @ x # vs) \<Longrightarrow> lfree_ok h' (us @ x # x2 # vs)" "x2 \<notin> set (us @ x # vs)" "lfree h' = lfree h"
proof -
  note d = heap_chainD[OF c]
  have l: "x < x2" "x2 < hnext (blk h x)" using x2 by auto
  note s = split_block_simps[of x x2 h, OF l]
  have x: "hblocks (blk h) 0 0 us x" "hblocks (blk h) x (hnext (blk h x)) vs (heap_end h)"
    using d(2) by (auto simp: hblocks_middle)
  show n: "x2 \<notin> set (us @ x # vs)" using hblocks_before[OF x(1)] hblocks_after[OF x(2)] l by fastforce
  have e: "x2 \<noteq> heap_end h" "heap_end (split_block x x2 h) = heap_end h"
    using hblocks_le[OF x(2)] l s(1) by (auto simp: same_heap_def)
  have "same_heap h h'" using s(1) by (simp add: m same_heap_def)
  then have f: "heap_frame h'" using same_heap_frame d(1) by blast
  have "used_total (blk (split_block x x2 h)) us = used_total (blk h) us"
    "used_total (blk (split_block x x2 h)) vs = used_total (blk h) vs"
    by (rule used_total_cong; use n middle_notin[OF d(2)] in \<open>auto simp: s\<close>)+
  then have "used_mem h' = used_total (blk h') (us @ x # x2 # vs)"
    using l by (auto simp: m s d(5))
  then show "heap_chain h' (us @ x # x2 # vs)"
    using f split_hblocks[OF d(2) x2] d(3,4) e by (auto simp: heap_chain_def m s)
  show "lfree h' = lfree h" by (simp add: m s)
  show "lfree_ok h' (us @ x # x2 # vs)" if "lfree_ok h (us @ x # vs)"
    using that e by (auto simp: lfree_ok_def m s)
qed

definition take_mark :: "nat \<Rightarrow> heap \<Rightarrow> heap" where
  "take_mark x h = add_used (hnext (blk h x) - x) (upd_blk x (\<lambda>b. b\<lparr>used := 1, magic := HEAP_MAGIC\<rparr>) h)"

lemma take_mark_simps [simp]:
  "same_heap h (take_mark x h)" "heap_end (take_mark x h) = heap_end h" "heap_ptr (take_mark x h) = heap_ptr h"
  "used (blk (take_mark x h) z) = (if z = x then 1 else used (blk h z))"
  "magic (blk (take_mark x h) z) = (if z = x then HEAP_MAGIC else magic (blk h z))"
  "hnext (blk (take_mark x h) z) = hnext (blk h z)" "hprev (blk (take_mark x h) z) = hprev (blk h z)"
  "lfree (take_mark x h) = lfree h" "used_mem (take_mark x h) = add32 (used_mem h) (hnext (blk h x) - x)"
  by (auto simp: take_mark_def add_used_def upd_blk_def same_heap_def Let_def)

lemma take_mark_ok:
  assumes c: "heap_chain h (us @ x # vs)" and u: "used (blk h x) = 0"
  shows "heap_chain (take_mark x h) (us @ x # vs)"
    "no_holes (blk h) (us @ x # vs) \<or> no_holes (blk h) us \<and> no_holes (blk h) vs \<Longrightarrow> no_holes (blk (take_mark x h)) (us @ x # vs)"
    "heap_allocs (take_mark x h) (us @ x # vs) =
       Set.insert (heap_ptr h + x + 12, hnext (blk h x) - x - 12) (heap_allocs h (us @ x # vs))"
proof -
  note d = heap_chainD[OF c] and f = heap_frameD[OF heap_chainD(1)[OF c]]
  note n = middle_notin[OF d(2)]
  let ?h = "take_mark x h"
  have hb: "hblocks (blk ?h) 0 0 (us @ x # vs) (heap_end h)" using d(2) by (subst hblocks_cong[of _ _ "blk h"]) simp_all
  have "used_total (blk ?h) us = used_total (blk h) us" "used_total (blk ?h) vs = used_total (blk h) vs"
    by (rule used_total_cong; use n in auto)+
  then have t: "used_total (blk ?h) (us @ x # vs) = used_mem h + (hnext (blk h x) - x)" using d(5) u by simp
  moreover have "used_total (blk ?h) (us @ x # vs) \<le> heap_end h" using used_total_le[OF hb] by simp
  ultimately have "used_mem ?h = used_total (blk ?h) (us @ x # vs)" using f(5) add32_less by simp
  then show "heap_chain ?h (us @ x # vs)"
    using hb d(1,3,4) same_heap_frame[OF take_mark_simps(1)] by (auto simp: heap_chain_def)
  have "no_holes (blk ?h) us = no_holes (blk h) us" "no_holes (blk ?h) vs = no_holes (blk h) vs"
    by (rule no_holes_cong; use n in auto)+
  then show "no_holes (blk ?h) (us @ x # vs)" if "no_holes (blk h) (us @ x # vs) \<or> no_holes (blk h) us \<and> no_holes (blk h) vs"
    using that by (auto simp: no_holes_append no_holes_Cons)
  have "{z \<in> set (us @ x # vs). used (blk ?h z) \<noteq> 0} = Set.insert x {z \<in> set (us @ x # vs). used (blk h z) \<noteq> 0}" by auto
  then show "heap_allocs ?h (us @ x # vs) =
       Set.insert (heap_ptr h + x + 12, hnext (blk h x) - x - 12) (heap_allocs h (us @ x # vs))"
    unfolding heap_allocs_def take_mark_simps(2,3,6) by (simp only: image_insert)
qed

lemma lfree_up_ok:
  assumes "hblocks (blk h) q p ws (heap_end h)"
  shows "\<exists>r. lfree_up h p = Some r \<and> (r = heap_end h \<or> r \<in> set ws \<and> used (blk h r) = 0) \<and>
    (\<forall>z\<in>set ws. used (blk h z) = 0 \<longrightarrow> r \<le> z)"
  using assms
proof (induction ws arbitrary: q p)
  case Nil
  then show ?case by (simp add: lfree_up.simps)
next
  case (Cons w ws)
  then have w: "p = w" "hblocks (blk h) w (hnext (blk h w)) ws (heap_end h)" "w + 16 \<le> hnext (blk h w)" by auto
  show ?case
  proof (cases "used (blk h w) = 0")
    case True
    then have "lfree_up h p = Some w" using w by (simp add: lfree_up.simps)
    then show ?thesis using True w hblocks_after[OF w(2)] by fastforce
  next
    case False
    have "w \<noteq> heap_end h" using hblocks_le[OF w(2)] w(3) by auto
    then have "lfree_up h p = lfree_up h (hnext (blk h w))" using w False by (subst lfree_up.simps) simp
    then show ?thesis using Cons.IH[OF w(2)] False by auto
  qed
qed

lemma malloc_find_ok:
  assumes "hblocks (blk h) q p vs (heap_end h)" and f: "heap_frame h" and sz: "sz \<le> mem_size_aligned h"
  shows "malloc_find h sz p = Some (find (\<lambda>y. y < mem_size_aligned h - sz \<and> used (blk h y) = 0 \<and>
    sz \<le> hnext (blk h y) - y - 12) vs)"
  using assms(1)
proof (induction vs arbitrary: q p)
  case Nil
  have "sub32 (mem_size_aligned h) sz = mem_size_aligned h - sz" using sz heap_frameD[OF f] by (intro sub32_le) auto
  moreover have "\<not> p < mem_size_aligned h - sz" using Nil heap_frameD(1)[OF f] by simp
  ultimately show ?case by (subst malloc_find.simps) simp
next
  case (Cons v vs)
  note d = heap_frameD[OF f]
  have v: "p = v" "hblocks (blk h) v (hnext (blk h v)) vs (heap_end h)" "v + 16 \<le> hnext (blk h v)" using Cons.prems by auto
  have b: "hnext (blk h v) \<le> heap_end h" by (rule hblocks_le[OF v(2)])
  have s: "sub32 (mem_size_aligned h) sz = mem_size_aligned h - sz" using sz d by (intro sub32_le) auto
  have "add32 v 12 = v + 12" using b v(3) d(5) by (intro add32_less) linarith
  moreover have "sub32 (hnext (blk h v)) (v + 12) = hnext (blk h v) - (v + 12)" using b v(3) d(5) by (intro sub32_le) linarith+
  ultimately have t: "sub32 (hnext (blk h v)) (add32 v 12) = hnext (blk h v) - v - 12" by simp
  have "find (\<lambda>y. y < mem_size_aligned h - sz \<and> used (blk h y) = 0 \<and> sz \<le> hnext (blk h y) - y - 12) vs = None"
    if "\<not> v < mem_size_aligned h - sz"
    using that hblocks_after[OF v(2)] v(3) by (fastforce simp: find_None_iff)
  then show ?case using Cons.IH[OF v(2)] v(1) by (subst malloc_find.simps) (auto simp: s t)
qed

subsection \<open>Allocating a block\<close>

definition splits :: "nat \<Rightarrow> nat \<Rightarrow> heap \<Rightarrow> bool" where
  "splits sz x h \<longleftrightarrow> sz + 24 \<le> hnext (blk h x) - x - 12"

lemma malloc_split_eq:
  assumes f: "heap_frame h" and x: "x + 16 \<le> hnext (blk h x)" "hnext (blk h x) \<le> heap_end h"
    "sz \<le> hnext (blk h x) - x - 12"
  shows "upd_blk x (\<lambda>b. b\<lparr>magic := HEAP_MAGIC\<rparr>) (malloc_split sz x h) =
    take_mark x (if splits sz x h then split_block x (x + 12 + sz) h else h)"
proof -
  note d = heap_frameD[OF f]
  have s: "add32 x 12 = x + 12" "sub32 (hnext (blk h x)) (x + 12) = hnext (blk h x) - (x + 12)"
    "add32 sz 12 = sz + 12" "add32 (sz + 12) 12 = sz + 24" "add32 (x + 12) sz = x + 12 + sz"
    "add32 (mem_size_aligned h) 12 = heap_end h" "sub32 (hnext (blk h x)) x = hnext (blk h x) - x"
    using x d(1,5) by (simp_all add: add32_less sub32_le)
  show ?thesis
  proof (cases "splits sz x h")
    case True
    let ?y = "hnext (blk h x)"
    have n: "x \<noteq> x + 12 + sz" "?y \<noteq> x" "?y \<noteq> x + 12 + sz" using True x by (auto simp: splits_def)
    have g: "sz + 24 \<le> ?y - (x + 12)" using True by (simp add: splits_def)
    show ?thesis using True n g
      by (intro heap.equality) (auto simp: malloc_split_def take_mark_def split_block_def s Let_def add_used_def
          upd_blk_def fun_eq_iff add.commute[of 12 sz])
  next
    case False
    then have "\<not> sz + 24 \<le> hnext (blk h x) - (x + 12)" by (simp add: splits_def)
    then show ?thesis using False
      by (intro heap.equality) (auto simp: malloc_split_def take_mark_def s Let_def add_used_def upd_blk_def)
  qed
qed

lemma malloc_mark_ok:
  assumes w: "wf_heap h (us @ x # vs)" and x: "used (blk h x) = 0" "sz \<le> hnext (blk h x) - x - 12" "4 dvd sz" "12 \<le> sz"
  obtains h1 ws where "h1 = upd_blk x (\<lambda>b. b\<lparr>magic := HEAP_MAGIC\<rparr>) (malloc_split sz x h)"
    "heap_chain h1 (us @ x # ws)" "no_holes (blk h1) (us @ x # ws)" "same_heap h h1" "lfree h1 = lfree h"
    "heap_allocs h1 (us @ x # ws) = Set.insert (heap_ptr h + x + 12, if splits sz x h then sz else hnext (blk h x) - x - 12)
       (heap_allocs h (us @ x # vs))"
    "used (blk h1 x) = 1" "set vs \<subseteq> set ws" "\<And>z. z \<noteq> x \<Longrightarrow> z \<in> set (us @ vs) \<Longrightarrow> used (blk h1 z) = used (blk h z)"
    "\<And>z. z \<in> set ws \<Longrightarrow> x < z"
proof -
  note d = wf_heapD[OF w] heap_chainD[OF wf_heapD(1)[OF w]]
  note n = middle_notin[OF d(5)]
  have b: "x + 16 \<le> hnext (blk h x)" "hnext (blk h x) \<le> heap_end h" "4 dvd x"
    using hblocks_bounds[OF d(5), of x] by auto
  have v: "hblocks (blk h) x (hnext (blk h x)) vs (heap_end h)" using d(5) by (simp add: hblocks_middle)
  note eq = malloc_split_eq[OF d(4) b(1,2) x(2)]
  show ?thesis
  proof (cases "splits sz x h")
    case True
    let ?x2 = "x + 12 + sz"
    have x2: "4 dvd ?x2" "x + 16 \<le> ?x2" "?x2 + 16 \<le> hnext (blk h x)"
      using b(3) x(3,4) True b(1) by (auto simp: splits_def intro!: dvd_add)
    have l: "x < ?x2" "?x2 < hnext (blk h x)" using x2 by auto
    note s = split_block_simps[of x ?x2 h, OF l]
    note o = split_block_ok[OF d(1) x2 refl]
    let ?h = "split_block x ?x2 h"
    have h: "(?h\<lparr>used_mem := used_mem h - (if used (blk h x) = 0 then 0 else hnext (blk h x) - ?x2)\<rparr>) = ?h"
      using x(1) s(2) by simp
    have c: "heap_chain ?h (us @ x # ?x2 # vs)" using o(1) unfolding h .
    have u: "used (blk ?h x) = 0" using x(1) by (simp add: s)
    note t = take_mark_ok[OF c u]
    have q: "no_holes (blk ?h) us" "no_holes (blk ?h) (?x2 # vs)"
    proof -
      have nh: "no_holes (blk h) us" "no_holes (blk h) vs" "vs = [] \<or> used (blk h (hd vs)) \<noteq> 0"
        using d(2) x(1) by (auto simp: no_holes_append no_holes_Cons)
      have "no_holes (blk ?h) us = no_holes (blk h) us" "no_holes (blk ?h) vs = no_holes (blk h) vs"
        by (rule no_holes_cong; use o(3) in \<open>auto simp: s\<close>)+
      moreover have "vs = [] \<or> used (blk ?h (hd vs)) \<noteq> 0" using nh(3) o(3) by (cases vs) (auto simp: s)
      ultimately show "no_holes (blk ?h) us" "no_holes (blk ?h) (?x2 # vs)" using nh by (auto simp: no_holes_Cons)
    qed
    have a: "heap_allocs ?h (us @ x # ?x2 # vs) = heap_allocs h (us @ x # vs)"
      unfolding heap_allocs_def
      by (rule image_cong) (use x(1) o(3) s(1) in \<open>auto simp: s same_heap_def\<close>)
    show ?thesis
    proof (rule that[of "take_mark x ?h" "?x2 # vs"])
      show "same_heap h (take_mark x ?h)" by (rule same_heap_trans[OF s(1) take_mark_simps(1)])
      show "heap_allocs (take_mark x ?h) (us @ x # ?x2 # vs) =
          Set.insert (heap_ptr h + x + 12, if splits sz x h then sz else hnext (blk h x) - x - 12) (heap_allocs h (us @ x # vs))"
        using t(3) a True s(1) by (simp add: s same_heap_def)
      show "x < z" if "z \<in> set (?x2 # vs)" for z using that hblocks_after[OF v, of z] l by auto
    qed (use eq True t(1,2) q o(3) in \<open>auto simp: s\<close>)
  next
    case False
    note t = take_mark_ok[OF d(1) x(1)]
    show ?thesis
      by (rule that[of "take_mark x h" vs]) (use eq False t d(2) hblocks_after[OF v] b(1) in fastforce)+
  qed
qed

lemma set_lfree_simps:
  "heap_chain (h\<lparr>lfree := r\<rparr>) xs = heap_chain h xs" "heap_allocs (h\<lparr>lfree := r\<rparr>) xs = heap_allocs h xs"
  "same_heap h0 (h\<lparr>lfree := r\<rparr>) = same_heap h0 h"
  by (simp_all add: heap_chain_def heap_frame_def heap_allocs_def same_heap_def)

lemma set_lfree_if:
  "heap_chain (if b then h\<lparr>lfree := r\<rparr> else h) xs = heap_chain h xs"
  "heap_allocs (if b then h\<lparr>lfree := r\<rparr> else h) xs = heap_allocs h xs"
  "same_heap h0 (if b then h\<lparr>lfree := r\<rparr> else h) = same_heap h0 h"
  "blk (if b then h\<lparr>lfree := r\<rparr> else h) = blk h"
  by (simp_all add: set_lfree_simps)

lemma malloc_take_ok:
  assumes w: "wf_heap h xs" and x: "x \<in> set xs" "used (blk h x) = 0" "sz \<le> hnext (blk h x) - x - 12" "4 dvd sz" "12 \<le> sz"
  obtains h' xs' where "malloc_take sz x h = Some (heap_ptr h + x + 12, h')" "wf_heap h' xs'" "same_heap h h'"
    "heap_allocs h' xs' = Set.insert (heap_ptr h + x + 12, if splits sz x h then sz else hnext (blk h x) - x - 12) (heap_allocs h xs)"
    "lfree_lowest h xs \<Longrightarrow> lfree_lowest h' xs'"
proof -
  obtain us vs where xs: "xs = us @ x # vs" using x(1) by (meson split_list)
  note d = wf_heapD[OF w] heap_chainD[OF wf_heapD(1)[OF w]] and f = heap_frameD[OF heap_chainD(1)[OF wf_heapD(1)[OF w]]]
  obtain h1 ws where h1: "h1 = upd_blk x (\<lambda>b. b\<lparr>magic := HEAP_MAGIC\<rparr>) (malloc_split sz x h)"
    and c: "heap_chain h1 (us @ x # ws)" and nh: "no_holes (blk h1) (us @ x # ws)" and s: "same_heap h h1" and l: "lfree h1 = lfree h"
    and a: "heap_allocs h1 (us @ x # ws) = Set.insert (heap_ptr h + x + 12, if splits sz x h then sz else hnext (blk h x) - x - 12)
       (heap_allocs h (us @ x # vs))"
    and u: "used (blk h1 x) = 1" "set vs \<subseteq> set ws" "\<And>z. z \<noteq> x \<Longrightarrow> z \<in> set (us @ vs) \<Longrightarrow> used (blk h1 z) = used (blk h z)"
    and g: "\<And>z. z \<in> set ws \<Longrightarrow> x < z"
    by (rule malloc_mark_ok[OF w[unfolded xs] x(2-5)]) blast
  have b: "x + 16 \<le> hnext (blk h x)" "hnext (blk h x) \<le> heap_end h" "4 dvd x" using hblocks_bounds[OF d(5) x(1)] by auto
  have e: "heap_ptr h1 = heap_ptr h" "heap_end h1 = heap_end h" using s by (simp_all add: same_heap_def)
  have "(4 :: nat) dvd 12" by simp
  then have "4 dvd heap_ptr h + x" "4 dvd heap_ptr h + x + 12" using f(4) b(3) by (intro dvd_add; simp)+
  then have al: "(heap_ptr h + x) mod 4 = 0" "(heap_ptr h + x + 12) mod 4 = 0" by presburger+
  have ad: "add32 (heap_ptr h) x = heap_ptr h + x" "add32 (heap_ptr h + x) 12 = heap_ptr h + x + 12"
    "add32 (heap_ptr h + x + 12) sz = heap_ptr h + x + 12 + sz" "add32 (heap_ptr h) (heap_end h) = heap_ptr h + heap_end h"
    using b x(3) f(5) by (simp_all add: add32_less)
  have le: "heap_ptr h + x + 12 + sz \<le> heap_ptr h + heap_end h" using b x(3) by linarith
  have "hblocks (blk h1) (last (0 # us)) x (x # ws) (heap_end h1)"
    using heap_chainD(2)[OF c] by (auto simp: hblocks_middle)
  then obtain r where r: "lfree_up h1 x = Some r" "r = heap_end h1 \<or> r \<in> set (x # ws) \<and> used (blk h1 r) = 0"
    "\<forall>z\<in>set (x # ws). used (blk h1 z) = 0 \<longrightarrow> r \<le> z" using lfree_up_ok by blast
  let ?h = "if x = lfree h then h1\<lparr>lfree := r\<rparr> else h1"
  have "malloc_take sz x h = Some (heap_ptr h + x + 12, ?h)"
    unfolding malloc_take_def Let_def h1[symmetric] using r(1,2) al ad le by (auto simp: l e)
  moreover have "lfree_ok ?h (us @ x # ws)"
    using r(2) d(3) u x(2) e by (auto simp: lfree_ok_def xs l)
  then have "wf_heap ?h (us @ x # ws)" using c nh unfolding wf_heap_def set_lfree_if by blast
  moreover have "lfree_lowest ?h (us @ x # ws)" if low: "lfree_lowest h xs"
    unfolding lfree_lowest_def set_lfree_if
  proof (intro ballI impI)
    fix z assume z: "z \<in> set (us @ x # ws)" "used (blk h1 z) = 0"
    have lx: "lfree h \<le> x" using low x(1,2) by (simp add: lfree_lowest_def)
    consider "z \<in> set us" | "z \<in> set ws" using z u(1) by auto
    then show "lfree ?h \<le> z"
    proof cases
      case 1
      then have "z < x" using heap_chainD(2)[OF c] hblocks_before by (auto simp: hblocks_middle)
      moreover have "lfree h \<le> z" using 1 z(2) u(3)[of z] \<open>z < x\<close> low by (simp add: lfree_lowest_def xs)
      ultimately show ?thesis using lx l by simp
    next
      case 2
      then show ?thesis using r(3) z(2) g[OF 2] lx l by simp
    qed
  qed
  ultimately show ?thesis using that[of ?h "us @ x # ws"] s a unfolding set_lfree_if xs by blast
qed

end
