(* ===== verification/Allocator.thy ===== *)
theory Allocator
  imports Heap MemPool Sample
begin

text \<open>
  The operations of the memory manager and their contract. \<open>block_allocator\<close> is what a client of an
  allocator relies on: regions are apart from each other, an allocation adds a fresh region that is
  large enough, a release takes its region back. The system heap and the memory pools provide it.
\<close>

definition malloc_size :: "nat \<Rightarrow> nat" where
  "malloc_size sz = (if align4 sz < 12 then 12 else align4 sz)"

definition heap_rep :: "heap \<Rightarrow> (nat \<times> nat) set \<Rightarrow> bool" where
  "heap_rep h R \<longleftrightarrow> (\<exists>xs. wf_heap h xs \<and> R = heap_allocs h xs)"

definition tight_heap :: "heap \<Rightarrow> bool" where
  "tight_heap h \<longleftrightarrow> (\<exists>xs. wf_heap h xs \<and> lfree_lowest h xs)"

lemma align4_ok:
  assumes "sz + 3 < 2 ^ 32"
  shows "sz \<le> align4 sz" "align4 sz < sz + 4" "4 dvd align4 sz"
proof -
  have a: "align4 sz = (sz + 3) - (sz + 3) mod 4" using assms by (simp add: align4_def align_down4_def add32_less)
  have m: "(sz + 3) mod 4 < 4" by simp
  show "sz \<le> align4 sz" "align4 sz < sz + 4" using a m by linarith+
  show "4 dvd align4 sz" unfolding a by (rule dvd_minus_mod)
qed

lemma malloc_size_ok:
  assumes "sz + 3 < 2 ^ 32"
  shows "sz \<le> malloc_size sz" "12 \<le> malloc_size sz" "4 dvd malloc_size sz"
  using align4_ok[OF assms] by (auto simp: malloc_size_def)

text \<open>The first block the search of \<^verbatim>\<open>rt_malloc\<close> accepts, and the exact outcome of the call.\<close>

definition malloc_fits :: "heap \<Rightarrow> nat \<Rightarrow> nat \<Rightarrow> bool" where
  "malloc_fits h sz x \<longleftrightarrow> lfree h \<le> x \<and> used (blk h x) = 0 \<and> sz \<le> hnext (blk h x) - x - 12 \<and> x < mem_size_aligned h - sz"

lemma lfree_suffix:
  assumes c: "heap_chain h xs" and l: "lfree_ok h xs"
  obtains q us vs where "xs = us @ vs" "hblocks (blk h) q (lfree h) vs (heap_end h)"
    "\<And>x. x \<in> set xs \<Longrightarrow> lfree h \<le> x \<longleftrightarrow> x \<in> set vs"
proof (cases "lfree h = heap_end h")
  case True
  then show ?thesis using that[of xs "[]" 0] hblocks_after[OF heap_chainD(2)[OF c]] by fastforce
next
  case False
  then have m: "lfree h \<in> set xs" using l by (simp add: lfree_ok_def)
  obtain us vs where xs: "xs = us @ lfree h # vs" and u: "hblocks (blk h) 0 0 us (lfree h)"
    and v: "hblocks (blk h) (last (0 # us)) (lfree h) (lfree h # vs) (heap_end h)"
    by (rule hblocks_split[OF heap_chainD(2)[OF c] m])
  show ?thesis
    by (rule that[OF xs v]) (use hblocks_before[OF u] hblocks_after[OF v] xs in fastforce)
qed

lemma rt_malloc_none:
  assumes w: "wf_heap h xs" and sz: "0 < sz" "sz + 3 < 2 ^ 32" and none: "\<And>x. x \<in> set xs \<Longrightarrow> \<not> malloc_fits h (malloc_size sz) x"
  shows "rt_malloc sz h = Some (0, h)"
proof -
  note d = wf_heapD[OF w] heap_chainD[OF wf_heapD(1)[OF w]]
  obtain q us vs where v: "xs = us @ vs" "hblocks (blk h) q (lfree h) vs (heap_end h)"
    "\<And>x. x \<in> set xs \<Longrightarrow> lfree h \<le> x \<longleftrightarrow> x \<in> set vs" by (rule lfree_suffix[OF d(1,3)]) blast
  show ?thesis
  proof (cases "mem_size_aligned h < align4 sz")
    case False
    then have "malloc_size sz \<le> mem_size_aligned h" using heap_frameD(2)[OF d(4)] by (simp add: malloc_size_def)
    then have "malloc_find h (malloc_size sz) (lfree h) = Some None"
      using none v by (subst malloc_find_ok[OF v(2) d(4)]) (auto simp: find_None_iff malloc_fits_def)
    then show ?thesis using sz False by (simp add: rt_malloc_def Let_def malloc_size_def)
  qed (use sz in \<open>simp add: rt_malloc_def\<close>)
qed

lemma rt_malloc_some:
  assumes w: "wf_heap h xs" and sz: "0 < sz" "sz + 3 < 2 ^ 32" and some: "\<exists>x\<in>set xs. malloc_fits h (malloc_size sz) x"
  obtains x h' xs' where "x \<in> set xs" "malloc_fits h (malloc_size sz) x" "\<And>y. y \<in> set xs \<Longrightarrow> malloc_fits h (malloc_size sz) y \<Longrightarrow> x \<le> y"
    "rt_malloc sz h = Some (heap_ptr h + x + 12, h')" "wf_heap h' xs'" "same_heap h h'"
    "heap_allocs h' xs' = Set.insert (heap_ptr h + x + 12,
       if splits (malloc_size sz) x h then malloc_size sz else hnext (blk h x) - x - 12) (heap_allocs h xs)"
    "lfree_lowest h xs \<Longrightarrow> lfree_lowest h' xs'"
proof -
  note d = wf_heapD[OF w] heap_chainD[OF wf_heapD(1)[OF w]]
  let ?n = "malloc_size sz"
  obtain q us vs where v: "xs = us @ vs" "hblocks (blk h) q (lfree h) vs (heap_end h)"
    "\<And>x. x \<in> set xs \<Longrightarrow> lfree h \<le> x \<longleftrightarrow> x \<in> set vs" by (rule lfree_suffix[OF d(1,3)]) blast
  have n: "?n \<le> mem_size_aligned h" using some by (auto simp: malloc_fits_def)
  then have m: "\<not> mem_size_aligned h < align4 sz" by (simp add: malloc_size_def split: if_splits)
  let ?P = "\<lambda>y. y < mem_size_aligned h - ?n \<and> used (blk h y) = 0 \<and> ?n \<le> hnext (blk h y) - y - 12"
  have P: "malloc_fits h ?n y \<longleftrightarrow> y \<in> set vs \<and> ?P y" if "y \<in> set xs" for y
    using v(3)[OF that] by (auto simp: malloc_fits_def)
  have "find ?P vs \<noteq> None" using some P by (auto simp: find_None_iff)
  then obtain x where x: "find ?P vs = Some x" by auto
  then obtain i where i: "i < length vs" "?P (vs ! i)" "x = vs ! i" "\<forall>j<i. \<not> ?P (vs ! j)" by (auto simp: find_Some_iff)
  have xs: "x \<in> set xs" using i v(1) by auto
  have f: "malloc_fits h ?n x" using P[OF xs] i by auto
  have least: "x \<le> y" if y: "y \<in> set xs" "malloc_fits h ?n y" for y
  proof -
    obtain j where j: "j < length vs" "y = vs ! j" using P[OF y(1)] y(2) by (auto simp: in_set_conv_nth)
    then have "\<not> j < i" using P[OF y(1)] y(2) i(4) by blast
    then consider "i = j" | "i < j" by linarith
    then show ?thesis
    proof cases
      case 2
      then have "hnext (blk h x) \<le> y" using hblocks_sorted[OF v(2)] i j by (simp add: sorted_wrt_iff_nth_less)
      then show ?thesis using hblocks_bounds[OF d(5) xs] by simp
    qed (use i j in simp)
  qed
  obtain h' xs' where t: "malloc_take ?n x h = Some (heap_ptr h + x + 12, h')" "wf_heap h' xs'" "same_heap h h'"
    "heap_allocs h' xs' = Set.insert (heap_ptr h + x + 12, if splits ?n x h then ?n else hnext (blk h x) - x - 12) (heap_allocs h xs)"
    "lfree_lowest h xs \<Longrightarrow> lfree_lowest h' xs'"
    by (rule malloc_take_ok[OF w xs, of ?n]) (use f malloc_size_ok[OF sz(2)] in \<open>auto simp: malloc_fits_def\<close>)
  have "malloc_find h ?n (lfree h) = Some (Some x)" using malloc_find_ok[OF v(2) d(4) n] x by simp
  then have "rt_malloc sz h = Some (heap_ptr h + x + 12, h')"
    using t(1) sz m by (simp add: rt_malloc_def Let_def malloc_size_def)
  then show ?thesis using that[OF xs f least _ t(2-4)] t(5) by blast
qed

subsection \<open>The contract of an allocator\<close>

locale block_allocator =
  fixes rep :: "'s \<Rightarrow> (nat \<times> nat) set \<Rightarrow> bool"
    and alloc :: "'q \<Rightarrow> 's \<Rightarrow> (nat \<times> 's) option"
    and release :: "nat \<Rightarrow> 's \<Rightarrow> 's option"
    and asks :: "'q \<Rightarrow> nat \<Rightarrow> bool"
    and valid :: "'q \<Rightarrow> bool"
  assumes rep_apart: "rep s R \<Longrightarrow> (p, n) \<in> R \<Longrightarrow> (q, m) \<in> R \<Longrightarrow> (p, n) \<noteq> (q, m) \<Longrightarrow> apart p n q m"
    and rep_addr: "rep s R \<Longrightarrow> (p, n) \<in> R \<Longrightarrow> p \<noteq> 0"
    and alloc_law: "rep s R \<Longrightarrow> valid r \<Longrightarrow> \<exists>p s'. alloc r s = Some (p, s') \<and>
      (p = 0 \<and> rep s' R \<or> (\<exists>n. asks r n \<and> (p, n) \<notin> R \<and> rep s' (Set.insert (p, n) R)))"
    and release_law: "rep s R \<Longrightarrow> (p, n) \<in> R \<Longrightarrow> \<exists>s'. release p s = Some s' \<and> rep s' (R - {(p, n)})"
begin

lemma alloc_fresh:
  assumes "rep s R" "valid r" "alloc r s = Some (p, s')" "p \<noteq> 0"
  obtains n where "asks r n" "rep s' (Set.insert (p, n) R)" "(p, n) \<notin> R" "\<And>q m. (q, m) \<in> R \<Longrightarrow> apart p n q m"
proof -
  obtain n where n: "asks r n" "(p, n) \<notin> R" "rep s' (Set.insert (p, n) R)"
    using alloc_law[OF assms(1,2)] assms(3,4) by auto
  have "apart p n q m" if "(q, m) \<in> R" for q m
    by (rule rep_apart[OF n(3)]) (use that n(2) in auto)
  then show ?thesis using that n by blast
qed

lemma alloc_release:
  assumes "rep s R" "valid r" "alloc r s = Some (p, s')" "p \<noteq> 0"
  shows "\<exists>s''. release p s' = Some s'' \<and> rep s'' R"
proof -
  obtain n where n: "rep s' (Set.insert (p, n) R)" "(p, n) \<notin> R" by (rule alloc_fresh[OF assms])
  then have "Set.insert (p, n) R - {(p, n)} = R" by auto
  then show ?thesis using release_law[OF n(1), of p n] by auto
qed

end

subsection \<open>The system heap\<close>

definition malloc_valid :: "nat \<Rightarrow> bool" where
  "malloc_valid sz \<longleftrightarrow> 0 < sz \<and> sz + 3 < 2 ^ 32"

definition malloc_asks :: "nat \<Rightarrow> nat \<Rightarrow> bool" where
  "malloc_asks sz n \<longleftrightarrow> sz \<le> n"

lemma rt_malloc_rep:
  assumes w: "wf_heap h xs" and sz: "malloc_valid sz"
  shows "\<exists>p h'. rt_malloc sz h = Some (p, h') \<and> same_heap h h' \<and>
    (p = 0 \<and> h' = h \<and> (\<forall>x\<in>set xs. \<not> malloc_fits h (malloc_size sz) x) \<or>
     (\<exists>n xs'. sz \<le> n \<and> p \<noteq> 0 \<and> (p, n) \<notin> heap_allocs h xs \<and> wf_heap h' xs' \<and>
        heap_allocs h' xs' = Set.insert (p, n) (heap_allocs h xs) \<and> (lfree_lowest h xs \<longrightarrow> lfree_lowest h' xs')))"
proof (cases "\<exists>x\<in>set xs. malloc_fits h (malloc_size sz) x")
  case True
  have s: "0 < sz" "sz + 3 < 2 ^ 32" using sz by (simp_all add: malloc_valid_def)
  obtain x h' xs' where x: "x \<in> set xs" "malloc_fits h (malloc_size sz) x"
    and r: "rt_malloc sz h = Some (heap_ptr h + x + 12, h')" "wf_heap h' xs'" "same_heap h h'"
    "heap_allocs h' xs' = Set.insert (heap_ptr h + x + 12,
       if splits (malloc_size sz) x h then malloc_size sz else hnext (blk h x) - x - 12) (heap_allocs h xs)"
    "lfree_lowest h xs \<Longrightarrow> lfree_lowest h' xs'"
    by (rule rt_malloc_some[OF w s True]) blast
  let ?n = "if splits (malloc_size sz) x h then malloc_size sz else hnext (blk h x) - x - 12"
  have "sz \<le> ?n" using x(2) malloc_size_ok(1)[OF s(2)] by (simp add: malloc_fits_def)
  moreover have "(heap_ptr h + x + 12, ?n) \<notin> heap_allocs h xs"
    using x(2) by (auto simp: malloc_fits_def elim!: heap_allocsE)
  ultimately show ?thesis using r by fastforce
next
  case False
  then show ?thesis using rt_malloc_none[OF w] sz by (fastforce simp: malloc_valid_def)
qed

interpretation sys_heap: block_allocator heap_rep rt_malloc rt_free malloc_asks malloc_valid
proof unfold_locales
  show "apart p n q m" if "heap_rep h R" "(p, n) \<in> R" "(q, m) \<in> R" "(p, n) \<noteq> (q, m)" for h R p n q m
    using that heap_allocs_apart[OF wf_heapD(1)] by (auto simp: heap_rep_def)
  show "p \<noteq> 0" if "heap_rep h R" "(p, n) \<in> R" for h R p n
    using that heap_allocs_in_heap(1)[OF wf_heapD(1)] by (fastforce simp: heap_rep_def)
  show "\<exists>p h'. rt_malloc r h = Some (p, h') \<and>
      (p = 0 \<and> heap_rep h' R \<or> (\<exists>n. malloc_asks r n \<and> (p, n) \<notin> R \<and> heap_rep h' (Set.insert (p, n) R)))"
    if hr: "heap_rep h R" "malloc_valid r" for h R r
  proof -
    obtain xs where xs: "wf_heap h xs" "R = heap_allocs h xs" using hr(1) unfolding heap_rep_def by blast
    obtain p h' where r: "rt_malloc r h = Some (p, h')" and c: "p = 0 \<and> h' = h \<or>
      (\<exists>n xs'. r \<le> n \<and> (p, n) \<notin> R \<and> wf_heap h' xs' \<and> heap_allocs h' xs' = Set.insert (p, n) R)"
      using rt_malloc_rep[OF xs(1) hr(2)] unfolding xs(2) by blast
    from c hr(1) have "p = 0 \<and> heap_rep h' R \<or> (\<exists>n. malloc_asks r n \<and> (p, n) \<notin> R \<and> heap_rep h' (Set.insert (p, n) R))"
      unfolding heap_rep_def malloc_asks_def by metis
    then show ?thesis using r by blast
  qed
  show "\<exists>h'. rt_free p h = Some h' \<and> heap_rep h' (R - {(p, n)})" if hr: "heap_rep h R" "(p, n) \<in> R" for h R p n
  proof -
    obtain xs where xs: "wf_heap h xs" "R = heap_allocs h xs" using hr(1) unfolding heap_rep_def by blast
    obtain h' xs' where "rt_free p h = Some h'" "wf_heap h' xs'" "heap_allocs h' xs' = heap_allocs h xs - {(p, n)}"
      using rt_free_ok[OF xs(1)] hr(2) xs(2) by metis
    then show ?thesis unfolding heap_rep_def xs(2) by metis
  qed
qed

subsection \<open>Memory pools\<close>

definition pool_rep :: "nat \<Rightarrow> nat \<Rightarrow> kernel \<Rightarrow> (nat \<times> nat) set \<Rightarrow> bool" where
  "pool_rep a bs k R \<longleftrightarrow> wf_kernel 1 k \<and> mp_waiters_ok a k \<and> lists k (Susp a) = [] \<and> block_size (mempools k a) = bs \<and> 0 < bs \<and>
     (\<exists>f. mp_rep a f k \<and> R = (\<lambda>p. (p, bs)) ` mp_used a f k)"

definition pool_alloc :: "nat \<Rightarrow> unit \<Rightarrow> kernel \<Rightarrow> (nat \<times> kernel) option" where
  "pool_alloc a _ k = (case rt_mp_alloc a 0 k of Some (Ret p, k) \<Rightarrow> Some (p, k) | _ \<Rightarrow> None)"

lemma mp_used_apart:
  assumes "p \<in> mp_used a f k" "q \<in> mp_used a f k" "p \<noteq> q"
  shows "apart p (block_size (mempools k a)) q (block_size (mempools k a))"
proof -
  obtain x y where xy: "p = x + 4" "q = y + 4" "slot (start_address (mempools k a)) (block_size (mempools k a) + 4) (block_total_count (mempools k a)) x"
    "slot (start_address (mempools k a)) (block_size (mempools k a) + 4) (block_total_count (mempools k a)) y"
    using assms(1,2) by (auto simp: mp_used_def Let_def)
  then have "x \<noteq> y" using assms(3) by auto
  from slot_sep[OF xy(3,4) this] show ?thesis by (auto simp: apart_def xy)
qed

lemma pool_alloc_law:
  assumes "pool_rep a bs k R"
  shows "\<exists>p k'. pool_alloc a r k = Some (p, k') \<and>
    (p = 0 \<and> pool_rep a bs k' R \<or> (\<exists>n. n = bs \<and> (p, n) \<notin> R \<and> pool_rep a bs k' (Set.insert (p, n) R)))"
proof -
  obtain f where w: "wf_kernel 1 k" and q: "mp_waiters_ok a k" "lists k (Susp a) = []" "block_size (mempools k a) = bs" "0 < bs"
    and f: "mp_rep a f k" "R = (\<lambda>p. (p, bs)) ` mp_used a f k"
    using assms unfolding pool_rep_def by blast
  note c = mp_repD(2)[OF f(1)]
  show ?thesis
  proof (cases f)
    case Nil
    let ?k = "rt_set_errno (- RT_ETIMEOUT) k"
    have "pool_alloc a r k = Some (0, ?k)" using c Nil by (simp add: pool_alloc_def rt_mp_alloc_def mp_alloc_loop_def)
    moreover have fr: "ipc_frame k ?k" "wf_kernel 1 ?k" "lists ?k = lists k" "mempools ?k = mempools k"
      using w ipc_frameD(6)[OF ipc_frame_set_errno] by (simp_all add: ipc_frame_set_errno)
    then have "pool_rep a bs ?k R"
      using q f mp_frame[OF fr(1)] mp_used_frame[OF fr(1)] unfolding pool_rep_def mp_waiters_ok_def by auto
    ultimately show ?thesis by blast
  next
    case (Cons x f')
    obtain k' where t: "mp_take a k = Some (x + 4, k')" "mp_rep a f' k'" "mp_used a f' k' = Set.insert (x + 4) (mp_used a f k)"
      "x + 4 \<notin> mp_used a f k" "lists k' = lists k" "suspend_thread_count (mempools k' a) = suspend_thread_count (mempools k a)"
      "wf_kernel 1 k'" using mp_take_ok[of a x f' k 1] f(1) w Cons by blast
    have "block_size (mempools k' a) = bs" using t(1) q(3) by (auto simp: mp_take_def Let_def bind_eq_Some_conv)
    then have "pool_rep a bs k' (Set.insert (x + 4, bs) R)"
      using q t(2,3,5-7) f(2) unfolding pool_rep_def mp_waiters_ok_def by auto
    moreover have "pool_alloc a r k = Some (x + 4, k')"
      using c Cons t(1) by (simp add: pool_alloc_def rt_mp_alloc_def mp_alloc_loop_def)
    moreover have "(x + 4, bs) \<notin> R" using t(4) f(2) by auto
    ultimately show ?thesis by blast
  qed
qed

lemma pool_release_law:
  assumes "pool_rep a bs k R" "(p, n) \<in> R"
  shows "\<exists>k'. rt_mp_free p k = Some k' \<and> pool_rep a bs k' (R - {(p, n)})"
proof -
  obtain f where w: "wf_kernel 1 k" and q: "mp_waiters_ok a k" "lists k (Susp a) = []" "block_size (mempools k a) = bs" "0 < bs"
    and f: "mp_rep a f k" "R = (\<lambda>p. (p, bs)) ` mp_used a f k"
    using assms(1) unfolding pool_rep_def by blast
  have n: "n = bs" "p \<in> mp_used a f k" using assms(2) f(2) by auto
  then obtain x where x: "p = x + 4" by (auto simp: mp_used_def Let_def)
  have u: "x + 4 \<in> mp_used a f k" using n x by simp
  have r: "rt_mp_free p k = Some (mp_give_back a x k)"
    using mp_free_eq[OF f(1) u w] q(1,2) x by (simp add: mp_waiters_ok_def)
  note g = mp_give_back_ok[OF f(1) u] and o = rt_mp_free_ok[OF w f(1) q(1) u, of "mp_give_back a x k"]
  have "block_size (mempools (mp_give_back a x k) a) = bs" using q(3) by (simp add: mp_give_back_def)
  moreover have "R - {(p, n)} = (\<lambda>p. (p, bs)) ` mp_used a (x # f) (mp_give_back a x k)" using g(5) f(2) n(1) x by auto
  ultimately have "pool_rep a bs (mp_give_back a x k) (R - {(p, n)})"
    using o(1,5) r q(2,4) g(1) x unfolding pool_rep_def by auto
  then show ?thesis using r by blast
qed

interpretation pool: block_allocator "pool_rep a bs" "pool_alloc a" rt_mp_free "\<lambda>_ n. n = bs" "\<lambda>_. True"
proof unfold_locales
  show "apart p n q m" if "pool_rep a bs k R" "(p, n) \<in> R" "(q, m) \<in> R" "(p, n) \<noteq> (q, m)" for k R p n q m
    using that mp_used_apart[of p a _ k q] by (auto simp: pool_rep_def)
  show "p \<noteq> 0" if "pool_rep a bs k R" "(p, n) \<in> R" for k R p n
    using that by (auto simp: pool_rep_def mp_used_def Let_def)
  show "\<exists>p k'. pool_alloc a r k = Some (p, k') \<and>
      (p = 0 \<and> pool_rep a bs k' R \<or> (\<exists>n. n = bs \<and> (p, n) \<notin> R \<and> pool_rep a bs k' (Set.insert (p, n) R)))"
    if "pool_rep a bs k R" for k R and r :: unit
    by (rule pool_alloc_law[OF that])
  show "\<exists>k'. rt_mp_free p k = Some k' \<and> pool_rep a bs k' (R - {(p, n)})" if "pool_rep a bs k R" "(p, n) \<in> R" for k R p n
    by (rule pool_release_law[OF that])
qed

subsection \<open>The heap at the start\<close>

lemma rt_system_heap_init_ok:
  assumes b: "b + 3 < 2 ^ 32" and e: "e < 2 ^ 32" and sz: "align4 b + 36 \<le> align_down4 e" and u: "used_mem h = 0"
  defines "h' \<equiv> rt_system_heap_init b e h"
  shows "wf_heap h' [0]" "heap_allocs h' [0] = {}" "lfree_lowest h' [0]" "heap_ptr h' = align4 b"
    "heap_ptr h' + heap_end h' + 12 = align_down4 e"
proof -
  note al = align4_ok[OF b]
  let ?last = "align_down4 e - align4 b - 12"
  have d: "4 dvd align_down4 e" "align_down4 e \<le> e" by (auto simp: align_down4_def dvd_minus_mod)
  have l: "align_down4 e - align4 b - 24 + 12 = ?last" "12 \<le> align_down4 e - align4 b - 24" "0 < ?last" "16 \<le> ?last" using sz by linarith+
  have g: "24 < align_down4 e" "align4 b \<le> align_down4 e - 24" using sz by linarith+
  have "4 dvd align_down4 e - align4 b" using d(1) al(3) by (rule dvd_diff_nat)
  then have "4 dvd ?last" by (rule dvd_diff_nat) simp
  have h: "heap_ptr h' = align4 b" "mem_size_aligned h' = align_down4 e - align4 b - 24" "heap_end h' = ?last" "lfree h' = 0"
    "used_mem h' = 0" "blk h' 0 = \<lparr>magic = HEAP_MAGIC, used = 0, hnext = ?last, hprev = 0\<rparr>"
    "blk h' ?last = \<lparr>magic = HEAP_MAGIC, used = 1, hnext = ?last, hprev = ?last\<rparr>"
    using sz l u g by (simp_all add: h'_def rt_system_heap_init_def Let_def upd_blk_def)
  show "heap_ptr h' = align4 b" "heap_ptr h' + heap_end h' + 12 = align_down4 e" using h sz by simp_all
  have "heap_frame h'"
    unfolding heap_frame_def h using l d(2) e al(3) sz \<open>4 dvd ?last\<close> by auto
  then have "heap_chain h' [0]" unfolding heap_chain_def used_total_simps hblocks.simps h using l by (simp add: h)
  then show "wf_heap h' [0]" by (simp add: wf_heap_def lfree_ok_def h)
  have "used (blk h' 0) = 0" by (simp add: h)
  then show "heap_allocs h' [0] = {}" "lfree_lowest h' [0]" by (auto simp: heap_allocs_def lfree_lowest_def h(4) intro!: gr0I)
qed

subsection \<open>Cleared memory\<close>

lemma set_ram_simps:
  "wf_heap (h\<lparr>ram := m\<rparr>) xs = wf_heap h xs" "heap_allocs (h\<lparr>ram := m\<rparr>) xs = heap_allocs h xs"
  "lfree_lowest (h\<lparr>ram := m\<rparr>) xs = lfree_lowest h xs"
  by (simp_all add: wf_heap_def heap_chain_def heap_frame_def lfree_ok_def heap_allocs_def lfree_lowest_def)

lemma rt_calloc_ok:
  assumes w: "wf_heap h xs" and n: "n = count * sz mod 2 ^ 32" and v: "0 < n" "n + 3 < 2 ^ 32"
    and some: "\<exists>x\<in>set xs. malloc_fits h (malloc_size n) x"
  shows "\<exists>p m h' xs'. rt_calloc count sz h = Some (p, h') \<and> p \<noteq> 0 \<and> n \<le> m \<and> m < n + 40 \<and> wf_heap h' xs' \<and>
    heap_allocs h' xs' = Set.insert (p, m) (heap_allocs h xs) \<and> (\<forall>i<n. ram h' (p + i) = 0) \<and>
    (\<forall>q l i. (q, l) \<in> heap_allocs h xs \<longrightarrow> i < l \<longrightarrow> ram h' (q + i) = ram h (q + i))"
proof -
  obtain x h1 xs' where x: "x \<in> set xs" "malloc_fits h (malloc_size n) x"
    and r: "rt_malloc n h = Some (heap_ptr h + x + 12, h1)" "wf_heap h1 xs'" "same_heap h h1"
    and a: "heap_allocs h1 xs' = Set.insert (heap_ptr h + x + 12,
      if splits (malloc_size n) x h then malloc_size n else hnext (blk h x) - x - 12) (heap_allocs h xs)"
    by (rule rt_malloc_some[OF w v some]) blast
  define p m where "p = heap_ptr h + x + 12" and "m = (if splits (malloc_size n) x h then malloc_size n else hnext (blk h x) - x - 12)"
  let ?h = "h1\<lparr>ram := rt_memset p 0 n (ram h1)\<rparr>"
  have s: "n \<le> malloc_size n" "malloc_size n < n + 16" using align4_ok(1,2)[OF v(2)] v(1) by (auto simp: malloc_size_def)
  have m: "n \<le> m" "m < n + 40" using s x(2) by (auto simp: m_def malloc_fits_def splits_def)
  have "mul32 count sz = n" by (simp add: mul32_def n)
  then have c: "rt_calloc count sz h = Some (p, ?h)" using r(1) by (simp add: rt_calloc_def p_def)
  have wf: "wf_heap ?h xs'" "heap_allocs ?h xs' = Set.insert (p, m) (heap_allocs h xs)"
    using r(2) a by (simp_all add: set_ram_simps p_def m_def)
  have z: "\<forall>i<n. ram ?h (p + i) = 0" by (simp add: rt_memset_fill byte_fill_def)
  have "ram ?h (q + i) = ram h (q + i)" if q: "(q, l) \<in> heap_allocs h xs" "i < l" for q l i
  proof -
    have "(p, m) \<notin> heap_allocs h xs"
      using x by (auto simp: heap_allocs_def p_def malloc_fits_def)
    then have "apart p m q l"
      using heap_allocs_apart[OF wf_heapD(1)[OF wf(1)], of p m q l] wf(2) q(1) by auto
    then show ?thesis using m(1) r(3) q(2) by (auto simp: rt_memset_fill byte_fill_def apart_def same_heap_def)
  qed
  then show ?thesis using c wf m z by (intro exI[of _ p] exI[of _ m] exI[of _ ?h] exI[of _ xs']) (simp add: p_def)
qed

lemma rt_calloc_none:
  assumes w: "wf_heap h xs" and n: "n = count * sz mod 2 ^ 32" and v: "0 < n" "n + 3 < 2 ^ 32"
    and none: "\<not> (\<exists>x\<in>set xs. malloc_fits h (malloc_size n) x)"
  shows "rt_calloc count sz h = Some (0, h)"
  using rt_malloc_none[OF w v] none n by (auto simp: rt_calloc_def mul32_def)

subsection \<open>Changing the size of a block\<close>

definition shrink_mark :: "nat \<Rightarrow> nat \<Rightarrow> heap \<Rightarrow> heap" where
  "shrink_mark x x2 h = (split_block x x2 h)\<lparr>used_mem := used_mem h - (hnext (blk h x) - x2)\<rparr>"

lemma shrink_mark_ok:
  assumes w: "wf_heap h (us @ x # vs)" and u: "used (blk h x) \<noteq> 0" and x2: "4 dvd x2" "x + 16 \<le> x2" "x2 + 16 \<le> hnext (blk h x)"
  obtains h' ws where "plug_holes x2 (shrink_mark x x2 h) = Some h'" "wf_heap h' ws" "same_heap h h'"
    "heap_allocs h' ws = Set.insert (heap_ptr h + x + 12, x2 - x - 12)
       (heap_allocs h (us @ x # vs) - {(heap_ptr h + x + 12, hnext (blk h x) - x - 12)})"
proof -
  note d = wf_heapD[OF w]
  have l: "x < x2" "x2 < hnext (blk h x)" using x2 by auto
  note s = split_block_simps[of x x2 h, OF l]
  let ?h = "shrink_mark x x2 h"
  have h: "?h = (split_block x x2 h)\<lparr>used_mem := used_mem h - (if used (blk h x) = 0 then 0 else hnext (blk h x) - x2)\<rparr>"
    using u by (simp add: shrink_mark_def)
  note o = split_block_ok[OF d(1) x2 h]
  have sel: "blk ?h = blk (split_block x x2 h)" "heap_ptr ?h = heap_ptr h" "same_heap h ?h"
    using s(1) by (simp_all add: shrink_mark_def same_heap_def)
  have nh: "no_holes (blk h) us" "no_holes (blk h) vs" using d(2) by (auto simp: no_holes_append no_holes_Cons)
  have "no_holes (blk ?h) us = no_holes (blk h) us" "no_holes (blk ?h) vs = no_holes (blk h) vs"
    by (rule no_holes_cong; use o(3) in \<open>auto simp: sel s\<close>)+
  then have nh': "no_holes (blk ?h) (us @ [x])" "no_holes (blk ?h) vs"
    using nh u l by (auto simp: no_holes_append sel s)
  have c: "heap_chain ?h ((us @ [x]) @ x2 # vs)" "lfree_ok ?h ((us @ [x]) @ x2 # vs)" using o(1,2) d(3) by simp_all
  have f: "used (blk ?h x2) = 0" by (simp add: sel s)
  obtain h' ws where p: "plug_holes x2 ?h = Some h'" "wf_heap h' ws" "heap_step ?h ((us @ [x]) @ x2 # vs) h' ws"
    by (rule plug_holes_ok[OF c f nh']) blast
  let ?f = "\<lambda>z. (heap_ptr h + z + 12, hnext (blk h z) - z - 12)" and ?U = "{z \<in> set (us @ x # vs). used (blk h z) \<noteq> 0}"
  have i: "inj ?f" by (simp add: inj_on_def)
  have U: "{z \<in> set ((us @ [x]) @ x2 # vs). used (blk ?h z) \<noteq> 0} = Set.insert x (?U - {x})"
    using o(3) u l by (auto simp: sel s)
  have "heap_allocs ?h ((us @ [x]) @ x2 # vs) = Set.insert (heap_ptr h + x + 12, x2 - x - 12) (?f ` (?U - {x}))"
    unfolding heap_allocs_def U sel(2) image_insert
    by (intro arg_cong2[where f = Set.insert] image_cong) (use o(3) in \<open>auto simp: sel s\<close>)
  also have "?f ` (?U - {x}) = heap_allocs h (us @ x # vs) - {(heap_ptr h + x + 12, hnext (blk h x) - x - 12)}"
    unfolding heap_allocs_def image_set_diff[OF i] by simp
  finally show ?thesis using that[OF p(1,2)] p(3) same_heap_trans[OF sel(3)] by (auto simp: heap_step_def)
qed

lemma rt_realloc_eq:
  assumes w: "heap_chain h xs" and x: "x \<in> set xs" "used (blk h x) \<noteq> 0" and A: "A = align4 ns" "0 < A" "A \<le> mem_size_aligned h"
  defines "p \<equiv> heap_ptr h + x + 12" and "n \<equiv> hnext (blk h x) - x - 12"
  shows "rt_realloc p ns h =
    (if n = A then Some (p, h)
     else if A + 24 < n then map_option (Pair p) (plug_holes (x + 12 + A) (shrink_mark x (x + 12 + A) h))
     else do {
       (nmem, h) \<leftarrow> rt_malloc A h;
       if nmem \<noteq> 0 then do {
         let h = h\<lparr>ram := rt_memcpy nmem p (min n A) (ram h)\<rparr>;
         h \<leftarrow> rt_free p h;
         Some (nmem, h)
       } else Some (nmem, h)
     })"
proof -
  note d = heap_chainD[OF w] and f = heap_frameD[OF heap_chainD(1)[OF w]]
  let ?y = "hnext (blk h x)"
  have b: "x + 16 \<le> ?y" "?y \<le> heap_end h" using hblocks_bounds[OF d(2) x(1)] by auto
  obtain us vs where xs: "xs = us @ x # vs" using x(1) by (meson split_list)
  have t: "?y - x \<le> used_mem h" "used_mem h \<le> heap_end h" using d(5) x(2) used_total_le[OF d(2)] by (auto simp: xs)
  have s: "sub32 p (heap_ptr h) = x + 12" "sub32 (x + 12) 12 = x" "sub32 ?y x = ?y - x" "sub32 (?y - x) 12 = n"
    "add32 A 12 = A + 12" "add32 (A + 12) 12 = A + 24"
    "add32 (mem_size_aligned h) 12 = heap_end h" "sub32 (used_mem h) (n - A) = used_mem h - (n - A)"
    using b f A t by (simp_all add: add32_less sub32_le p_def n_def)
  have s': "add32 (add32 x 12) A = x + 12 + A" if "A + 24 < n" using b f that by (simp add: add32_less n_def)
  have c: "\<not> mem_size_aligned h < A" "A \<noteq> 0" "p \<noteq> 0" "\<not> (p < heap_ptr h \<or> heap_ptr h + heap_end h \<le> p)"
    using b f(1) A by (auto simp: p_def)
  have m: "(if ?y \<noteq> heap_end h then upd_blk ?y (\<lambda>b. b\<lparr>hprev := x + 12 + A\<rparr>) g else g) = shrink_mark x (x + 12 + A) h"
    if "A + 24 < n" "g = upd_blk x (\<lambda>b. b\<lparr>hnext := x + 12 + A\<rparr>) (upd_blk (x + 12 + A)
      (\<lambda>b. \<lparr>magic = HEAP_MAGIC, used = 0, hnext = ?y, hprev = x\<rparr>) (h\<lparr>used_mem := used_mem h - (n - A)\<rparr>))" for g
    unfolding shrink_mark_def split_block_def Let_def that(2)
    by (intro heap.equality) (use that b in \<open>simp_all add: upd_blk_def n_def\<close>)
  have ms: "mem_size_aligned (upd_blk z g h') = mem_size_aligned h'" for z g h' by (simp add: upd_blk_def)
  show ?thesis
    unfolding rt_realloc_def Let_def A(1)[symmetric] s if_not_P[OF c(1)] if_not_P[OF c(2)] if_not_P[OF c(3)] if_not_P[OF c(4)] ms
    using m by (simp add: s s' cong: if_cong)
qed

text \<open>The block that is too small is copied to a new one and freed.\<close>

lemma realloc_move_ok:
  assumes w: "wf_heap h xs" and a: "(p, n) \<in> heap_allocs h xs" and A: "malloc_valid A"
  shows "\<exists>q h'. (do {
      (nmem, h) \<leftarrow> rt_malloc A h;
      if nmem \<noteq> 0 then do {
        let h = h\<lparr>ram := rt_memcpy nmem p (min n A) (ram h)\<rparr>;
        h \<leftarrow> rt_free p h;
        Some (nmem, h)
      } else Some (nmem, h)
    }) = Some (q, h') \<and>
    (q = 0 \<and> h' = h \<or> q \<noteq> 0 \<and> (\<exists>m xs'. A \<le> m \<and> wf_heap h' xs' \<and> heap_allocs h' xs' = Set.insert (q, m) (heap_allocs h xs - {(p, n)}) \<and>
       (\<forall>i<min n A. ram h' (q + i) = ram h (p + i))))"
proof -
  obtain q h1 where r: "rt_malloc A h = Some (q, h1)" "same_heap h h1" and c: "q = 0 \<and> h1 = h \<or>
     (\<exists>m xs1. A \<le> m \<and> q \<noteq> 0 \<and> (q, m) \<notin> heap_allocs h xs \<and> wf_heap h1 xs1 \<and>
        heap_allocs h1 xs1 = Set.insert (q, m) (heap_allocs h xs))" using rt_malloc_rep[OF w A] by blast
  show ?thesis
  proof (cases "q = 0")
    case True
    then show ?thesis using r c by auto
  next
    case False
    obtain m xs1 where m: "A \<le> m" "(q, m) \<notin> heap_allocs h xs" "wf_heap h1 xs1"
      "heap_allocs h1 xs1 = Set.insert (q, m) (heap_allocs h xs)" using c False by blast
    let ?h = "h1\<lparr>ram := rt_memcpy q p (min n A) (ram h1)\<rparr>"
    have ap: "apart q m p n"
      by (rule heap_allocs_apart[OF wf_heapD(1)[OF m(3)]]) (use m a in auto)
    have "q \<le> p \<or> p + min n A \<le> q" using ap m(1) by (auto simp: apart_def min_def)
    then have cp: "ram ?h = byte_copy q p (min n A) (ram h)"
      using rt_memcpy_byte_copy r(2) by (auto simp: same_heap_def)
    have w': "wf_heap ?h xs1" and a': "(p, n) \<in> heap_allocs ?h xs1" using m a by (simp_all add: set_ram_simps)
    obtain h' xs' where f: "rt_free p ?h = Some h'" "wf_heap h' xs'" "same_heap ?h h'"
      "heap_allocs h' xs' = heap_allocs ?h xs1 - {(p, n)}" by (rule rt_free_ok[OF w' a']) blast
    have "heap_allocs h' xs' = Set.insert (q, m) (heap_allocs h xs - {(p, n)})"
      using f(4) m a by (auto simp: set_ram_simps)
    moreover have "\<forall>i<min n A. ram h' (q + i) = ram h (p + i)"
      using f(3) cp by (simp add: same_heap_def byte_copy_def)
    ultimately show ?thesis using r(1) False f(1,2) m(1) by (auto simp: Let_def)
  qed
qed

lemma rt_realloc_ok:
  assumes w: "wf_heap h xs" and a: "(p, n) \<in> heap_allocs h xs" and ns: "malloc_valid ns"
  shows "\<exists>q h'. rt_realloc p ns h = Some (q, h') \<and>
    (q = 0 \<and> h' = h \<or> q \<noteq> 0 \<and> (\<exists>m xs'. ns \<le> m \<and> wf_heap h' xs' \<and> heap_allocs h' xs' = Set.insert (q, m) (heap_allocs h xs - {(p, n)}) \<and>
       (\<forall>i<min n ns. ram h' (q + i) = ram h (p + i))))"
proof -
  note d = wf_heapD[OF w] heap_chainD[OF wf_heapD(1)[OF w]]
  note f = heap_frameD[OF d(4)] and al = align4_ok[of ns] and ih = heap_allocs_in_heap[OF d(1) a]
  obtain x where x: "x \<in> set xs" "used (blk h x) \<noteq> 0" "p = heap_ptr h + x + 12" "n = hnext (blk h x) - x - 12"
    using a by (rule heap_allocsE)
  let ?A = "align4 ns" and ?y = "hnext (blk h x)"
  have A: "0 < ?A" "ns \<le> ?A" "4 dvd ?A" using al ns by (auto simp: malloc_valid_def)
  have b: "x + 16 \<le> ?y" "?y \<le> heap_end h" "4 dvd x" using hblocks_bounds[OF d(5) x(1)] by auto
  consider "mem_size_aligned h < ?A" | "?A \<le> mem_size_aligned h" "?A = n" | "?A \<le> mem_size_aligned h" "?A + 24 < n"
    | "?A \<le> mem_size_aligned h" "?A \<noteq> n" "\<not> ?A + 24 < n" by linarith
  then show ?thesis
  proof cases
    case 1
    then show ?thesis by (simp add: rt_realloc_def)
  next
    case 3
    let ?x2 = "x + 12 + ?A"
    obtain us vs where xs: "xs = us @ x # vs" using x(1) by (meson split_list)
    have x2: "4 dvd ?x2" "x + 16 \<le> ?x2" "?x2 + 16 \<le> ?y"
      using b(3) A 3 x(4) by (auto intro!: dvd_add dest: dvd_imp_le)
    obtain h' ws where r: "plug_holes ?x2 (shrink_mark x ?x2 h) = Some h'" "wf_heap h' ws" "same_heap h h'"
      "heap_allocs h' ws = Set.insert (p, ?x2 - x - 12) (heap_allocs h xs - {(p, n)})"
      using shrink_mark_ok[OF w[unfolded xs] x(2) x2] unfolding xs x(3,4) by metis
    have "rt_realloc p ns h = Some (p, h')" using rt_realloc_eq[OF d(1) x(1,2) refl A(1)] 3 r(1) x(3,4) by simp
    moreover have "?x2 - x - 12 = ?A" by simp
    ultimately show ?thesis using r(2-4) A(2) ih(1) by (fastforce simp: same_heap_def)
  next
    case 4
    have v: "malloc_valid ?A" using 4 f A(1) by (simp add: malloc_valid_def)
    have r: "rt_realloc p ns h = do {
       (nmem, h) \<leftarrow> rt_malloc ?A h;
       if nmem \<noteq> 0 then do {
         let h = h\<lparr>ram := rt_memcpy nmem p (min n ?A) (ram h)\<rparr>;
         h \<leftarrow> rt_free p h;
         Some (nmem, h)
       } else Some (nmem, h)
     }" unfolding rt_realloc_eq[OF d(1) x(1,2) refl A(1) 4(1), folded x(3,4)] if_not_P[OF 4(2)[symmetric]] if_not_P[OF 4(3)] ..
    obtain q h' where q: "rt_realloc p ns h = Some (q, h')" and c: "q = 0 \<and> h' = h \<or> q \<noteq> 0 \<and> (\<exists>m xs'. ?A \<le> m \<and>
        wf_heap h' xs' \<and> heap_allocs h' xs' = Set.insert (q, m) (heap_allocs h xs - {(p, n)}) \<and>
        (\<forall>i<min n ?A. ram h' (q + i) = ram h (p + i)))" using realloc_move_ok[OF w a v] unfolding r[symmetric] by blast
    have "i < min n ns \<Longrightarrow> i < min n ?A" for i using A(2) by simp
    then show ?thesis using q c A(2) le_trans[of ns ?A] by blast
  next
    case 2
    have r: "rt_realloc p ns h = Some (p, h)" using rt_realloc_eq[OF d(1) x(1,2) refl A(1) 2(1)] 2(2) x(3,4) by simp
    have "heap_allocs h xs = Set.insert (p, n) (heap_allocs h xs - {(p, n)})" using a by auto
    then show ?thesis using r w 2(2) A(2) ih(1) by (intro exI[of _ p] exI[of _ h]) (use r w 2(2) A(2) ih(1) in auto)
  qed
qed

lemma plug_holes_used: "plug_holes x h = Some h' \<Longrightarrow> used_mem h' = used_mem h"
  by (auto simp: plug_holes_def plug_forward_def plug_backward_def upd_blk_def Let_def RT_ASSERT_def split: if_splits)

lemma rt_free_used:
  assumes w: "wf_heap h xs" and a: "(p, n) \<in> heap_allocs h xs" and r: "rt_free p h = Some h'"
  shows "used_mem h' + n + 12 = used_mem h"
proof -
  note d = wf_heapD[OF w] heap_chainD[OF wf_heapD(1)[OF w]]
  obtain x where x: "x \<in> set xs" "used (blk h x) \<noteq> 0" "p = heap_ptr h + x + 12" "n = hnext (blk h x) - x - 12"
    using a by (rule heap_allocsE)
  obtain us vs where xs: "xs = us @ x # vs" using x(1) by (meson split_list)
  have b: "x + 16 \<le> hnext (blk h x)" using hblocks_bounds[OF d(5) x(1)] by auto
  have "used_mem h' = used_mem (free_mark x h)"
    using r rt_free_eq[OF d(1) x(1,2)] plug_holes_used[of x "free_mark x h" h'] x(3) by simp
  also have "\<dots> = used_total (blk (free_mark x h)) (us @ x # vs)"
    by (rule heap_chainD(5)[OF free_mark_ok(1)]) (use d(1) x(2) xs in simp_all)
  also have "\<dots> = used_total (blk (free_mark x h)) us + used_total (blk (free_mark x h)) vs" by simp
  also have "\<dots> = used_total (blk h) us + used_total (blk h) vs"
    using middle_notin[OF d(5)[unfolded xs]] by (intro arg_cong2[where f = "(+)"] used_total_cong) auto
  finally show ?thesis using d(8) x(2,4) b by (simp add: xs)
qed

text \<open>Giving back a part of a block does not lower \<^verbatim>\<open>lfree\<close>.\<close>

lemma plug_holes_lfree:
  assumes "plug_holes x h = Some h'" "lfree h = heap_end h"
  shows "lfree h' = heap_end h'"
  using assms by (auto simp: plug_holes_def plug_forward_def plug_backward_def upd_blk_def Let_def RT_ASSERT_def split: if_splits)

lemma rt_realloc_no_lfree:
  assumes w: "wf_heap h xs" and a: "(p, n) \<in> heap_allocs h xs" and l: "lfree h = heap_end h"
    and ns: "malloc_valid ns" "align4 ns + 24 < n"
  shows "\<exists>h'. rt_realloc p ns h = Some (p, h') \<and> used_mem h' = used_mem h - (n - align4 ns) \<and>
    (\<forall>sz. malloc_valid sz \<longrightarrow> rt_malloc sz h' = Some (0, h'))"
proof -
  note d = wf_heapD[OF w] heap_chainD[OF wf_heapD(1)[OF w]]
  obtain x where x: "x \<in> set xs" "used (blk h x) \<noteq> 0" "p = heap_ptr h + x + 12" "n = hnext (blk h x) - x - 12"
    using a by (rule heap_allocsE)
  obtain us vs where xs: "xs = us @ x # vs" using x(1) by (meson split_list)
  let ?A = "align4 ns" and ?x2 = "x + 12 + align4 ns"
  have A: "0 < ?A" "4 dvd ?A" using align4_ok[of ns] ns(1) by (auto simp: malloc_valid_def)
  have b: "x + 16 \<le> hnext (blk h x)" "hnext (blk h x) \<le> heap_end h" "4 dvd x" using hblocks_bounds[OF d(5) x(1)] by auto
  have m: "?A \<le> mem_size_aligned h" using b ns(2) x(4) heap_frameD(1)[OF d(4)] by linarith
  have x2: "4 dvd ?x2" "x + 16 \<le> ?x2" "?x2 + 16 \<le> hnext (blk h x)"
    using b(3) A ns(2) x(4) by (auto intro!: dvd_add dest: dvd_imp_le)
  obtain h' ws where r: "plug_holes ?x2 (shrink_mark x ?x2 h) = Some h'" "wf_heap h' ws"
    using shrink_mark_ok[OF w[unfolded xs] x(2) x2] by metis
  have e: "rt_realloc p ns h = Some (p, h')" using rt_realloc_eq[OF d(1) x(1,2) refl A(1) m] ns(2) r(1) x(3,4) by simp
  have ll: "?x2 < hnext (blk h x)" "x < ?x2" using x2 by auto
  have "lfree (shrink_mark x ?x2 h) = heap_end (shrink_mark x ?x2 h)"
    using l split_block_simps(1,3)[OF ll(2,1)] by (simp add: shrink_mark_def same_heap_def)
  note k = plug_holes_lfree[OF r(1) this]
  have u: "used_mem h' = used_mem h - (n - ?A)" using plug_holes_used[OF r(1)] x(4) by (simp add: shrink_mark_def)
  have "rt_malloc sz h' = Some (0, h')" if "malloc_valid sz" for sz
  proof (rule rt_malloc_none[OF r(2)])
    show "\<not> malloc_fits h' (malloc_size sz) y" if "y \<in> set ws" for y
      using hblocks_after[OF heap_chainD(2)[OF wf_heapD(1)[OF r(2)]] that] k by (simp add: malloc_fits_def)
  qed (use that in \<open>simp_all add: malloc_valid_def\<close>)
  then show ?thesis using e u by blast
qed

subsection \<open>A heap of 4 KB\<close>

definition sample_heap :: heap where
  "sample_heap = rt_system_heap_init 0x1000 0x2000 empty_heap"

definition sample_full :: heap where
  "sample_full = sample_heap\<lparr>lfree := 4084, used_mem := 4084, max_mem := 4084,
     blk := (blk sample_heap)(0 := \<lparr>magic = HEAP_MAGIC, used = 1, hnext = 4084, hprev = 0\<rparr>)\<rparr>"

lemma sample_heap_simps:
  "heap_ptr sample_heap = 0x1000" "heap_end sample_heap = 4084" "lfree sample_heap = 0" "mem_size_aligned sample_heap = 4072"
  "used_mem sample_heap = 0" "blk sample_heap 0 = \<lparr>magic = HEAP_MAGIC, used = 0, hnext = 4084, hprev = 0\<rparr>"
  by (simp_all add: sample_heap_def rt_system_heap_init_def align4_def align_down4_def add32_def upd_blk_def empty_heap_def)

lemma sample_heap_ok: "wf_heap sample_heap [0]" "heap_allocs sample_heap [0] = {}" "lfree_lowest sample_heap [0]"
  using rt_system_heap_init_ok(1-3)[of "0x1000" "0x2000" empty_heap]
  by (simp_all add: sample_heap_def align4_def align_down4_def add32_def empty_heap_def)

lemma sample_full_ok: "wf_heap sample_full [0]" "heap_allocs sample_full [0] = {(0x100C, 4072)}" "lfree sample_full = heap_end sample_full"
proof -
  have "blk sample_heap 4084 = \<lparr>magic = HEAP_MAGIC, used = 1, hnext = 4084, hprev = 4084\<rparr>"
    by (simp add: sample_heap_def rt_system_heap_init_def align4_def align_down4_def add32_def upd_blk_def empty_heap_def)
  then show "wf_heap sample_full [0]"
    by (simp add: wf_heap_def heap_chain_def heap_frame_def lfree_ok_def sample_full_def sample_heap_simps)
  have "{x \<in> set [0]. used (blk sample_full x) \<noteq> 0} = {0}" by (auto simp: sample_full_def)
  then show "heap_allocs sample_full [0] = {(0x100C, 4072)}"
    unfolding heap_allocs_def by (simp add: sample_full_def sample_heap_simps)
  show "lfree sample_full = heap_end sample_full" by (simp add: sample_full_def sample_heap_simps)
qed

end
