(* ===== verification/Modbus.thy ===== *)
theory Modbus
  imports RtPrelude
begin

text \<open>
  The Modbus RTU master of \<^verbatim>\<open>bsp/stm32f40x/hardware/master.c\<close> with the checksum of \<^verbatim>\<open>modbus.c\<close>, the
  interrupt-driven serial port of \<^verbatim>\<open>uart.c\<close> and the frame timer of \<^verbatim>\<open>timer1.c\<close>. Arrays are lists; an
  access outside an array is undefined in C and \<open>None\<close> here. What the port has been given to send
  is the log \<open>tx2\<close>, whether the frame timer runs is \<open>tim2_on\<close>; which interrupt is pending and the
  data register are arguments of the handlers.
\<close>

section \<open>The checksum\<close>

definition auchCRCHi :: "u8 list" where
  "auchCRCHi =
    [0x00, 0xC1, 0x81, 0x40, 0x01, 0xC0, 0x80, 0x41, 0x01, 0xC0, 0x80, 0x41, 0x00, 0xC1, 0x81, 0x40,
     0x01, 0xC0, 0x80, 0x41, 0x00, 0xC1, 0x81, 0x40, 0x00, 0xC1, 0x81, 0x40, 0x01, 0xC0, 0x80, 0x41,
     0x01, 0xC0, 0x80, 0x41, 0x00, 0xC1, 0x81, 0x40, 0x00, 0xC1, 0x81, 0x40, 0x01, 0xC0, 0x80, 0x41,
     0x00, 0xC1, 0x81, 0x40, 0x01, 0xC0, 0x80, 0x41, 0x01, 0xC0, 0x80, 0x41, 0x00, 0xC1, 0x81, 0x40,
     0x01, 0xC0, 0x80, 0x41, 0x00, 0xC1, 0x81, 0x40, 0x00, 0xC1, 0x81, 0x40, 0x01, 0xC0, 0x80, 0x41,
     0x00, 0xC1, 0x81, 0x40, 0x01, 0xC0, 0x80, 0x41, 0x01, 0xC0, 0x80, 0x41, 0x00, 0xC1, 0x81, 0x40,
     0x00, 0xC1, 0x81, 0x40, 0x01, 0xC0, 0x80, 0x41, 0x01, 0xC0, 0x80, 0x41, 0x00, 0xC1, 0x81, 0x40,
     0x01, 0xC0, 0x80, 0x41, 0x00, 0xC1, 0x81, 0x40, 0x00, 0xC1, 0x81, 0x40, 0x01, 0xC0, 0x80, 0x41,
     0x01, 0xC0, 0x80, 0x41, 0x00, 0xC1, 0x81, 0x40, 0x00, 0xC1, 0x81, 0x40, 0x01, 0xC0, 0x80, 0x41,
     0x00, 0xC1, 0x81, 0x40, 0x01, 0xC0, 0x80, 0x41, 0x01, 0xC0, 0x80, 0x41, 0x00, 0xC1, 0x81, 0x40,
     0x00, 0xC1, 0x81, 0x40, 0x01, 0xC0, 0x80, 0x41, 0x01, 0xC0, 0x80, 0x41, 0x00, 0xC1, 0x81, 0x40,
     0x01, 0xC0, 0x80, 0x41, 0x00, 0xC1, 0x81, 0x40, 0x00, 0xC1, 0x81, 0x40, 0x01, 0xC0, 0x80, 0x41,
     0x00, 0xC1, 0x81, 0x40, 0x01, 0xC0, 0x80, 0x41, 0x01, 0xC0, 0x80, 0x41, 0x00, 0xC1, 0x81, 0x40,
     0x01, 0xC0, 0x80, 0x41, 0x00, 0xC1, 0x81, 0x40, 0x00, 0xC1, 0x81, 0x40, 0x01, 0xC0, 0x80, 0x41,
     0x01, 0xC0, 0x80, 0x41, 0x00, 0xC1, 0x81, 0x40, 0x00, 0xC1, 0x81, 0x40, 0x01, 0xC0, 0x80, 0x41,
     0x00, 0xC1, 0x81, 0x40, 0x01, 0xC0, 0x80, 0x41, 0x01, 0xC0, 0x80, 0x41, 0x00, 0xC1, 0x81, 0x40]"

definition auchCRCLo :: "u8 list" where
  "auchCRCLo =
    [0x00, 0xC0, 0xC1, 0x01, 0xC3, 0x03, 0x02, 0xC2, 0xC6, 0x06, 0x07, 0xC7, 0x05, 0xC5, 0xC4, 0x04,
     0xCC, 0x0C, 0x0D, 0xCD, 0x0F, 0xCF, 0xCE, 0x0E, 0x0A, 0xCA, 0xCB, 0x0B, 0xC9, 0x09, 0x08, 0xC8,
     0xD8, 0x18, 0x19, 0xD9, 0x1B, 0xDB, 0xDA, 0x1A, 0x1E, 0xDE, 0xDF, 0x1F, 0xDD, 0x1D, 0x1C, 0xDC,
     0x14, 0xD4, 0xD5, 0x15, 0xD7, 0x17, 0x16, 0xD6, 0xD2, 0x12, 0x13, 0xD3, 0x11, 0xD1, 0xD0, 0x10,
     0xF0, 0x30, 0x31, 0xF1, 0x33, 0xF3, 0xF2, 0x32, 0x36, 0xF6, 0xF7, 0x37, 0xF5, 0x35, 0x34, 0xF4,
     0x3C, 0xFC, 0xFD, 0x3D, 0xFF, 0x3F, 0x3E, 0xFE, 0xFA, 0x3A, 0x3B, 0xFB, 0x39, 0xF9, 0xF8, 0x38,
     0x28, 0xE8, 0xE9, 0x29, 0xEB, 0x2B, 0x2A, 0xEA, 0xEE, 0x2E, 0x2F, 0xEF, 0x2D, 0xED, 0xEC, 0x2C,
     0xE4, 0x24, 0x25, 0xE5, 0x27, 0xE7, 0xE6, 0x26, 0x22, 0xE2, 0xE3, 0x23, 0xE1, 0x21, 0x20, 0xE0,
     0xA0, 0x60, 0x61, 0xA1, 0x63, 0xA3, 0xA2, 0x62, 0x66, 0xA6, 0xA7, 0x67, 0xA5, 0x65, 0x64, 0xA4,
     0x6C, 0xAC, 0xAD, 0x6D, 0xAF, 0x6F, 0x6E, 0xAE, 0xAA, 0x6A, 0x6B, 0xAB, 0x69, 0xA9, 0xA8, 0x68,
     0x78, 0xB8, 0xB9, 0x79, 0xBB, 0x7B, 0x7A, 0xBA, 0xBE, 0x7E, 0x7F, 0xBF, 0x7D, 0xBD, 0xBC, 0x7C,
     0xB4, 0x74, 0x75, 0xB5, 0x77, 0xB7, 0xB6, 0x76, 0x72, 0xB2, 0xB3, 0x73, 0xB1, 0x71, 0x70, 0xB0,
     0x50, 0x90, 0x91, 0x51, 0x93, 0x53, 0x52, 0x92, 0x96, 0x56, 0x57, 0x97, 0x55, 0x95, 0x94, 0x54,
     0x9C, 0x5C, 0x5D, 0x9D, 0x5F, 0x9F, 0x9E, 0x5E, 0x5A, 0x9A, 0x9B, 0x5B, 0x99, 0x59, 0x58, 0x98,
     0x88, 0x48, 0x49, 0x89, 0x4B, 0x8B, 0x8A, 0x4A, 0x4E, 0x8E, 0x8F, 0x4F, 0x8D, 0x4D, 0x4C, 0x8C,
     0x44, 0x84, 0x85, 0x45, 0x87, 0x47, 0x46, 0x86, 0x82, 0x42, 0x43, 0x83, 0x41, 0x81, 0x80, 0x40]"

definition crc_step :: "u8 \<Rightarrow> u8 \<times> u8 \<Rightarrow> u8 \<times> u8" where
  "crc_step b c =
     (case c of (uchCRCHi, uchCRCLo) \<Rightarrow>
        let uIndex = unat (uchCRCHi XOR b)
        in (uchCRCLo XOR auchCRCHi ! uIndex, auchCRCLo ! uIndex))"

text \<open>\<^verbatim>\<open>crc16(p, n)\<close> of the \<open>n\<close> bytes at \<open>p\<close>.\<close>

definition crc16 :: "u8 list \<Rightarrow> u16" where
  "crc16 msg =
     (case fold crc_step msg (0xFF, 0xFF) of (uchCRCHi, uchCRCLo) \<Rightarrow> push_bit 8 (ucast uchCRCHi) OR ucast uchCRCLo)"

text \<open>The checksum as the protocol defines it: a shift register with the polynomial 0xA001, the low
  byte of which is transmitted first.\<close>

definition crc_bit :: "u16 \<Rightarrow> u16" where
  "crc_bit r = (if bit r 0 then drop_bit 1 r XOR 0xA001 else drop_bit 1 r)"

definition crc_byte :: "u8 \<Rightarrow> u16 \<Rightarrow> u16" where
  "crc_byte b r = (crc_bit ^^ 8) (r XOR ucast b)"

definition crc_ref :: "u8 list \<Rightarrow> u16" where
  "crc_ref msg = fold crc_byte msg 0xFFFF"

section \<open>The serial port\<close>

definition rd :: "'a list \<Rightarrow> nat \<Rightarrow> 'a option" where
  "rd xs i = (if i < length xs then Some (xs ! i) else None)"

definition wr :: "'a list \<Rightarrow> nat \<Rightarrow> 'a \<Rightarrow> 'a list option" where
  "wr xs i x = (if i < length xs then Some (xs[i := x]) else None)"

record uart2 =
  receCount2 :: u8
  receBuf2 :: "u8 list"
  sendCount2 :: u8
  sendBuf2 :: "u8 list"
  sendPosi2 :: u8
  checkoutError2 :: u8
  modbus_com2_over :: u8
  slaveraddr :: u8
  tx2 :: "u8 list"
  tim2_on :: bool

definition Timer2_enable :: "uart2 \<Rightarrow> uart2" where
  "Timer2_enable u = u\<lparr>tim2_on := True\<rparr>"

definition Timer2_disable :: "uart2 \<Rightarrow> uart2" where
  "Timer2_disable u = u\<lparr>tim2_on := False\<rparr>"

definition TIM2_IRQHandler :: "bool \<Rightarrow> uart2 \<Rightarrow> uart2" where
  "TIM2_IRQHandler update u = (if update then (Timer2_disable u)\<lparr>modbus_com2_over := 2\<rparr> else u)"

definition USART_ReceiveData :: "u16 \<Rightarrow> u16" where
  "USART_ReceiveData DR = DR AND 0x1FF"

definition beginSend2 :: "uart2 \<Rightarrow> uart2 option" where
  "beginSend2 u = do {
     let u = u\<lparr>sendPosi2 := 0\<rparr>;
     let u = (if sendCount2 u > 1 then u\<lparr>sendCount2 := sendCount2 u - 1\<rparr> else u);
     b \<leftarrow> rd (sendBuf2 u) 0;
     Some (u\<lparr>tx2 := tx2 u @ [b]\<rparr>)
   }"

definition USART2_IRQHandler :: "bool \<Rightarrow> bool \<Rightarrow> u16 \<Rightarrow> uart2 \<Rightarrow> uart2 option" where
  "USART2_IRQHandler rxne tc DR u =
     (if rxne then do {
        buf \<leftarrow> wr (receBuf2 u) (unat (receCount2 u)) (ucast (USART_ReceiveData DR));
        Some (Timer2_enable (u\<lparr>receBuf2 := buf, receCount2 := receCount2 u + 1\<rparr>))
      }
      else if tc then
        if sendPosi2 u < sendCount2 u then do {
          let u = u\<lparr>sendPosi2 := sendPosi2 u + 1\<rparr>;
          b \<leftarrow> rd (sendBuf2 u) (unat (sendPosi2 u));
          Some (u\<lparr>tx2 := tx2 u @ [b]\<rparr>)
        }
        else Some (u\<lparr>receCount2 := 0, checkoutError2 := 0\<rparr>)
      else Some u)"

section \<open>Requests\<close>

definition HI :: "u16 \<Rightarrow> u8" where
  "HI n = ucast (drop_bit 8 n)"

definition LOW :: "u16 \<Rightarrow> u8" where
  "LOW n = ucast (n AND 0xFF)"

definition construct_rtu_frm :: "u8 list \<Rightarrow> u8 list \<Rightarrow> u8 \<Rightarrow> u8 list option" where
  "construct_rtu_frm dst_buf src_buf lenth = do {
     let crc_tmp = crc16 (take (unat lenth) src_buf);
     src_buf \<leftarrow> wr src_buf (unat lenth) (HI crc_tmp);
     src_buf \<leftarrow> wr src_buf (unat lenth + 1) (LOW crc_tmp);
     let n = unat (lenth + 2);
     if n \<le> length dst_buf then Some (take n src_buf @ drop n dst_buf) else None
   }"

text \<open>A request is built in a local array whose rest \<open>junk\<close> is not initialised; \<^verbatim>\<open>com_buf\<close> is
  \<^verbatim>\<open>sendBuf2\<close> in every call.\<close>

definition rtu_order :: "u8 \<Rightarrow> u8 list \<Rightarrow> u8 \<Rightarrow> u16 \<Rightarrow> u16 \<Rightarrow> uart2 \<Rightarrow> (u16 \<times> uart2) option" where
  "rtu_order code junk board_adr a v u = do {
     let tmp = [board_adr, code, HI a, LOW a, HI v, LOW v] @ junk;
     buf \<leftarrow> construct_rtu_frm (sendBuf2 u) tmp 6;
     u \<leftarrow> beginSend2 (u\<lparr>sendBuf2 := buf, sendCount2 := 8\<rparr>);
     Some (8, u)
   }"

definition rtu_neizu_order :: "u8 list \<Rightarrow> u8 \<Rightarrow> u16 \<Rightarrow> u16 \<Rightarrow> uart2 \<Rightarrow> (u16 \<times> uart2) option" where
  "rtu_neizu_order = rtu_order 7"

definition rtu_read_hldreg :: "u8 list \<Rightarrow> u8 \<Rightarrow> u16 \<Rightarrow> u16 \<Rightarrow> uart2 \<Rightarrow> (u16 \<times> uart2) option" where
  "rtu_read_hldreg = rtu_order 3"

definition rtu_set_hldreg :: "u8 list \<Rightarrow> u8 \<Rightarrow> u16 \<Rightarrow> u16 \<Rightarrow> uart2 \<Rightarrow> (u16 \<times> uart2) option" where
  "rtu_set_hldreg = rtu_order 6"

definition modbus_set_pwm :: "u8 list \<Rightarrow> u16 \<Rightarrow> uart2 \<Rightarrow> uart2 option" where
  "modbus_set_pwm junk pwm u = map_option snd (rtu_set_hldreg junk (slaveraddr u) 0x40 pwm u)"

section \<open>Replies\<close>

fun coil_bits :: "nat \<Rightarrow> nat \<Rightarrow> u16 list \<Rightarrow> u8 list \<Rightarrow> (u16 list \<times> u8 list) option" where
  "coil_bits 0 i dest src = Some (dest, src)"
| "coil_bits (Suc n) i dest src = do {
     b \<leftarrow> rd src 3;
     dest \<leftarrow> wr dest i (ucast (1 AND b));
     src \<leftarrow> wr src 3 (drop_bit 1 b);
     coil_bits n (Suc i) dest src
   }"

partial_function (option) coil_loop :: "nat \<Rightarrow> u8 \<Rightarrow> u16 list \<Rightarrow> u8 list \<Rightarrow> (u16 list \<times> u8 list) option" where
  "coil_loop start tmp1 dest src = do {
     c \<leftarrow> rd src 2;
     if tmp1 < c then do {
       (dest, src) \<leftarrow> coil_bits 8 (start + unat tmp1 * 8) dest src;
       coil_loop start (tmp1 + 1) dest src
     } else Some (dest, src)
   }"

partial_function (option) reg_loop :: "nat \<Rightarrow> u8 \<Rightarrow> u16 list \<Rightarrow> u8 list \<Rightarrow> u16 list option" where
  "reg_loop start tmp1 dest src = do {
     c \<leftarrow> rd src 2;
     if tmp1 < c then do {
       h \<leftarrow> rd src (unat tmp1 + 3);
       l \<leftarrow> rd src (unat tmp1 + 4);
       dest \<leftarrow> wr dest (start + unat tmp1 div 2) (ucast h * 256 + ucast l);
       reg_loop start (tmp1 + 2) dest src
     } else Some dest
   }"

definition rtu_data_anlys ::
  "u16 list \<Rightarrow> u8 list \<Rightarrow> u16 \<Rightarrow> u16 \<Rightarrow> uart2 \<Rightarrow> (int \<times> u16 list \<times> u8 list \<times> uart2) option" where
  "rtu_data_anlys dest src start fr_lenth u = do {
     c1 \<leftarrow> (if 2 \<le> unat fr_lenth then rd src (unat fr_lenth - 2) else None);
     c2 \<leftarrow> rd src (unat fr_lenth - 1);
     let crc_tmp = ucast c1 * 256 + ucast c2;
     let crc_result = crc16 (take (unat (fr_lenth - 2)) src);
     if crc_tmp = crc_result then do {
       f \<leftarrow> rd src 1;
       if f = 1 \<or> f = 2 then do {
         (dest, src) \<leftarrow> coil_loop (unat start) 0 dest src;
         Some (0, dest, src, u\<lparr>receCount2 := 0\<rparr>)
       }
       else if f = 3 \<or> f = 4 then do {
         dest \<leftarrow> reg_loop (unat start) 0 dest src;
         Some (0, dest, src, u\<lparr>receCount2 := 0\<rparr>)
       }
       else Some (- 1, dest, src, u)
     }
     else Some (0, dest, src, u)
   }"

definition modbus_read_current :: "u8 list \<Rightarrow> uart2 \<Rightarrow> (u16 \<times> uart2) option" where
  "modbus_read_current junk u = do {
     (_, u) \<leftarrow> rtu_read_hldreg junk (slaveraddr u) 0x11 0x01 u;
     a \<leftarrow> rd (receBuf2 u) 0;
     if modbus_com2_over u = 2 \<and> a = slaveraddr u then do {
       let u = u\<lparr>modbus_com2_over := 0\<rparr>;
       (_, dest, buf, u) \<leftarrow> rtu_data_anlys [0] (receBuf2 u) 0 7 u;
       Some (dest ! 0, u\<lparr>receBuf2 := buf\<rparr>)
     } else Some (0, u)
   }"

section \<open>The wire\<close>

text \<open>The eight bytes of a request, and \<open>n\<close> transmission-complete interrupts in a row.\<close>

definition rtu_frame :: "u8 \<Rightarrow> u8 \<Rightarrow> u16 \<Rightarrow> u16 \<Rightarrow> u8 list" where
  "rtu_frame board_adr code a v =
     (let body = [board_adr, code, HI a, LOW a, HI v, LOW v]
      in body @ [HI (crc16 body), LOW (crc16 body)])"

fun tc_run :: "nat \<Rightarrow> uart2 \<Rightarrow> uart2 option" where
  "tc_run 0 u = Some u"
| "tc_run (Suc n) u = Option.bind (USART2_IRQHandler False True 0 u) (tc_run n)"

section \<open>The table computes the checksum\<close>

definition crc8 :: "u16 \<Rightarrow> u16" where
  "crc8 r = (crc_bit ^^ 8) r"

lemma crc8_numeral: "crc8 (numeral n) = crc_bit (crc_bit (crc_bit (crc_bit (crc_bit (crc_bit (crc_bit (crc_bit (numeral n))))))))"
  by (simp add: crc8_def numeral_eq_Suc)

lemma crc_bit_numeral: "crc_bit (numeral n) = (if bit (numeral n :: u16) 0 then drop_bit 1 (numeral n) XOR 0xA001 else drop_bit 1 (numeral n))"
  "crc_bit 0 = 0" "crc_bit 1 = 0xA001"
  by (simp_all add: crc_bit_def)

lemma crc8_01: "crc8 0 = 0" "crc8 1 = 0xC0C1"
proof -
  have e: "crc8 r = crc_bit (crc_bit (crc_bit (crc_bit (crc_bit (crc_bit (crc_bit (crc_bit r)))))))" for r
    by (simp add: crc8_def numeral_eq_Suc)
  show "crc8 0 = 0" "crc8 1 = 0xC0C1" unfolding e by (simp_all add: crc_bit_numeral)
qed

definition byte_values :: "u16 list" where
  "byte_values =
    [0, 1, 2, 3, 4, 5, 6, 7, 8, 9, 10, 11, 12, 13, 14, 15, 16, 17, 18, 19, 20, 21, 22, 23, 24, 25, 26,
     27, 28, 29, 30, 31, 32, 33, 34, 35, 36, 37, 38, 39, 40, 41, 42, 43, 44, 45, 46, 47, 48, 49, 50, 51,
     52, 53, 54, 55, 56, 57, 58, 59, 60, 61, 62, 63, 64, 65, 66, 67, 68, 69, 70, 71, 72, 73, 74, 75, 76,
     77, 78, 79, 80, 81, 82, 83, 84, 85, 86, 87, 88, 89, 90, 91, 92, 93, 94, 95, 96, 97, 98, 99, 100,
     101, 102, 103, 104, 105, 106, 107, 108, 109, 110, 111, 112, 113, 114, 115, 116, 117, 118, 119, 120,
     121, 122, 123, 124, 125, 126, 127, 128, 129, 130, 131, 132, 133, 134, 135, 136, 137, 138, 139, 140,
     141, 142, 143, 144, 145, 146, 147, 148, 149, 150, 151, 152, 153, 154, 155, 156, 157, 158, 159, 160,
     161, 162, 163, 164, 165, 166, 167, 168, 169, 170, 171, 172, 173, 174, 175, 176, 177, 178, 179, 180,
     181, 182, 183, 184, 185, 186, 187, 188, 189, 190, 191, 192, 193, 194, 195, 196, 197, 198, 199, 200,
     201, 202, 203, 204, 205, 206, 207, 208, 209, 210, 211, 212, 213, 214, 215, 216, 217, 218, 219, 220,
     221, 222, 223, 224, 225, 226, 227, 228, 229, 230, 231, 232, 233, 234, 235, 236, 237, 238, 239, 240,
     241, 242, 243, 244, 245, 246, 247, 248, 249, 250, 251, 252, 253, 254, 255]"

lemma crc_table: "map crc8 byte_values = map2 (\<lambda>l h. push_bit 8 (ucast l) OR ucast h) auchCRCLo auchCRCHi"
  unfolding byte_values_def auchCRCLo_def auchCRCHi_def
  by (simp add: crc8_numeral crc8_01 crc_bit_numeral)

lemma byte_values_nth: "byte_values = map of_nat [0..<256]"
  by (simp add: byte_values_def upt_conv_Cons)

lemma crc_lengths: "length auchCRCLo = 256" "length auchCRCHi = 256" "length byte_values = 256"
  by (simp_all add: auchCRCLo_def auchCRCHi_def byte_values_def)

lemma crc8_table: "crc8 (ucast b) = push_bit 8 (ucast (auchCRCLo ! unat b)) OR ucast (auchCRCHi ! unat b)" for b :: u8
proof -
  have i: "unat b < 256" using unsigned_less[of b, where ?'a = nat] by simp
  have "crc8 (byte_values ! unat b) = map crc8 byte_values ! unat b" using i by (simp add: crc_lengths)
  also have "\<dots> = push_bit 8 (ucast (auchCRCLo ! unat b)) OR ucast (auchCRCHi ! unat b)"
    unfolding crc_table using i by (simp add: crc_lengths)
  finally show ?thesis using i by (simp add: byte_values_nth of_nat_unat)
qed

lemma crc_bit_xor: "crc_bit (a XOR b) = crc_bit a XOR crc_bit b"
proof -
  have "x XOR 0xA001 XOR (y XOR 0xA001) = x XOR y" for x y :: u16
    by (metis xor.assoc xor.commute xor_self_eq xor.right_neutral)
  then show ?thesis by (auto simp: crc_bit_def bit_xor_iff drop_bit_xor ac_simps)
qed

lemma crc8_xor: "crc8 (a XOR b) = crc8 a XOR crc8 b"
proof -
  have "(crc_bit ^^ n) (a XOR b) = (crc_bit ^^ n) a XOR (crc_bit ^^ n) b" for n
    by (induction n) (simp_all add: crc_bit_xor)
  then show ?thesis by (simp add: crc8_def)
qed

lemma crc8_high: "crc8 (push_bit 8 (ucast h)) = ucast (h :: u8)"
proof -
  have "(crc_bit ^^ n) (push_bit 8 (ucast h)) = push_bit (8 - n) (ucast h :: u16)" if "n \<le> 8" for n
    using that
  proof (induction n)
    case (Suc n)
    have "crc_bit (push_bit (8 - n) (ucast h :: u16)) = push_bit (8 - Suc n) (ucast h)"
    proof -
      have "\<not> bit (push_bit (8 - n) (ucast h :: u16)) 0" using Suc.prems by (simp add: bit_simps)
      moreover have "drop_bit 1 (push_bit (8 - n) (ucast h :: u16)) = push_bit (8 - Suc n) (ucast h)"
        by (rule bit_word_eqI) (use Suc.prems in \<open>auto simp: bit_simps dest: bit_imp_le_length\<close>)
      ultimately show ?thesis by (simp add: crc_bit_def)
    qed
    then show ?case using Suc by simp
  qed simp
  from this[of 8] show ?thesis by (simp add: crc8_def)
qed

definition crc_reg :: "u8 \<times> u8 \<Rightarrow> u16" where
  "crc_reg c = (case c of (h, l) \<Rightarrow> push_bit 8 (ucast l) OR ucast h)"

lemma crc_reg_xor: "crc_reg (h, l) = push_bit 8 (ucast l) XOR ucast h"
  by (rule bit_word_eqI) (auto simp: crc_reg_def bit_simps dest: bit_imp_le_length)

lemma ucast_xor: "ucast (a XOR b) = (ucast a XOR ucast b :: u16)" for a b :: u8
  by (rule bit_word_eqI) (auto simp: bit_simps dest: bit_imp_le_length)

lemma crc_step_ref: "crc_reg (crc_step b c) = crc_byte b (crc_reg c)"
proof (cases c)
  case (Pair h l)
  let ?i = "unat (h XOR b)"
  have "crc_byte b (crc_reg c) = crc8 (push_bit 8 (ucast l) XOR ucast (h XOR b))"
    by (simp add: Pair crc_byte_def crc8_def[symmetric] crc_reg_xor ucast_xor xor.assoc)
  also have "\<dots> = ucast l XOR crc_reg (auchCRCHi ! ?i, auchCRCLo ! ?i)"
    unfolding crc8_xor crc8_high crc8_table by (simp add: crc_reg_def)
  also have "\<dots> = crc_reg (l XOR auchCRCHi ! ?i, auchCRCLo ! ?i)"
    by (simp add: crc_reg_xor ucast_xor ac_simps)
  finally show ?thesis by (simp add: Pair crc_step_def Let_def)
qed

lemma crc16_ref: "crc16 msg = push_bit 8 (crc_ref msg) OR drop_bit 8 (crc_ref msg)"
proof -
  have "crc_reg (fold crc_step msg c) = fold crc_byte msg (crc_reg c)" for c
    by (induction msg arbitrary: c) (simp_all add: crc_step_ref)
  from this[of "(0xFF, 0xFF)"] have r: "crc_ref msg = crc_reg (fold crc_step msg (0xFF, 0xFF))"
    by (simp add: crc_ref_def crc_reg_def)
  obtain h l where f: "fold crc_step msg (0xFF, 0xFF) = (h, l)" by (cases "fold crc_step msg (0xFF, 0xFF)")
  show ?thesis unfolding r f crc16_def
    by (rule bit_word_eqI) (auto simp: crc_reg_def bit_simps dest: bit_imp_le_length)
qed

lemma xor_eq_0: "a XOR b = 0 \<Longrightarrow> a = b" for a b :: u16
proof -
  assume "a XOR b = 0"
  moreover have "a = (a XOR b) XOR b" by (simp add: xor.assoc)
  ultimately show "a = b" by simp
qed

lemma crc_bit_0:
  assumes c: "crc_bit r = 0"
  shows "r = 0"
proof -
  have b0: "\<not> bit r 0"
  proof
    assume "bit r 0"
    then have "drop_bit 1 r XOR 0xA001 = 0" using c by (simp add: crc_bit_def)
    then have d: "drop_bit 1 r = 0xA001" by (rule xor_eq_0)
    have "bit (0xA001 :: u16) 15" by simp
    then have "bit (drop_bit 1 r) 15" unfolding d .
    then show False by (auto simp: bit_simps dest: bit_imp_le_length)
  qed
  then have d: "drop_bit 1 r = 0" using c by (simp add: crc_bit_def)
  have bS: "\<not> bit r (Suc m)" for m
  proof -
    have "bit (drop_bit 1 r) m = bit r (Suc m)" by (simp add: bit_drop_bit_eq)
    then show ?thesis unfolding d by simp
  qed
  show ?thesis
  proof (rule bit_word_eqI)
    show "bit r n = bit 0 n" for n using b0 bS by (cases n) auto
  qed
qed

lemma crc8_inj:
  assumes "crc8 a = crc8 b"
  shows "a = b"
proof -
  have z: "(crc_bit ^^ n) r = 0 \<Longrightarrow> r = 0" for n r by (induction n) (auto dest: crc_bit_0)
  have "crc8 (a XOR b) = 0" using assms by (simp add: crc8_xor)
  then have "a XOR b = 0" unfolding crc8_def by (rule z)
  then show ?thesis by (rule xor_eq_0)
qed

lemma crc_byte_inj:
  "crc_byte b r = crc_byte b r' \<Longrightarrow> r = r'" "crc_byte b r = crc_byte b' r \<Longrightarrow> b = b'"
proof -
  have x: "x XOR z = y XOR z \<Longrightarrow> x = y" for x y z :: u16
  proof -
    assume "x XOR z = y XOR z"
    then have "(x XOR z) XOR z = (y XOR z) XOR z" by simp
    then show "x = y" by (simp add: xor.assoc)
  qed
  show "r = r'" if "crc_byte b r = crc_byte b r'"
    by (rule x, rule crc8_inj) (use that in \<open>simp add: crc_byte_def crc8_def\<close>)
  show "b = b'" if "crc_byte b r = crc_byte b' r"
  proof -
    have "r XOR ucast b = r XOR ucast b'" by (rule crc8_inj) (use that in \<open>simp add: crc_byte_def crc8_def\<close>)
    then have "ucast b XOR r = (ucast b' XOR r :: u16)" by (simp add: xor.commute)
    then have e: "(ucast b :: u16) = ucast b'" by (rule x)
    show ?thesis
    proof (rule bit_word_eqI)
      fix n assume "n < LENGTH(8)"
      moreover have "bit (ucast b :: u16) n = bit (ucast b' :: u16) n" unfolding e ..
      ultimately show "bit b n = bit b' n" by (simp add: bit_simps)
    qed
  qed
qed

lemma crc16_detects:
  assumes "a \<noteq> b"
  shows "crc16 (us @ a # vs) \<noteq> crc16 (us @ b # vs)"
proof
  assume e: "crc16 (us @ a # vs) = crc16 (us @ b # vs)"
  have sw: "push_bit 8 r OR drop_bit 8 r = push_bit 8 r' OR drop_bit 8 r' \<Longrightarrow> r = r'" for r r' :: u16
  proof (rule bit_word_eqI)
    fix n assume q: "push_bit 8 r OR drop_bit 8 r = push_bit 8 r' OR drop_bit 8 r'" and n: "n < LENGTH(16)"
    have "bit (push_bit 8 r OR drop_bit 8 r) m = bit (push_bit 8 r' OR drop_bit 8 r') m" for m using q by simp
    from this[of "n + 8"] this[of "n - 8"] show "bit r n = bit r' n" using n
      by (cases "n < 8") (auto simp: bit_simps dest: bit_imp_le_length)
  qed
  have inj: "fold crc_byte vs r = fold crc_byte vs r' \<Longrightarrow> r = r'" for r r'
    by (induction vs arbitrary: r r') (auto dest: crc_byte_inj(1))
  have "crc_ref (us @ a # vs) = crc_ref (us @ b # vs)" using e sw by (simp add: crc16_ref)
  then have "crc_byte a (fold crc_byte us 0xFFFF) = crc_byte b (fold crc_byte us 0xFFFF)"
    by (simp add: crc_ref_def inj)
  then show False using crc_byte_inj(2) assms by blast
qed

section \<open>Requests reach the wire\<close>

lemma HI_LOW: "ucast (HI c) * 256 + ucast (LOW c) = c"
proof -
  have c: "unat c < 65536" using unsigned_less[of c, where ?'a = nat] by simp
  have "unat (ucast (HI c) :: u16) = unat c div 256"
    using c by (simp add: HI_def unsigned_ucast_eq unsigned_drop_bit_eq drop_bit_eq_div take_bit_eq_mod unat_div unat_mod)
  moreover have "unat (ucast (LOW c) :: u16) = unat c mod 256"
  proof -
    have "c AND 0xFF = take_bit 8 c" by (simp add: take_bit_eq_mask mask_eq_exp_minus_1)
    then show ?thesis by (simp add: LOW_def unsigned_ucast_eq take_bit_eq_mod unat_mod)
  qed
  ultimately have "unat (ucast (HI c) * 256 + ucast (LOW c) :: u16) = unat c"
    using c by (simp add: unat_word_ariths)
  then show ?thesis by (rule unsigned_word_eqI)
qed

lemma construct_rtu_frm_order:
  assumes "length junk = 26" "length buf = 32"
  shows "construct_rtu_frm buf ([b, code, HI a, LOW a, HI v, LOW v] @ junk) 6 =
    Some (rtu_frame b code a v @ drop 8 buf)"
proof -
  obtain x y zs where "junk = x # y # zs" using assms(1) by (cases junk; cases "tl junk") auto
  then show ?thesis using assms by (simp add: construct_rtu_frm_def wr_def rtu_frame_def Let_def)
qed

lemma rtu_order_ok:
  assumes "length junk = 26" "length (sendBuf2 u) = 32"
  shows "rtu_order code junk b a v u = Some (8, u\<lparr>sendBuf2 := rtu_frame b code a v @ drop 8 (sendBuf2 u),
    sendCount2 := 7, sendPosi2 := 0, tx2 := tx2 u @ [b]\<rparr>)"
  using construct_rtu_frm_order[OF assms, of b code a v] assms
  by (simp add: rtu_order_def beginSend2_def rd_def rtu_frame_def Let_def)

lemma tc_run_sends:
  assumes "unat (sendPosi2 u) + n \<le> unat (sendCount2 u)" "unat (sendCount2 u) < length (sendBuf2 u)"
  shows "tc_run n u = Some (u\<lparr>sendPosi2 := sendPosi2 u + of_nat n,
    tx2 := tx2 u @ take n (drop (Suc (unat (sendPosi2 u))) (sendBuf2 u))\<rparr>)"
  using assms
proof (induction n arbitrary: u)
  case (Suc n)
  have lt: "sendPosi2 u < sendCount2 u" using Suc.prems(1) by (simp add: word_less_nat_alt)
  have s: "unat (sendPosi2 u + 1) = Suc (unat (sendPosi2 u))"
    using lt unsigned_less[of "sendCount2 u", where ?'a = nat] by (simp add: unat_word_ariths word_less_nat_alt)
  have i: "Suc (unat (sendPosi2 u)) < length (sendBuf2 u)" using Suc.prems by linarith
  show ?case
    using Suc.prems lt s i
    by (simp add: USART2_IRQHandler_def rd_def Suc.IH Cons_nth_drop_Suc[symmetric] add.assoc)
qed simp

section \<open>Replies\<close>

lemma reg_loop_one:
  assumes "length src = 32"
  shows "reg_loop 0 0 [x] src =
    (if src ! 2 = 0 then Some [x] else if src ! 2 \<le> 2 then Some [ucast (src ! 3) * 256 + ucast (src ! 4)] else None)"
proof -
  have "reg_loop 0 2 [y] src = (if src ! 2 \<le> 2 then Some [y] else None)" for y
    using assms by (subst reg_loop.simps) (auto simp: rd_def wr_def not_le)
  then show ?thesis using assms
    by (subst reg_loop.simps) (auto simp: rd_def wr_def word_neq_0_conv)
qed

lemma rtu_data_anlys_reply:
  assumes "length src = 32" "src ! 1 = 3" "ucast (src ! 5) * 256 + ucast (src ! 6) = crc16 (take 5 src)"
  shows "rtu_data_anlys [x] src 0 7 u =
    map_option (\<lambda>dest. (0, dest, src, u\<lparr>receCount2 := 0\<rparr>)) (reg_loop 0 0 [x] src)"
  using assms by (cases "reg_loop 0 0 [x] src") (simp_all add: rtu_data_anlys_def rd_def)

lemma rtu_data_anlys_damaged:
  assumes "length src = 32" "ucast (src ! 5) * 256 + ucast (src ! 6) \<noteq> crc16 (take 5 src)"
  shows "rtu_data_anlys dest src 0 7 u = Some (0, dest, src, u)"
  using assms by (simp add: rtu_data_anlys_def rd_def)

section \<open>Properties of the master\<close>

text \<open>C38: The table-driven checksum is the Modbus checksum: it equals the bit by bit division by the
  reflected polynomial \<open>0xA001\<close> with the start value \<open>0xFFFF\<close>, with the low byte of the register in
  the high byte of the result, the order in which the frame carries it.\<close>

theorem crc16_bitwise: "crc16 msg = push_bit 8 (crc_ref msg) OR drop_bit 8 (crc_ref msg)"
  by (rule crc16_ref)

text \<open>C39: Setting the pulse width puts the request on the wire. After the call and seven
  transmission-complete interrupts the port has been given exactly the eight bytes of a write of the
  value to register \<open>0x40\<close> of the slave, with the checksum of the first six at the end, whatever the
  uninitialised rest of the local buffer holds; the next such interrupt ends the frame and readies
  the receiver.\<close>

theorem modbus_set_pwm_sent:
  assumes "length junk = 26" "length (sendBuf2 u) = 32"
  shows "\<exists>u1 u2 u3. modbus_set_pwm junk pwm u = Some u1 \<and> tc_run 7 u1 = Some u2 \<and>
    tx2 u2 = tx2 u @ [slaveraddr u, 6, 0, 0x40, HI pwm, LOW pwm] @
      [HI (crc16 [slaveraddr u, 6, 0, 0x40, HI pwm, LOW pwm]), LOW (crc16 [slaveraddr u, 6, 0, 0x40, HI pwm, LOW pwm])] \<and>
    USART2_IRQHandler False True 0 u2 = Some u3 \<and> tx2 u3 = tx2 u2 \<and> receCount2 u3 = 0 \<and> checkoutError2 u3 = 0"
proof -
  let ?f = "rtu_frame (slaveraddr u) 6 0x40 pwm"
  let ?u = "u\<lparr>sendBuf2 := ?f @ drop 8 (sendBuf2 u), sendCount2 := 7, sendPosi2 := 0, tx2 := tx2 u @ [slaveraddr u]\<rparr>"
  have h: "HI 0x40 = 0" "LOW 0x40 = 0x40" by (simp_all add: HI_def LOW_def)
  have f: "length ?f = 8" "slaveraddr u # take 7 (drop 1 ?f) = ?f" by (simp_all add: rtu_frame_def Let_def)
  have "modbus_set_pwm junk pwm u = Some ?u"
    using rtu_order_ok[OF assms, of 6 "slaveraddr u" "0x40" pwm] by (simp add: modbus_set_pwm_def rtu_set_hldreg_def)
  moreover have "tc_run 7 ?u = Some (?u\<lparr>sendPosi2 := 7, tx2 := tx2 u @ [slaveraddr u] @ take 7 (drop 1 ?f)\<rparr>)"
    using tc_run_sends[of ?u 7] assms(2) f(1) by simp
  moreover have "[slaveraddr u] @ take 7 (drop 1 ?f) = ?f" using f(2) by simp
  ultimately show ?thesis by (auto simp: USART2_IRQHandler_def rtu_frame_def h Let_def)
qed

definition sample_uart :: uart2 where
  "sample_uart = \<lparr>receCount2 = 7, receBuf2 = [1, 3, 2, 0x12, 0x34, 0xB5, 0x33] @ replicate 25 0, sendCount2 = 0,
     sendBuf2 = replicate 32 0, sendPosi2 = 0, checkoutError2 = 0, modbus_com2_over = 2, slaveraddr = 1, tx2 = [],
     tim2_on = False\<rparr>"

theorem modbus_set_pwm_sent_witness:
  "\<exists>u1 u2. modbus_set_pwm (replicate 26 0xAA) 500 sample_uart = Some u1 \<and> tc_run 7 u1 = Some u2 \<and>
    take 6 (tx2 u2) = [1, 6, 0, 0x40, 1, 0xF4] \<and> length (tx2 u2) = 8"
proof -
  have "HI 500 = 1" "LOW 500 = 0xF4" by (simp_all add: HI_def LOW_def)
  moreover have "length (replicate 26 (0xAA :: u8)) = 26" "length (sendBuf2 sample_uart) = 32" by (simp_all add: sample_uart_def)
  note modbus_set_pwm_sent[OF this, of 500]
  ultimately show ?thesis by (auto simp: sample_uart_def)
qed

text \<open>C40: Reading the motor current. With a complete reply of the slave in the receive buffer, a reply whose
  checksum is right and whose byte count is 1 or 2 gives the value of its two data bytes, a byte count of
  zero gives 0, and a larger one writes past the single variable of the caller, an undefined step at
  which the model stops: the count on the wire is not checked. A reply whose checksum is
  wrong gives 0, which the caller cannot tell from a current of 0.\<close>

theorem modbus_read_current_reply:
  assumes "length junk = 26" "length (sendBuf2 u) = 32" "length (receBuf2 u) = 32" "modbus_com2_over u = 2"
    "receBuf2 u ! 0 = slaveraddr u" "receBuf2 u ! 1 = 3"
  shows "if ucast (receBuf2 u ! 5) * 256 + ucast (receBuf2 u ! 6) \<noteq> crc16 (take 5 (receBuf2 u)) \<or> receBuf2 u ! 2 = 0
    then map_option fst (modbus_read_current junk u) = Some 0
    else if receBuf2 u ! 2 \<le> 2
    then map_option fst (modbus_read_current junk u) = Some (ucast (receBuf2 u ! 3) * 256 + ucast (receBuf2 u ! 4))
    else modbus_read_current junk u = None"
proof -
  let ?u = "u\<lparr>sendBuf2 := rtu_frame (slaveraddr u) 3 0x11 1 @ drop 8 (sendBuf2 u), sendCount2 := 7, sendPosi2 := 0,
    tx2 := tx2 u @ [slaveraddr u]\<rparr>"
  let ?v = "?u\<lparr>modbus_com2_over := 0\<rparr>"
  have "rtu_read_hldreg junk (slaveraddr u) 0x11 0x01 u = Some (8, ?u)"
    using rtu_order_ok[OF assms(1,2), of 3 "slaveraddr u" "0x11" 1] by (simp add: rtu_read_hldreg_def)
  then have r: "modbus_read_current junk u = do {
      (_, dest, buf, w) \<leftarrow> rtu_data_anlys [0] (receBuf2 u) 0 7 ?v; Some (dest ! 0, w\<lparr>receBuf2 := buf\<rparr>) }"
    using assms(3-5) by (auto simp: modbus_read_current_def rd_def)
  show ?thesis
  proof (cases "ucast (receBuf2 u ! 5) * 256 + ucast (receBuf2 u ! 6) = crc16 (take 5 (receBuf2 u))")
    case True
    then show ?thesis
      using rtu_data_anlys_reply[OF assms(3,6) True, of 0 ?v] by (simp add: r reg_loop_one[OF assms(3)])
  next
    case False
    then show ?thesis using rtu_data_anlys_damaged[OF assms(3) False, of "[0]" ?v] by (simp add: r)
  qed
qed

theorem modbus_read_current_reply_witness:
  "map_option fst (modbus_read_current (replicate 26 0) sample_uart) = Some 0x1234"
proof -
  have c: "crc16 [1, 3, 2, 0x12, 0x34] = 0xB533" by code_simp
  show ?thesis
    using modbus_read_current_reply[of "replicate 26 0" sample_uart] c by (simp add: sample_uart_def)
qed

end
