(* ===== verification/Pid.thy ===== *)
theory Pid
  imports Complex_Main RtPrelude
begin

text \<open>
  The controllers of \<^verbatim>\<open>bsp/stm32f40x/applications/pid.c\<close>. A \<^verbatim>\<open>float\<close> is the rational number it stands
  for; every operation rounds its exact result to 24 significant bits, ties to even, with gradual
  underflow, and \<^verbatim>\<open>double\<close> to 53. The range is not bounded above: the model has no infinities, which
  the values of this application (at most \<open>2 ^ 24\<close> in the command path) never reach. The globals
  of the file that no code reads are left out.
\<close>

section \<open>Floating point\<close>

fun bit_len :: "nat \<Rightarrow> nat" where
  "bit_len n = (if n = 0 then 0 else Suc (bit_len (n div 2)))"

declare bit_len.simps [simp del]

definition pow2 :: "int \<Rightarrow> rat" where
  "pow2 e = (if 0 \<le> e then 2 ^ nat e else 1 / 2 ^ nat (- e))"

text \<open>The exponent of the last of \<open>p\<close> significant bits of \<open>x\<close>.\<close>

definition fl_exp :: "nat \<Rightarrow> rat \<Rightarrow> int" where
  "fl_exp p x =
     (case quotient_of x of (a, b) \<Rightarrow>
        let d = int (bit_len (nat \<bar>a\<bar>)) - int (bit_len (nat b))
        in (if pow2 d \<le> \<bar>x\<bar> then d else d - 1) - int p + 1)"

definition round_even :: "rat \<Rightarrow> int" where
  "round_even x =
     (let f = floor x; r = x - of_int f
      in if r < 1 / 2 then f else if 1 / 2 < r then f + 1 else if even f then f else f + 1)"

definition fl_round :: "nat \<Rightarrow> int \<Rightarrow> rat \<Rightarrow> rat" where
  "fl_round p emin x =
     (if x = 0 then 0
      else let e = max emin (fl_exp p x) in of_int (round_even (x / pow2 e)) * pow2 e)"

definition fround :: "rat \<Rightarrow> rat" where
  "fround = fl_round 24 (- 149)"

definition dround :: "rat \<Rightarrow> rat" where
  "dround = fl_round 53 (- 1074)"

section \<open>The controllers\<close>

definition Parameter :: u16 where
  "Parameter = 1024"

record pid_state =
  ResultValue :: rat
  PIDErrADD :: rat
  ErrBack :: rat
  SeqIntPIDErrADD :: rat
  SeqIntErrBack :: rat
  OverIntPIDErrADD :: rat
  OverIntResultBack :: rat
  OverIntErrBack :: rat

text \<open>Conversion of an \<^verbatim>\<open>int\<close> to \<^verbatim>\<open>s16\<close>, and the \<^verbatim>\<open>%\<close> of C, whose result has the sign of the dividend.\<close>

definition to_s16 :: "int \<Rightarrow> int" where
  "to_s16 i = (i + 32768) mod 65536 - 32768"

definition c_rem :: "int \<Rightarrow> int \<Rightarrow> int" where
  "c_rem a b = sgn a * (\<bar>a\<bar> mod \<bar>b\<bar>)"

text \<open>The error of the two controllers on floats: beyond half a turn it is folded back.\<close>

definition fold_err :: "rat \<Rightarrow> rat \<Rightarrow> rat" where
  "fold_err GiveValue ActualValue =
     (let Err = fround (GiveValue - ActualValue)
      in if \<bar>Err\<bar> > of_int (2 * uint Parameter) then fround (dround (of_int (4 * uint Parameter) - \<bar>Err\<bar>)) else Err)"

definition PID :: "rat \<Rightarrow> rat \<Rightarrow> rat \<Rightarrow> rat \<Rightarrow> rat \<Rightarrow> pid_state \<Rightarrow> rat \<times> pid_state" where
  "PID Kp Ki Kd GiveValue ActualValue st =
     (let Err = fold_err GiveValue ActualValue;
          KpWork = fround (Kp * Err);
          KiWork = fround (Ki * PIDErrADD st);
          KdWork = fround (Kd * fround (Err - ErrBack st));
          result = fround (fround (KpWork + KiWork) + KdWork)
      in (result, st\<lparr>PIDErrADD := fround (PIDErrADD st + Err), ErrBack := Err\<rparr>))"

definition seq_err :: "u16 \<Rightarrow> u16 \<Rightarrow> int" where
  "seq_err GiveValue ActualValue =
     (let Err = to_s16 (c_rem (uint GiveValue - uint ActualValue + 4 * uint Parameter) (4 * uint Parameter))
      in if Err > 2 * uint Parameter then to_s16 (Err - 4 * uint Parameter) else Err)"

definition SeqIntPID :: "rat \<Rightarrow> rat \<Rightarrow> rat \<Rightarrow> u16 \<Rightarrow> u16 \<Rightarrow> pid_state \<Rightarrow> rat \<times> pid_state" where
  "SeqIntPID Kp Ki Kd GiveValue ActualValue st =
     (let Err = seq_err GiveValue ActualValue;
          KpWork = fround (Kp * of_int Err);
          KiWork = fround (Ki * SeqIntPIDErrADD st);
          KdWork = fround (Kd * fround (of_int Err - SeqIntErrBack st));
          result = (if \<bar>Err\<bar> > 100 then fround (KpWork + KdWork) else fround (fround (KpWork + KiWork) + KdWork))
      in (result, st\<lparr>SeqIntPIDErrADD := fround (SeqIntPIDErrADD st + of_int Err), SeqIntErrBack := of_int Err\<rparr>))"

definition OverIntPID :: "rat \<Rightarrow> rat \<Rightarrow> rat \<Rightarrow> rat \<Rightarrow> rat \<Rightarrow> pid_state \<Rightarrow> rat \<times> pid_state" where
  "OverIntPID Kp Ki Kd GiveValue ActualValue st =
     (let Err = fold_err GiveValue ActualValue;
          sum = fround (OverIntPIDErrADD st + Err);
          ADD = (if OverIntResultBack st > 120 then if Err < 0 then sum else OverIntPIDErrADD st
                 else if OverIntResultBack st < 120 then if Err > 0 then sum else OverIntPIDErrADD st
                 else sum);
          KpWork = fround (Kp * Err);
          KiWork = fround (Ki * ADD);
          KdWork = fround (Kd * fround (Err - OverIntErrBack st));
          result = fround (fround (KpWork + KiWork) + KdWork)
      in (result, st\<lparr>OverIntPIDErrADD := ADD, OverIntErrBack := Err, OverIntResultBack := result\<rparr>))"

section \<open>Rounding is exact on small integers\<close>

lemma bit_len_le: "n < 2 ^ k \<Longrightarrow> bit_len n \<le> k"
proof (induction k arbitrary: n)
  case 0
  then show ?case by (simp add: bit_len.simps)
next
  case (Suc k)
  then have "bit_len (n div 2) \<le> k" by (intro Suc.IH) simp
  then show ?case by (subst bit_len.simps) simp
qed

lemma round_even_of_int [simp]: "round_even (of_int i) = i"
  by (simp add: round_even_def)

lemma round_even_near: "\<bar>x - of_int (round_even x)\<bar> \<le> 1 / 2"
  using floor_correct[of x] by (auto simp: round_even_def Let_def)

lemma pow2_pos: "0 < pow2 e"
  by (simp add: pow2_def)

lemma fl_round_near: "\<bar>x - fl_round p emin x\<bar> \<le> pow2 (max emin (fl_exp p x)) / 2"
proof (cases "x = 0")
  case False
  let ?e = "pow2 (max emin (fl_exp p x))"
  have "x - fl_round p emin x = (x / ?e - of_int (round_even (x / ?e))) * ?e"
    using False pow2_pos[of "max emin (fl_exp p x)"] by (simp add: fl_round_def Let_def left_diff_distrib)
  then have "\<bar>x - fl_round p emin x\<bar> = \<bar>x / ?e - of_int (round_even (x / ?e))\<bar> * ?e"
    using pow2_pos[of "max emin (fl_exp p x)"] by (simp add: abs_mult)
  also have "\<dots> \<le> 1 / 2 * ?e"
    using round_even_near[of "x / ?e"] pow2_pos[of "max emin (fl_exp p x)"] by (intro mult_right_mono) auto
  finally show ?thesis by simp
qed (use pow2_pos[of "max emin (fl_exp p 0)"] in \<open>simp add: fl_round_def\<close>)

lemma fround_int:
  assumes "\<bar>i\<bar> < 2 ^ 24"
  shows "fround (of_int i) = of_int i"
proof (cases "i = 0")
  case False
  have q: "quotient_of (of_int i) = (i, 1)" using quotient_of_int[of i] by (simp add: Rat.of_int_def)
  have "nat \<bar>i\<bar> < 2 ^ 24" using assms by simp
  moreover have "bit_len (Suc 0) = 1" by (simp add: bit_len.simps)
  ultimately have "max (- 149) (fl_exp 24 (of_int i)) \<le> 0"
    using bit_len_le[of "nat \<bar>i\<bar>" 24] by (auto simp: fl_exp_def q Let_def)
  then obtain n where n: "max (- 149) (fl_exp 24 (of_int i)) = - int n"
    by (metis nonpos_int_cases)
  have p: "pow2 (- int n) = 1 / 2 ^ n" by (auto simp: pow2_def)
  have "of_int i / pow2 (- int n) = of_int (i * 2 ^ n)" by (simp add: p)
  then have "round_even (of_int i / pow2 (- int n)) = i * 2 ^ n" by (simp only: round_even_of_int)
  then show ?thesis using False n by (simp add: fround_def fl_round_def Let_def p)
qed (simp add: fround_def fl_round_def)

section \<open>The position loop\<close>

text \<open>On the circle of 4096 encoder counts the error is the shorter way round.\<close>

lemma seq_err_mod:
  assumes "uint a < 4096"
  shows "(seq_err g a - (uint g - uint a)) mod 4096 = 0" "- 2048 < seq_err g a" "seq_err g a \<le> 2048"
proof -
  let ?d = "uint g - uint a + 4096"
  have d: "0 < ?d" using assms uint_ge_0[of g] by linarith
  have e: "seq_err g a = (if ?d mod 4096 > 2048 then ?d mod 4096 - 4096 else ?d mod 4096)"
    using d by (simp add: seq_err_def Parameter_def Let_def to_s16_def c_rem_def)
  have "?d mod 4096 = ?d - 4096 * (?d div 4096)" by (rule minus_mult_div_eq_mod[symmetric])
  then have "seq_err g a - (uint g - uint a) = 4096 * (1 - ?d div 4096) \<or> seq_err g a - (uint g - uint a) = 4096 * (- (?d div 4096))"
    unfolding e by (simp add: algebra_simps)
  then show "(seq_err g a - (uint g - uint a)) mod 4096 = 0" by (elim disjE) (simp_all only: mod_mult_self1_is_0)
  define m where "m = ?d mod 4096"
  have "0 \<le> m" "m < 4096" by (simp_all add: m_def)
  then show "- 2048 < seq_err g a" "seq_err g a \<le> 2048" unfolding e m_def[symmetric] by (cases "2048 < m"; simp)+
qed

lemma SeqIntPID_exact:
  assumes "\<bar>seq_err g a\<bar> \<le> 2048" "SeqIntErrBack st = of_int e'" "\<bar>e'\<bar> \<le> 2048"
  shows "fst (SeqIntPID 4 0 50 g a st) = of_int (4 * seq_err g a + 50 * (seq_err g a - e'))"
    "SeqIntErrBack (snd (SeqIntPID 4 0 50 g a st)) = of_int (seq_err g a)"
proof -
  let ?e = "seq_err g a"
  have z: "fround 0 = 0" using fround_int[of 0] by simp
  have r: "fround (4 * of_int ?e) = of_int (4 * ?e)" "fround (of_int ?e - of_int e') = of_int (?e - e')"
    "fround (50 * of_int (?e - e')) = of_int (50 * (?e - e'))" "fround (of_int (4 * ?e)) = of_int (4 * ?e)"
    "fround (of_int (4 * ?e) + of_int (50 * (?e - e'))) = of_int (4 * ?e + 50 * (?e - e'))"
    using assms(1,3) fround_int[of "4 * ?e"] fround_int[of "?e - e'"] fround_int[of "50 * (?e - e')"]
      fround_int[of "4 * ?e + 50 * (?e - e')"] by simp_all
  show "fst (SeqIntPID 4 0 50 g a st) = of_int (4 * ?e + 50 * (?e - e'))"
    unfolding SeqIntPID_def Let_def assms(2) r mult_zero_left z fst_conv add_0_right if_cancel ..
  show "SeqIntErrBack (snd (SeqIntPID 4 0 50 g a st)) = of_int ?e" by (simp add: SeqIntPID_def Let_def)
qed

end
