(* ===== verification/CanBus.thy ===== *)
theory CanBus
  imports RtPrelude
begin

text \<open>
  The CAN driver of the motor controller: the frame packing of
  \<^verbatim>\<open>Libraries/STM32F4xx_StdPeriph_Driver/src/stm32f4xx_can.c\<close> on the registers of the peripheral and
  the commands, the wait for the transmit interrupt and the receive handler of
  \<^verbatim>\<open>bsp/stm32f40x/hardware/can.c\<close>. \<^verbatim>\<open>short\<close> and \<^verbatim>\<open>long\<close> are words read with \<open>sint\<close>.

  The four registers of a receive mailbox (\<^verbatim>\<open>RIR\<close>, \<^verbatim>\<open>RDTR\<close>, \<^verbatim>\<open>RDLR\<close>, \<^verbatim>\<open>RDHR\<close>) have the fields of the transmit
  mailbox, whose names the record \<open>can_mailbox\<close> uses for both. \<open>can_command\<close> is the code that every
  command of the file repeats.

  The hardware is a parameter: the registers are state that the hardware may have left in any
  condition, and \<open>irq\<close> says when the transmit interrupt arrives, \<open>irq 0\<close> before the first test of
  the wait loop and \<open>irq (Suc i)\<close> during its \<open>i\<close>-th delay.
\<close>

record can_msg =
  StdId :: u32
  ExtId :: u32
  IDE :: u8
  RTR :: u8
  DLC :: u8
  Data :: "u8 list"
  FMI :: u8

record can_mailbox =
  TIR :: u32
  TDTR :: u32
  TDLR :: u32
  TDHR :: u32

record CAN_TypeDef =
  TSR :: u32
  sTxMailBox :: "nat \<Rightarrow> can_mailbox"
  sFIFOMailBox :: "nat \<Rightarrow> can_mailbox"
  RF0R :: u32
  RF1R :: u32

record can_state =
  CAN1 :: CAN_TypeDef
  can_tx_success_flag :: u8
  CAN_Time_Out :: u32
  Real_Current_Value :: "nat \<Rightarrow> u16"
  Real_Velocity_Value :: "nat \<Rightarrow> u16"
  Real_Position_Value :: "nat \<Rightarrow> u32"
  Real_Online :: "nat \<Rightarrow> u8"
  Real_Ctl1_Value :: "nat \<Rightarrow> u8"
  Real_Ctl2_Value :: "nat \<Rightarrow> u8"

abbreviation (input) CAN_Id_Standard :: u8 where "CAN_Id_Standard \<equiv> 0"
abbreviation (input) CAN_RTR_Data :: u8 where "CAN_RTR_Data \<equiv> 0"
abbreviation (input) CAN_TxStatus_NoMailBox :: nat where "CAN_TxStatus_NoMailBox \<equiv> 4"
abbreviation (input) CAN_TSR_TME0 :: u32 where "CAN_TSR_TME0 \<equiv> 0x04000000"
abbreviation (input) CAN_TSR_TME1 :: u32 where "CAN_TSR_TME1 \<equiv> 0x08000000"
abbreviation (input) CAN_TSR_TME2 :: u32 where "CAN_TSR_TME2 \<equiv> 0x10000000"
abbreviation (input) TMIDxR_TXRQ :: u32 where "TMIDxR_TXRQ \<equiv> 1"

section \<open>The peripheral library\<close>

definition free_mailbox :: "CAN_TypeDef \<Rightarrow> nat" where
  "free_mailbox can =
     (if TSR can AND CAN_TSR_TME0 = CAN_TSR_TME0 then 0
      else if TSR can AND CAN_TSR_TME1 = CAN_TSR_TME1 then 1
      else if TSR can AND CAN_TSR_TME2 = CAN_TSR_TME2 then 2
      else CAN_TxStatus_NoMailBox)"

definition bytes_word :: "u8 \<Rightarrow> u8 \<Rightarrow> u8 \<Rightarrow> u8 \<Rightarrow> u32" where
  "bytes_word d3 d2 d1 d0 =
     push_bit 24 (ucast d3) OR push_bit 16 (ucast d2) OR push_bit 8 (ucast d1) OR ucast d0"

definition fill_mailbox :: "can_msg \<Rightarrow> can_mailbox \<Rightarrow> can_mailbox" where
  "fill_mailbox m b =
     (let b = b\<lparr>TIR := TIR b AND TMIDxR_TXRQ\<rparr>;
          b = b\<lparr>TIR := TIR b OR
            (if IDE m = CAN_Id_Standard then push_bit 21 (StdId m) OR ucast (RTR m)
             else push_bit 3 (ExtId m) OR ucast (IDE m) OR ucast (RTR m))\<rparr>;
          b = b\<lparr>TDTR := TDTR b AND 0xFFFFFFF0\<rparr>;
          b = b\<lparr>TDTR := TDTR b OR ucast (DLC m AND 0x0F)\<rparr>;
          b = b\<lparr>TDLR := bytes_word (Data m ! 3) (Data m ! 2) (Data m ! 1) (Data m ! 0)\<rparr>;
          b = b\<lparr>TDHR := bytes_word (Data m ! 7) (Data m ! 6) (Data m ! 5) (Data m ! 4)\<rparr>
      in b\<lparr>TIR := TIR b OR TMIDxR_TXRQ\<rparr>)"

definition CAN_Transmit :: "can_msg \<Rightarrow> CAN_TypeDef \<Rightarrow> nat \<times> CAN_TypeDef" where
  "CAN_Transmit m can =
     (let i = free_mailbox can in
      (i, if i \<noteq> CAN_TxStatus_NoMailBox
          then can\<lparr>sTxMailBox := (sTxMailBox can)(i := fill_mailbox m (sTxMailBox can i))\<rparr> else can))"

definition CAN_Receive :: "nat \<Rightarrow> can_msg \<Rightarrow> CAN_TypeDef \<Rightarrow> can_msg \<times> CAN_TypeDef" where
  "CAN_Receive fifo m can =
     (let b = sFIFOMailBox can fifo;
          m = m\<lparr>IDE := 0x04 AND ucast (TIR b)\<rparr>;
          m = (if IDE m = CAN_Id_Standard then m\<lparr>StdId := 0x7FF AND drop_bit 21 (TIR b)\<rparr>
               else m\<lparr>ExtId := 0x1FFFFFFF AND drop_bit 3 (TIR b)\<rparr>);
          m = m\<lparr>RTR := 0x02 AND ucast (TIR b), DLC := 0x0F AND ucast (TDTR b), FMI := ucast (drop_bit 8 (TDTR b)),
            Data := [ucast (TDLR b), ucast (drop_bit 8 (TDLR b)), ucast (drop_bit 16 (TDLR b)), ucast (drop_bit 24 (TDLR b)),
              ucast (TDHR b), ucast (drop_bit 8 (TDHR b)), ucast (drop_bit 16 (TDHR b)), ucast (drop_bit 24 (TDHR b))]\<rparr>
      in (m, if fifo = 0 then can\<lparr>RF0R := RF0R can OR 0x20\<rparr> else can\<lparr>RF1R := RF1R can OR 0x20\<rparr>))"

section \<open>Sending a command\<close>

definition CAN1_TX_IRQHandler :: "bool \<Rightarrow> can_state \<Rightarrow> can_state" where
  "CAN1_TX_IRQHandler pending s = (if pending then s\<lparr>can_tx_success_flag := 1\<rparr> else s)"

function can_wait :: "(nat \<Rightarrow> bool) \<Rightarrow> can_state \<Rightarrow> can_state" where
  "can_wait irq s =
     (if can_tx_success_flag s = 0 then
        let s = CAN1_TX_IRQHandler (irq (Suc (unat (CAN_Time_Out s)))) s;
            s = s\<lparr>CAN_Time_Out := CAN_Time_Out s + 1\<rparr>
        in if CAN_Time_Out s > 100 then s else can_wait irq s
      else s)"
  by pat_completeness auto

termination
proof (relation "measure (\<lambda>(irq, s). unat (100 - CAN_Time_Out s))")
  fix irq :: "nat \<Rightarrow> bool" and s x xa
  assume x: "x = CAN1_TX_IRQHandler (irq (Suc (unat (CAN_Time_Out s)))) s" and xa: "xa = x\<lparr>CAN_Time_Out := CAN_Time_Out x + 1\<rparr>"
    and g: "\<not> 100 < CAN_Time_Out xa"
  have t: "CAN_Time_Out xa = CAN_Time_Out s + 1" using x xa by (simp add: CAN1_TX_IRQHandler_def)
  have e: "100 - CAN_Time_Out s = (100 - CAN_Time_Out xa) + 1" using t by simp
  have l: "unat (100 - CAN_Time_Out xa) < 101" using g by (simp add: unat_sub not_less)
  have "unat (100 - CAN_Time_Out s) = (unat (100 - CAN_Time_Out xa) + unat (1 :: u32)) mod 2 ^ 32"
    unfolding e unat_word_ariths by simp
  then show "((irq, xa), (irq, s)) \<in> measure (\<lambda>(irq, s). unat (100 - CAN_Time_Out s))" using l by simp
qed simp

declare can_wait.simps [simp del]

definition can_send :: "(nat \<Rightarrow> bool) \<Rightarrow> can_msg \<Rightarrow> can_state \<Rightarrow> can_state" where
  "can_send irq m s =
     (let s = s\<lparr>can_tx_success_flag := 0\<rparr>;
          s = s\<lparr>CAN1 := snd (CAN_Transmit m (CAN1 s))\<rparr>;
          s = CAN1_TX_IRQHandler (irq 0) s
      in can_wait irq (s\<lparr>CAN_Time_Out := 0\<rparr>))"

text \<open>The identifier and the guard on group and number are the same in every command.\<close>

definition can_command :: "(nat \<Rightarrow> bool) \<Rightarrow> u16 \<Rightarrow> u8 \<Rightarrow> u8 \<Rightarrow> u8 list \<Rightarrow> can_state \<Rightarrow> can_state" where
  "can_command irq base Group Number dat s =
     (if Group \<le> 7 \<and> Number \<le> 15 then
        let can_id = base OR push_bit 8 (ucast Group) OR push_bit 4 (ucast Number)
        in can_send irq \<lparr>StdId = ucast can_id, ExtId = 0, IDE = CAN_Id_Standard, RTR = CAN_RTR_Data, DLC = 8,
             Data = dat, FMI = 0\<rparr> s
      else s)"

text \<open>The bytes of a 16-bit and a 32-bit value, high byte first, and the limits on the arguments.\<close>

definition hi16 :: "u16 \<Rightarrow> u8" where
  "hi16 w = ucast (drop_bit 8 w AND 0xFF)"

definition lo16 :: "u16 \<Rightarrow> u8" where
  "lo16 w = ucast (w AND 0xFF)"

definition byte32 :: "nat \<Rightarrow> u32 \<Rightarrow> u8" where
  "byte32 n w = ucast (drop_bit n w AND 0xFF)"

definition pwm_limit :: "u16 \<Rightarrow> u16" where
  "pwm_limit p = (if sint p > 5000 then 5000 else if sint p < - 5000 then - 5000 else p)"

definition short_abs :: "u16 \<Rightarrow> u16" where
  "short_abs p = (if sint p < 0 then - p else p)"

definition CAN_RoboModule_DRV_Reset :: "(nat \<Rightarrow> bool) \<Rightarrow> u8 \<Rightarrow> u8 \<Rightarrow> can_state \<Rightarrow> can_state" where
  "CAN_RoboModule_DRV_Reset irq Group Number s =
     can_command irq 0x000 Group Number [0x55, 0x55, 0x55, 0x55, 0x55, 0x55, 0x55, 0x55] s"

definition CAN_RoboModule_DRV_Mode_Choice :: "(nat \<Rightarrow> bool) \<Rightarrow> u8 \<Rightarrow> u8 \<Rightarrow> u8 \<Rightarrow> can_state \<Rightarrow> can_state" where
  "CAN_RoboModule_DRV_Mode_Choice irq Group Number Mode s =
     can_command irq 0x001 Group Number [Mode, 0x55, 0x55, 0x55, 0x55, 0x55, 0x55, 0x55] s"

definition CAN_RoboModule_DRV_OpenLoop_Mode :: "(nat \<Rightarrow> bool) \<Rightarrow> u8 \<Rightarrow> u8 \<Rightarrow> u16 \<Rightarrow> can_state \<Rightarrow> can_state" where
  "CAN_RoboModule_DRV_OpenLoop_Mode irq Group Number Temp_PWM s =
     (let Temp_PWM = pwm_limit Temp_PWM
      in can_command irq 0x002 Group Number
           [hi16 Temp_PWM, lo16 Temp_PWM, 0x55, 0x55, 0x55, 0x55, 0x55, 0x55] s)"

definition CAN_RoboModule_DRV_Current_Mode :: "(nat \<Rightarrow> bool) \<Rightarrow> u8 \<Rightarrow> u8 \<Rightarrow> u16 \<Rightarrow> u16 \<Rightarrow> can_state \<Rightarrow> can_state" where
  "CAN_RoboModule_DRV_Current_Mode irq Group Number Temp_PWM Temp_Current s =
     (let Temp_PWM = short_abs (pwm_limit Temp_PWM)
      in can_command irq 0x003 Group Number
           [hi16 Temp_PWM, lo16 Temp_PWM, hi16 Temp_Current, lo16 Temp_Current, 0x55, 0x55, 0x55, 0x55] s)"

definition CAN_RoboModule_DRV_Velocity_Mode :: "(nat \<Rightarrow> bool) \<Rightarrow> u8 \<Rightarrow> u8 \<Rightarrow> u16 \<Rightarrow> u16 \<Rightarrow> can_state \<Rightarrow> can_state" where
  "CAN_RoboModule_DRV_Velocity_Mode irq Group Number Temp_PWM Temp_Velocity s =
     (let Temp_PWM = short_abs (pwm_limit Temp_PWM)
      in can_command irq 0x004 Group Number
           [hi16 Temp_PWM, lo16 Temp_PWM, hi16 Temp_Velocity, lo16 Temp_Velocity, 0x55, 0x55, 0x55, 0x55] s)"

definition CAN_RoboModule_DRV_Position_Mode :: "(nat \<Rightarrow> bool) \<Rightarrow> u8 \<Rightarrow> u8 \<Rightarrow> u16 \<Rightarrow> u32 \<Rightarrow> can_state \<Rightarrow> can_state" where
  "CAN_RoboModule_DRV_Position_Mode irq Group Number Temp_PWM Temp_Position s =
     (let Temp_PWM = short_abs (pwm_limit Temp_PWM)
      in can_command irq 0x005 Group Number
           [hi16 Temp_PWM, lo16 Temp_PWM, 0x55, 0x55, byte32 24 Temp_Position, byte32 16 Temp_Position,
            byte32 8 Temp_Position, byte32 0 Temp_Position] s)"

definition CAN_RoboModule_DRV_Velocity_Position_Mode ::
  "(nat \<Rightarrow> bool) \<Rightarrow> u8 \<Rightarrow> u8 \<Rightarrow> u16 \<Rightarrow> u16 \<Rightarrow> u32 \<Rightarrow> can_state \<Rightarrow> can_state" where
  "CAN_RoboModule_DRV_Velocity_Position_Mode irq Group Number Temp_PWM Temp_Velocity Temp_Position s =
     (let Temp_PWM = short_abs (pwm_limit Temp_PWM);
          Temp_Velocity = short_abs Temp_Velocity
      in can_command irq 0x006 Group Number
           [hi16 Temp_PWM, lo16 Temp_PWM, hi16 Temp_Velocity, lo16 Temp_Velocity, byte32 24 Temp_Position,
            byte32 16 Temp_Position, byte32 8 Temp_Position, byte32 0 Temp_Position] s)"

definition CAN_RoboModule_DRV_Current_Velocity_Mode ::
  "(nat \<Rightarrow> bool) \<Rightarrow> u8 \<Rightarrow> u8 \<Rightarrow> u16 \<Rightarrow> u16 \<Rightarrow> can_state \<Rightarrow> can_state" where
  "CAN_RoboModule_DRV_Current_Velocity_Mode irq Group Number Temp_Current Temp_Velocity s =
     (let Temp_Current = short_abs Temp_Current
      in can_command irq 0x007 Group Number
           [hi16 Temp_Current, lo16 Temp_Current, hi16 Temp_Velocity, lo16 Temp_Velocity, 0x55, 0x55, 0x55, 0x55] s)"

definition CAN_RoboModule_DRV_Current_Position_Mode ::
  "(nat \<Rightarrow> bool) \<Rightarrow> u8 \<Rightarrow> u8 \<Rightarrow> u16 \<Rightarrow> u32 \<Rightarrow> can_state \<Rightarrow> can_state" where
  "CAN_RoboModule_DRV_Current_Position_Mode irq Group Number Temp_Current Temp_Position s =
     (let Temp_Current = short_abs Temp_Current
      in can_command irq 0x008 Group Number
           [hi16 Temp_Current, lo16 Temp_Current, 0x55, 0x55, byte32 24 Temp_Position, byte32 16 Temp_Position,
            byte32 8 Temp_Position, byte32 0 Temp_Position] s)"

definition CAN_RoboModule_DRV_Current_Velocity_Position_Mode ::
  "(nat \<Rightarrow> bool) \<Rightarrow> u8 \<Rightarrow> u8 \<Rightarrow> u16 \<Rightarrow> u16 \<Rightarrow> u32 \<Rightarrow> can_state \<Rightarrow> can_state" where
  "CAN_RoboModule_DRV_Current_Velocity_Position_Mode irq Group Number Temp_Current Temp_Velocity Temp_Position s =
     (let Temp_Current = short_abs Temp_Current;
          Temp_Velocity = short_abs Temp_Velocity
      in can_command irq 0x009 Group Number
           [hi16 Temp_Current, lo16 Temp_Current, hi16 Temp_Velocity, lo16 Temp_Velocity, byte32 24 Temp_Position,
            byte32 16 Temp_Position, byte32 8 Temp_Position, byte32 0 Temp_Position] s)"

definition CAN_RoboModule_DRV_Config :: "(nat \<Rightarrow> bool) \<Rightarrow> u8 \<Rightarrow> u8 \<Rightarrow> u8 \<Rightarrow> u8 \<Rightarrow> can_state \<Rightarrow> can_state" where
  "CAN_RoboModule_DRV_Config irq Group Number Temp_Time1 Temp_Time2 s =
     can_command irq 0x00A Group Number [Temp_Time1, Temp_Time2, 0x55, 0x55, 0x55, 0x55, 0x55, 0x55] s"

definition CAN_RoboModule_DRV_Online_Check :: "(nat \<Rightarrow> bool) \<Rightarrow> u8 \<Rightarrow> u8 \<Rightarrow> can_state \<Rightarrow> can_state" where
  "CAN_RoboModule_DRV_Online_Check irq Group Number s =
     can_command irq 0x00F Group Number [0x55, 0x55, 0x55, 0x55, 0x55, 0x55, 0x55, 0x55] s"

section \<open>Receiving\<close>

definition short_of :: "u8 \<Rightarrow> u8 \<Rightarrow> u16" where
  "short_of h l = push_bit 8 (ucast h) OR ucast l"

definition rx_values :: "nat \<Rightarrow> u8 list \<Rightarrow> can_state \<Rightarrow> can_state" where
  "rx_values i d s =
     s\<lparr>Real_Current_Value := (Real_Current_Value s)(i := short_of (d ! 0) (d ! 1)),
       Real_Velocity_Value := (Real_Velocity_Value s)(i := short_of (d ! 2) (d ! 3)),
       Real_Position_Value := (Real_Position_Value s)(i := bytes_word (d ! 4) (d ! 5) (d ! 6) (d ! 7))\<rparr>"

definition rx_online :: "nat \<Rightarrow> can_state \<Rightarrow> can_state" where
  "rx_online i s = s\<lparr>Real_Online := (Real_Online s)(i := 1)\<rparr>"

definition rx_limits :: "nat \<Rightarrow> u8 list \<Rightarrow> can_state \<Rightarrow> can_state" where
  "rx_limits i d s =
     s\<lparr>Real_Ctl1_Value := (Real_Ctl1_Value s)(i := d ! 0), Real_Ctl2_Value := (Real_Ctl2_Value s)(i := d ! 1)\<rparr>"

definition rx_dispatch :: "can_msg \<Rightarrow> can_state \<Rightarrow> can_state" where
  "rx_dispatch m s =
     (if StdId m = 0x1B then rx_values 0 (Data m) s
      else if StdId m = 0x2B then rx_values 1 (Data m) s
      else if StdId m = 0x3B then rx_values 2 (Data m) s
      else if StdId m = 0x4B then rx_values 3 (Data m) s
      else if StdId m = 0x1F then rx_online 0 s
      else if StdId m = 0x2F then rx_online 1 s
      else if StdId m = 0x3F then rx_online 2 s
      else if StdId m = 0x4F then rx_online 3 s
      else if StdId m = 0x1C then rx_limits 0 (Data m) s
      else if StdId m = 0x2C then rx_limits 1 (Data m) s
      else if StdId m = 0x3C then rx_limits 2 (Data m) s
      else if StdId m = 0x4C then rx_limits 3 (Data m) s
      else s)"

text \<open>The receive handler, with the uninitialised local message as an argument.\<close>

definition CAN1_RX0_IRQHandler :: "bool \<Rightarrow> can_msg \<Rightarrow> can_state \<Rightarrow> can_state" where
  "CAN1_RX0_IRQHandler pending rx_message s =
     (if pending then
        let (rx_message, can) = CAN_Receive 0 rx_message (CAN1 s);
            s = s\<lparr>CAN1 := can\<rparr>
        in if IDE rx_message = CAN_Id_Standard \<and> IDE rx_message = CAN_RTR_Data \<and> DLC rx_message = 8
           then rx_dispatch rx_message s else s
      else s)"

section \<open>The wait ends\<close>

lemma TX_IRQ_simps [simp]:
  "CAN1 (CAN1_TX_IRQHandler b s) = CAN1 s" "CAN_Time_Out (CAN1_TX_IRQHandler b s) = CAN_Time_Out s"
  "can_tx_success_flag (CAN1_TX_IRQHandler b s) = (if b then 1 else can_tx_success_flag s)"
  by (simp_all add: CAN1_TX_IRQHandler_def)

lemma can_wait_ok:
  assumes "unat (CAN_Time_Out s) \<le> 100" "can_tx_success_flag s \<in> {0, 1}"
  shows "CAN1 (can_wait irq s) = CAN1 s \<and> unat (CAN_Time_Out (can_wait irq s)) \<le> 101 \<and>
    can_tx_success_flag (can_wait irq s) =
      (if can_tx_success_flag s = 1 \<or> (\<exists>i\<in>{unat (CAN_Time_Out s)..100}. irq (Suc i)) then 1 else 0) \<and>
    (can_tx_success_flag (can_wait irq s) = 0 \<longrightarrow> unat (CAN_Time_Out (can_wait irq s)) = 101)"
  using assms
proof (induction "100 - unat (CAN_Time_Out s)" arbitrary: s)
  case (0 s)
  then have n: "unat (CAN_Time_Out s) = 100" by simp
  then have t: "CAN_Time_Out s = 100" by (simp add: word_unat_eq_iff)
  have "{100..100 :: nat} = {100}" by auto
  moreover have "can_wait irq s = (if can_tx_success_flag s = 0
      then (CAN1_TX_IRQHandler (irq 101) s)\<lparr>CAN_Time_Out := 101\<rparr> else s)"
    by (subst can_wait.simps) (simp add: t)
  ultimately show ?case using 0(3) by (auto simp: n)
next
  case (Suc d s)
  let ?n = "unat (CAN_Time_Out s)"
  let ?s1 = "(CAN1_TX_IRQHandler (irq (Suc ?n)) s)\<lparr>CAN_Time_Out := CAN_Time_Out s + 1\<rparr>"
  have n: "?n < 100" using Suc(2) by simp
  then have u: "unat (CAN_Time_Out s + 1) = Suc ?n" by (simp add: unat_word_ariths)
  show ?case
  proof (cases "can_tx_success_flag s = 0")
    case True
    have "\<not> CAN_Time_Out s + 1 > 100" using n u by (simp add: word_less_nat_alt)
    then have r: "can_wait irq s = can_wait irq ?s1" using True by (subst can_wait.simps) (simp add: Let_def)
    have "d = 100 - unat (CAN_Time_Out ?s1)" "unat (CAN_Time_Out ?s1) \<le> 100" "can_tx_success_flag ?s1 \<in> {0, 1}"
      using Suc(2) n u True by auto
    note ih = Suc(1)[OF this]
    have "{?n..100} = Set.insert ?n {Suc ?n..100}" using n by auto
    then show ?thesis using ih True u unfolding r by (cases "irq (Suc ?n)") simp_all
  next
    case False
    then have "can_wait irq s = s" by (subst can_wait.simps) simp
    then show ?thesis using False Suc(4) n by simp
  qed
qed

section \<open>Frames survive the registers\<close>

lemma can_byte_masks: "(0xFF :: u16) = mask 8" "(0xFF :: u32) = mask 8"
  by (simp_all add: mask_eq_exp_minus_1)

lemma bytes_word_bytes [simp]:
  "ucast (bytes_word d3 d2 d1 d0) = d0" "ucast (drop_bit 8 (bytes_word d3 d2 d1 d0)) = d1"
  "ucast (drop_bit 16 (bytes_word d3 d2 d1 d0)) = d2" "ucast (drop_bit 24 (bytes_word d3 d2 d1 d0)) = d3"
  by (rule bit_word_eqI; auto simp: bytes_word_def bit_simps dest: bit_imp_le_length)+

lemma short_of_bytes [simp]: "short_of (hi16 w) (lo16 w) = w"
  by (rule bit_word_eqI) (auto simp: short_of_def hi16_def lo16_def bit_simps can_byte_masks dest: bit_imp_le_length)

lemma bytes_word_byte32 [simp]: "bytes_word (byte32 24 w) (byte32 16 w) (byte32 8 w) (byte32 0 w) = w"
proof (rule bit_word_eqI)
  fix n assume "n < LENGTH(32)"
  then consider "n < 8" | "8 \<le> n" "n < 16" | "16 \<le> n" "n < 24" | "24 \<le> n" "n < 32" by fastforce
  then show "bit (bytes_word (byte32 24 w) (byte32 16 w) (byte32 8 w) (byte32 0 w)) n = bit w n"
    by cases (auto simp: bytes_word_def byte32_def bit_simps can_byte_masks)
qed

lemma bit_consts:
  "bit (4 :: u8) n \<longleftrightarrow> n = 2" "bit (2 :: u8) n \<longleftrightarrow> n = 1" "bit (1 :: u32) n \<longleftrightarrow> n = 0"
  using bit_exp_iff[of 2 n, where 'a = u8] bit_exp_iff[of 1 n, where 'a = u8] by (auto simp: bit_1_iff)

lemma id_masks: "(0x7FF :: u32) = mask 11" "(0x0F :: u8) = mask 4" "(0xFFFFFFF0 :: u32) = NOT (mask 4)"
  by (simp_all add: mask_eq_exp_minus_1 not_eq_complement)

lemma std_id_bits: "w < 0x800 \<Longrightarrow> bit (w :: u32) n \<Longrightarrow> n < 11"
proof -
  assume "w < 0x800" and b: "bit w n"
  then have "take_bit 11 w = w" by (simp add: take_bit_eq_mod mod_word_less)
  then show "n < 11" using b by (metis bit_take_bit_iff)
qed

lemma dlc_bits: "d \<le> 8 \<Longrightarrow> bit (d :: u8) n \<Longrightarrow> n < 4"
proof -
  assume d: "d \<le> 8" and b: "bit d n"
  then have "take_bit 4 d = d" by (simp add: take_bit_eq_mod mod_word_less le_less_trans)
  then show "n < 4" using b by (metis bit_take_bit_iff)
qed

lemma fill_TIR_bit:
  assumes "IDE m = CAN_Id_Standard" "RTR m = 0 \<or> RTR m = 2"
  shows "bit (TIR (fill_mailbox m b)) n \<longleftrightarrow> n = 0 \<or> n < 32 \<and> 21 \<le> n \<and> bit (StdId m) (n - 21) \<or> n = 1 \<and> RTR m = 2"
  using assms by (auto simp: fill_mailbox_def Let_def bit_simps bit_consts)

lemma list_8: "length xs = 8 \<Longrightarrow> [xs ! 0, xs ! 1, xs ! 2, xs ! 3, xs ! 4, xs ! 5, xs ! 6, xs ! 7] = xs"
  by (auto simp: list_eq_iff_nth_eq less_Suc_eq numeral_eq_Suc)

lemma fill_ide:
  assumes "IDE m = 0" "RTR m = 0 \<or> RTR m = 2"
  shows "0x04 AND ucast (TIR (fill_mailbox m b)) = (0 :: u8)"
proof (rule bit_word_eqI)
  show "bit (0x04 AND ucast (TIR (fill_mailbox m b)) :: u8) n = bit (0 :: u8) n" for n
    unfolding bit_and_iff bit_consts bit_unsigned_iff fill_TIR_bit[OF assms] by auto
qed

lemma fill_sid:
  assumes "IDE m = 0" "RTR m = 0 \<or> RTR m = 2" "StdId m < 0x800"
  shows "0x7FF AND drop_bit 21 (TIR (fill_mailbox m b)) = StdId m"
  unfolding id_masks
proof (rule bit_word_eqI)
  fix n assume "n < LENGTH(32)"
  then show "bit (mask 11 AND drop_bit 21 (TIR (fill_mailbox m b))) n = bit (StdId m) n"
    using std_id_bits[OF assms(3), of n] by (auto simp: bit_simps fill_TIR_bit[OF assms(1,2)])
qed

lemma fill_rtr:
  assumes "IDE m = 0" "RTR m = 0 \<or> RTR m = 2"
  shows "0x02 AND ucast (TIR (fill_mailbox m b)) = RTR m"
proof -
  have rb: "bit (RTR m) n \<longleftrightarrow> n = 1 \<and> RTR m = 2" for n
    using assms(2) bit_consts(2)[of n] by (elim disjE) (simp_all only:, simp_all)
  show ?thesis
  proof (rule bit_word_eqI)
    show "bit (0x02 AND ucast (TIR (fill_mailbox m b)) :: u8) n = bit (RTR m) n" for n
      unfolding bit_and_iff bit_consts bit_unsigned_iff fill_TIR_bit[OF assms] rb by auto
  qed
qed

lemma fill_dlc: "DLC m \<le> 8 \<Longrightarrow> 0x0F AND ucast (TDTR (fill_mailbox m b)) = DLC m"
  unfolding fill_mailbox_def Let_def id_masks
  by (rule bit_word_eqI) (use dlc_bits[of "DLC m"] in \<open>auto simp: bit_simps\<close>)

lemma fill_dat: "length (Data m) = 8 \<Longrightarrow> b' = fill_mailbox m b \<Longrightarrow>
   [ucast (TDLR b'), ucast (drop_bit 8 (TDLR b')), ucast (drop_bit 16 (TDLR b')), ucast (drop_bit 24 (TDLR b')),
    ucast (TDHR b'), ucast (drop_bit 8 (TDHR b')), ucast (drop_bit 16 (TDHR b')), ucast (drop_bit 24 (TDHR b'))] = Data m"
  using list_8[of "Data m"] by (simp add: fill_mailbox_def Let_def)

lemma CAN_Receive_fill:
  assumes f: "sFIFOMailBox can 0 = fill_mailbox m b" and i: "IDE m = CAN_Id_Standard" "StdId m < 0x800"
    and r: "RTR m = 0 \<or> RTR m = 2" and d: "DLC m \<le> 8" "length (Data m) = 8"
  shows "IDE (fst (CAN_Receive 0 m0 can)) = IDE m" "StdId (fst (CAN_Receive 0 m0 can)) = StdId m"
    "RTR (fst (CAN_Receive 0 m0 can)) = RTR m" "DLC (fst (CAN_Receive 0 m0 can)) = DLC m"
    "Data (fst (CAN_Receive 0 m0 can)) = Data m"
  by (simp_all add: CAN_Receive_def Let_def f fill_ide[OF i(1) r] fill_sid[OF i(1) r i(2)] fill_rtr[OF i(1) r]
      fill_dlc[OF d(1)] fill_dat[OF d(2) refl] i(1))

section \<open>Commands\<close>

lemma can_send_ok:
  "CAN1 (can_send irq m s) = snd (CAN_Transmit m (CAN1 s))" "unat (CAN_Time_Out (can_send irq m s)) \<le> 101"
  "can_tx_success_flag (can_send irq m s) = (if \<exists>i\<le>101. irq i then 1 else 0)"
  "can_tx_success_flag (can_send irq m s) = 0 \<Longrightarrow> unat (CAN_Time_Out (can_send irq m s)) = 101"
proof -
  let ?s = "(CAN1_TX_IRQHandler (irq 0) (s\<lparr>can_tx_success_flag := 0, CAN1 := snd (CAN_Transmit m (CAN1 s))\<rparr>))\<lparr>CAN_Time_Out := 0\<rparr>"
  have e: "can_send irq m s = can_wait irq ?s" by (simp add: can_send_def Let_def)
  have "CAN1 ?s = snd (CAN_Transmit m (CAN1 s))" "unat (CAN_Time_Out ?s) = 0"
    "can_tx_success_flag ?s = (if irq 0 then 1 else 0)" by simp_all
  note w = can_wait_ok[of ?s irq] and f = this
  have i: "(\<exists>i\<le>101. irq i) \<longleftrightarrow> irq 0 \<or> (\<exists>i\<in>{0..100}. irq (Suc i))"
  proof
    assume "\<exists>i\<le>101. irq i"
    then obtain i where "i \<le> 101" "irq i" by blast
    then show "irq 0 \<or> (\<exists>i\<in>{0..100}. irq (Suc i))" by (cases i) auto
  next
    assume "irq 0 \<or> (\<exists>i\<in>{0..100}. irq (Suc i))"
    then consider "irq 0" | i where "i \<le> 100" "irq (Suc i)" by auto
    then show "\<exists>i\<le>101. irq i"
    proof cases
      case (2 i)
      then show ?thesis by (intro exI[of _ "Suc i"]) simp
    qed blast
  qed
  show "CAN1 (can_send irq m s) = snd (CAN_Transmit m (CAN1 s))" "unat (CAN_Time_Out (can_send irq m s)) \<le> 101"
    "can_tx_success_flag (can_send irq m s) = (if \<exists>i\<le>101. irq i then 1 else 0)"
    "can_tx_success_flag (can_send irq m s) = 0 \<Longrightarrow> unat (CAN_Time_Out (can_send irq m s)) = 101"
    using w unfolding e f i by auto
qed

definition command_id :: "u16 \<Rightarrow> u8 \<Rightarrow> u8 \<Rightarrow> u16" where
  "command_id base Group Number = base OR push_bit 8 (ucast Group) OR push_bit 4 (ucast Number)"

lemma small_bits:
  "w < 16 \<Longrightarrow> bit (w :: u16) n \<Longrightarrow> n < 4" "g \<le> 7 \<Longrightarrow> bit (g :: u8) n \<Longrightarrow> n < 3" "h \<le> 15 \<Longrightarrow> bit (h :: u8) n \<Longrightarrow> n < 4"
proof -
  show "n < 4" if "w < 16" "bit w n"
  proof -
    have "take_bit 4 w = w" using that(1) by (simp add: take_bit_eq_mod mod_word_less)
    then show ?thesis using that(2) by (metis bit_take_bit_iff)
  qed
  show "n < 3" if "g \<le> 7" "bit g n"
  proof -
    have "take_bit 3 g = g" using that(1) by (simp add: take_bit_eq_mod mod_word_less le_less_trans)
    then show ?thesis using that(2) by (metis bit_take_bit_iff)
  qed
  show "n < 4" if "h \<le> 15" "bit h n"
  proof -
    have "take_bit 4 h = h" using that(1) by (simp add: take_bit_eq_mod mod_word_less le_less_trans)
    then show ?thesis using that(2) by (metis bit_take_bit_iff)
  qed
qed

lemma command_id_fields:
  assumes "base < 16" "Group \<le> 7" "Number \<le> 15"
  shows "take_bit 4 (command_id base Group Number) = base" "ucast (take_bit 4 (drop_bit 4 (command_id base Group Number))) = Number"
    "ucast (drop_bit 8 (command_id base Group Number)) = Group"
  using small_bits(1)[OF assms(1)] small_bits(2)[OF assms(2)] small_bits(3)[OF assms(3)]
  by (intro bit_word_eqI; fastforce simp: command_id_def bit_simps)+

lemma command_id_less:
  assumes "base < 16" "Group \<le> 7" "Number \<le> 15"
  shows "ucast (command_id base Group Number) < (0x800 :: u32)"
proof -
  have "take_bit 11 (ucast (command_id base Group Number) :: u32) = ucast (command_id base Group Number)"
    using small_bits(1)[OF assms(1)] small_bits(2)[OF assms(2)] small_bits(3)[OF assms(3)]
    by (intro bit_word_eqI) (fastforce simp: command_id_def bit_simps)
  moreover have "take_bit 11 (x :: u32) < 0x800" for x by (simp add: take_bit_eq_mod word_mod_less_divisor)
  ultimately show ?thesis by metis
qed

lemma can_command_ok:
  assumes "base < 16" "Group \<le> 7" "Number \<le> 15" "length dat = 8" "free_mailbox (CAN1 s) = i" "i \<noteq> 4"
    "sFIFOMailBox can 0 = sTxMailBox (CAN1 (can_command irq base Group Number dat s)) i"
  shows "IDE (fst (CAN_Receive 0 m0 can)) = 0" "RTR (fst (CAN_Receive 0 m0 can)) = 0" "DLC (fst (CAN_Receive 0 m0 can)) = 8"
    "StdId (fst (CAN_Receive 0 m0 can)) = ucast (command_id base Group Number)" "Data (fst (CAN_Receive 0 m0 can)) = dat"
proof -
  let ?m = "\<lparr>StdId = ucast (command_id base Group Number), ExtId = 0, IDE = 0, RTR = 0, DLC = 8, Data = dat, FMI = 0\<rparr>"
  have c: "can_command irq base Group Number dat s = can_send irq ?m s"
    using assms(2,3) by (simp add: can_command_def command_id_def Let_def)
  have "sFIFOMailBox can 0 = fill_mailbox ?m (sTxMailBox (CAN1 s) i)"
    using assms(5-7) by (simp add: c can_send_ok CAN_Transmit_def Let_def)
  note r = CAN_Receive_fill[OF this]
  show "IDE (fst (CAN_Receive 0 m0 can)) = 0" "RTR (fst (CAN_Receive 0 m0 can)) = 0" "DLC (fst (CAN_Receive 0 m0 can)) = 8"
    "StdId (fst (CAN_Receive 0 m0 can)) = ucast (command_id base Group Number)" "Data (fst (CAN_Receive 0 m0 can)) = dat"
    using r command_id_less[OF assms(1-3)] assms(4) by simp_all
qed

lemma short_range: "- 32768 \<le> sint (w :: u16)" "sint w \<le> 32767"
  using sint_greater_eq[of w] sint_less[of w] by simp_all

lemma short_abs_range: "sint (short_abs w) = \<bar>sint w\<bar> \<or> sint w = - 32768 \<and> short_abs w = w"
proof (cases "sint w < 0 \<and> sint w \<noteq> - 32768")
  case True
  have "sint (- w) = signed_take_bit 15 (- sint w)" by (simp add: sint_word_ariths)
  also have "\<dots> = - sint w" using True short_range[of w] by (intro signed_take_bit_int_eq_self) auto
  finally show ?thesis using True by (simp add: short_abs_def)
next
  case False
  moreover have "- w = w" if "sint w = - 32768"
  proof -
    have "uint w = 32768" using uint_sint[of w] that by (simp add: take_bit_eq_mod)
    then have "w = 32768" by (simp add: word_uint_eq_iff)
    then show ?thesis by simp
  qed
  ultimately show ?thesis by (auto simp: short_abs_def)
qed

lemma pwm_limit_range: "\<bar>sint (pwm_limit w)\<bar> \<le> 5000" "\<bar>sint w\<bar> \<le> 5000 \<Longrightarrow> pwm_limit w = w"
  by (auto simp: pwm_limit_def)

section \<open>Properties of the driver\<close>

text \<open>A motor controller with a free mailbox, for the witnesses.\<close>

definition sample_can :: can_state where
  "sample_can = \<lparr>CAN1 = \<lparr>TSR = 0x04000000, sTxMailBox = (\<lambda>_. \<lparr>TIR = 0, TDTR = 0, TDLR = 0, TDHR = 0\<rparr>),
       sFIFOMailBox = (\<lambda>_. \<lparr>TIR = 0, TDTR = 0, TDLR = 0, TDHR = 0\<rparr>), RF0R = 0, RF1R = 0\<rparr>,
     can_tx_success_flag = 0, CAN_Time_Out = 0, Real_Current_Value = (\<lambda>_. 0), Real_Velocity_Value = (\<lambda>_. 0),
     Real_Position_Value = (\<lambda>_. 0), Real_Online = (\<lambda>_. 0), Real_Ctl1_Value = (\<lambda>_. 0), Real_Ctl2_Value = (\<lambda>_. 0)\<rparr>"

lemma command_id_value:
  assumes "base < 16" "Group \<le> 7" "Number \<le> 15"
  shows "unat (command_id base Group Number) = 256 * unat Group + 16 * unat Number + unat base"
proof -
  let ?c = "command_id base Group Number"
  note f = command_id_fields[OF assms]
  have n: "unat ?c div 256 < 256" "unat ?c div 16 mod 16 < 256"
    using unsigned_less[of ?c, where ?'a = nat] by simp_all
  have "unat base = unat (take_bit 4 ?c)" "unat Number = unat (ucast (take_bit 4 (drop_bit 4 ?c)) :: u8)"
    "unat Group = unat (ucast (drop_bit 8 ?c) :: u8)" by (simp_all only: f)
  moreover have "unat (take_bit 4 ?c) = unat ?c mod 16" by (simp add: take_bit_eq_mod unat_mod)
  moreover have "unat (ucast (take_bit 4 (drop_bit 4 ?c)) :: u8) = unat ?c div 16 mod 16"
    using n(2) by (simp add: unsigned_ucast_eq take_bit_eq_mod drop_bit_eq_div unat_mod unat_div)
  moreover have "unat (ucast (drop_bit 8 ?c) :: u8) = unat ?c div 256"
    using n(1) by (simp add: unsigned_ucast_eq take_bit_eq_mod drop_bit_eq_div unat_div)
  moreover have "x = 256 * (x div 256) + 16 * (x div 16 mod 16) + x mod 16" for x :: nat
  proof -
    have "x = 16 * (x div 16) + x mod 16" "x div 16 = 16 * (x div 256) + x div 16 mod 16"
      using mult_div_mod_eq[of 16 x] mult_div_mod_eq[of 16 "x div 16"] by (simp_all add: div_mult2_eq[symmetric])
    then show ?thesis by linarith
  qed
  ultimately show ?thesis by metis
qed

text \<open>C36: A command arrives as it was sent. For a group up to 7, a driver number up to 15 and a command
  code below 16, with a free transmit mailbox, a receiver whose FIFO holds the frame the driver
  loaded into its mailbox reads a standard data frame with the eight bytes of the command, whose
  identifier is group, number and code side by side, so that it names them uniquely. A command with
  a group or number out of range sends nothing and changes nothing.\<close>

theorem can_command_delivers:
  assumes "base < 16" "length dat = 8" "free_mailbox (CAN1 s) = i" "i \<noteq> 4"
    "sFIFOMailBox bus 0 = sTxMailBox (CAN1 (can_command irq base Group Number dat s)) i" "CAN_Receive 0 m0 bus = (m, bus')"
  shows "if Group \<le> 7 \<and> Number \<le> 15
    then IDE m = 0 \<and> RTR m = 0 \<and> DLC m = 8 \<and> Data m = dat \<and> unat (StdId m) = 256 * unat Group + 16 * unat Number + unat base
    else can_command irq base Group Number dat s = s"
proof (cases "Group \<le> 7 \<and> Number \<le> 15")
  case True
  then have g: "Group \<le> 7" "Number \<le> 15" by simp_all
  have m: "fst (CAN_Receive 0 m0 bus) = m" using assms(6) by simp
  have "unat (ucast (command_id base Group Number) :: u32) = unat (command_id base Group Number)"
    by (simp add: unsigned_ucast_eq take_bit_nat_eq_self_iff less_le_trans[OF unsigned_less])
  then show ?thesis
    using g can_command_ok[OF assms(1) g assms(2-5), of m0] command_id_value[OF assms(1) g] by (simp add: m)
qed (auto simp: can_command_def)

theorem can_command_delivers_witness:
  "\<exists>m. fst (CAN_Receive 0 \<lparr>StdId = 0, ExtId = 0, IDE = 0, RTR = 0, DLC = 0, Data = [], FMI = 0\<rparr>
      (CAN1 sample_can\<lparr>sFIFOMailBox := sTxMailBox (CAN1 (can_command (\<lambda>_. True) 7 0 1 [1, 2, 3, 4, 5, 6, 7, 8] sample_can))\<rparr>)) = m \<and>
     unat (StdId m) = 23 \<and> Data m = [1, 2, 3, 4, 5, 6, 7, 8]"
proof -
  let ?c = "CAN1 sample_can\<lparr>sFIFOMailBox := sTxMailBox (CAN1 (can_command (\<lambda>_. True) 7 0 1 [1, 2, 3, 4, 5, 6, 7, 8] sample_can))\<rparr>"
  let ?m0 = "\<lparr>StdId = 0, ExtId = 0, IDE = 0, RTR = 0, DLC = 0, Data = [], FMI = 0\<rparr>"
  obtain m b where m: "CAN_Receive 0 ?m0 ?c = (m, b)" by (cases "CAN_Receive 0 ?m0 ?c")
  have "free_mailbox (CAN1 sample_can) = 0" by (simp add: sample_can_def free_mailbox_def)
  from can_command_delivers[OF _ _ this _ _ m, where base = 7 and Group = 0 and Number = 1 and irq = "\<lambda>_. True"
      and dat = "[1, 2, 3, 4, 5, 6, 7, 8]"]
  show ?thesis using m by simp
qed

text \<open>C37: A command never hangs, and it knows whether it was sent. Whenever the transmit interrupt arrives or
  does not arrive, the wait of a command ends after at most 101 rounds, the success flag is set
  exactly when the interrupt came before the last of them, and without it the command ends after
  exactly 101 rounds.\<close>

theorem can_command_terminates:
  assumes "Group \<le> 7" "Number \<le> 15"
  shows "unat (CAN_Time_Out (can_command irq base Group Number dat s)) \<le> 101 \<and>
    can_tx_success_flag (can_command irq base Group Number dat s) = (if \<exists>i\<le>101. irq i then 1 else 0) \<and>
    ((\<forall>i\<le>101. \<not> irq i) \<longrightarrow> unat (CAN_Time_Out (can_command irq base Group Number dat s)) = 101)"
proof -
  obtain m where "can_command irq base Group Number dat s = can_send irq m s"
    using assms by (simp add: can_command_def Let_def)
  then show ?thesis using can_send_ok(2-4)[of irq m s] by (auto split: if_splits)
qed

theorem can_command_terminates_witness:
  "can_tx_success_flag (can_command (\<lambda>_. False) 7 0 1 [0, 0, 0, 0, 0, 0, 0, 0] sample_can) = 0 \<and>
   unat (CAN_Time_Out (can_command (\<lambda>_. False) 7 0 1 [0, 0, 0, 0, 0, 0, 0, 0] sample_can)) = 101 \<and>
   can_tx_success_flag (can_command (\<lambda>i. i = 5) 7 0 1 [0, 0, 0, 0, 0, 0, 0, 0] sample_can) = 1"
  using can_command_terminates[of 0 1 "\<lambda>_. False" 7 "[0, 0, 0, 0, 0, 0, 0, 0]" sample_can]
    can_command_terminates[of 0 1 "\<lambda>i. i = 5" 7 "[0, 0, 0, 0, 0, 0, 0, 0]" sample_can] by auto

end
