(* ===== verification/Screw.thy ===== *)
theory Screw
  imports Pid CanBus
begin

text \<open>
  The application of \<^verbatim>\<open>bsp/stm32f40x/applications/screw.c\<close> with the key scan of \<^verbatim>\<open>hardware/key.c\<close>. Each
  thread is a function from one blocking call to the next: the pieces between \<^verbatim>\<open>rt_thread_delay\<close> and
  \<^verbatim>\<open>Pulse_output\<close>, in which other threads run, are the values of its program counter. The encoder
  counters, the pins and the transmit interrupt are arguments. A piece is atomic: preemption inside
  it is not modelled. The debounce delay inside \<^verbatim>\<open>KEY_Scan\<close> does not end a piece of the key thread:
  \<^verbatim>\<open>key_up\<close> is its own, and it reads and writes nothing else until the scan returns.
\<close>

section \<open>The keys\<close>

text \<open>The levels of the input pins; the three keys pull their pin down, \<^verbatim>\<open>WK_UP\<close> pulls it up.\<close>

record pins =
  KEY0 :: bool
  KEY1 :: bool
  KEY2 :: bool
  WK_UP :: bool

definition pressed :: "pins \<Rightarrow> bool" where
  "pressed p \<longleftrightarrow> \<not> KEY0 p \<or> \<not> KEY1 p \<or> \<not> KEY2 p \<or> WK_UP p"

text \<open>\<open>before\<close> and \<open>after\<close> are the pins before and after the debounce delay.\<close>

definition KEY_Scan :: "u8 \<Rightarrow> pins \<Rightarrow> pins \<Rightarrow> u8 \<Rightarrow> u8 \<times> u8" where
  "KEY_Scan scan_mode before after key_up =
     (let key_up = (if scan_mode \<noteq> 0 then 1 else key_up)
      in if key_up \<noteq> 0 \<and> pressed before then
           (if \<not> KEY0 after then 1 else if \<not> KEY1 after then 2 else if \<not> KEY2 after then 3
            else if WK_UP after then 4 else 0, 0)
         else if KEY0 before \<and> KEY1 before \<and> KEY2 before \<and> \<not> WK_UP before then (0, 1)
         else (0, key_up))"

section \<open>The threads\<close>

record screw =
  count :: u16
  count1 :: u16
  count_1 :: u16
  mode :: u16
  Desire_value :: u16
  flag :: u16
  key_up :: u8
  LED0_DIR :: bool
  pid :: pid_state
  can :: can_state

datatype thread_act = Act_run | Act_delay nat | Act_pulse nat nat

definition read_encoders :: "u16 \<Rightarrow> u16 \<Rightarrow> screw \<Rightarrow> screw" where
  "read_encoders tim4 tim8 s = s\<lparr>count := tim4, count1 := tim8,
     count_1 := word_of_int ((uint (tim4 - tim8) + 4096) mod 4096)\<rparr>"

text \<open>A \<^verbatim>\<open>float\<close> passed as a \<^verbatim>\<open>short\<close> is truncated towards zero.\<close>

definition float_short :: "rat \<Rightarrow> u16" where
  "float_short r = word_of_int (if r < 0 then \<lceil>r\<rceil> else \<lfloor>r\<rfloor>)"

definition pid_thread_step :: "(nat \<Rightarrow> bool) \<Rightarrow> u16 \<Rightarrow> u16 \<Rightarrow> screw \<Rightarrow> thread_act \<times> screw" where
  "pid_thread_step irq tim4 tim8 s =
     (let s = read_encoders tim4 tim8 s;
          (r, p) = SeqIntPID 4 0 50 (Desire_value s) (count_1 s) (pid s);
          r = (if r > 1800 then 1800 else if r < - 1800 then - 1800 else r);
          s = s\<lparr>pid := p\<lparr>ResultValue := r\<rparr>\<rparr>
      in (Act_delay 4, s\<lparr>can := CAN_RoboModule_DRV_Current_Velocity_Mode irq 0 1 6000 (float_short r) (can s)\<rparr>))"


datatype strategy_pc = S_top | S_50 | S_1000

definition strategy_flag1 :: "screw \<Rightarrow> thread_act \<times> strategy_pc \<times> screw" where
  "strategy_flag1 s =
     (if flag s = 1 then
        let s = s\<lparr>Desire_value := 200\<rparr>
        in if count_1 s < 2048 \<and> count_1 s > 150 then (Act_delay 1000, S_1000, s\<lparr>Desire_value := 0\<rparr>) else (Act_run, S_top, s)
      else (Act_run, S_top, s))"

fun strategy_thread_step :: "u16 \<Rightarrow> u16 \<Rightarrow> strategy_pc \<Rightarrow> screw \<Rightarrow> thread_act \<times> strategy_pc \<times> screw" where
  "strategy_thread_step tim4 tim8 S_top s =
     (let s = read_encoders tim4 tim8 s
      in if mode s = 0 then (Act_run, S_top, s\<lparr>Desire_value := 0\<rparr>)
         else if mode s = 1 then (Act_run, S_top, s\<lparr>Desire_value := - 500\<rparr>)
         else if flag s = 0 then
           let s = s\<lparr>Desire_value := 160\<rparr>
           in if count_1 s < 2048 \<and> count_1 s > 100 then (Act_delay 50, S_50, s\<lparr>Desire_value := 0\<rparr>) else strategy_flag1 s
         else strategy_flag1 s)"
| "strategy_thread_step tim4 tim8 S_50 s = strategy_flag1 (s\<lparr>flag := 1\<rparr>)"
| "strategy_thread_step tim4 tim8 S_1000 s = (Act_run, S_top, s\<lparr>mode := 1, flag := 0\<rparr>)"






text \<open>What the collecting thread prints.\<close>

definition collect_thread_value :: "screw \<Rightarrow> int" where
  "collect_thread_value s =
     (if 0 \<le> sint (Desire_value s)
      then if count_1 s > 2048 then to_s16 (uint (count_1 s) - 4096) else uint (count_1 s)
      else 0)"

text \<open>The commands \<^verbatim>\<open>hardware_init\<close> sends to the motor driver; \<open>irq i\<close> is the interrupt of the \<open>i\<close>-th.\<close>

definition hardware_init :: "(nat \<Rightarrow> nat \<Rightarrow> bool) \<Rightarrow> screw \<Rightarrow> screw" where
  "hardware_init irq s =
     (let c = CAN_RoboModule_DRV_Reset (irq 0) 0 1 (can s);
          c = CAN_RoboModule_DRV_Config (irq 1) 0 1 100 0 c
      in s\<lparr>can := CAN_RoboModule_DRV_Mode_Choice (irq 2) 0 1 0x06 c\<rparr>)"

section \<open>The running application\<close>


definition pid_init :: pid_state where
  "pid_init = \<lparr>ResultValue = 0, PIDErrADD = 0, ErrBack = 0, SeqIntPIDErrADD = 0, SeqIntErrBack = 0,
     OverIntPIDErrADD = 0, OverIntResultBack = 0, OverIntErrBack = 0\<rparr>"

definition screw_init :: "can_state \<Rightarrow> screw" where
  "screw_init c = \<lparr>count = 0, count1 = 0, count_1 = 0, mode = 4, Desire_value = 0, flag = 0, key_up = 1,
     LED0_DIR = False, pid = pid_init, can = c\<rparr>"




section \<open>The position loop\<close>

lemma count_1_mod: "uint (count_1 (read_encoders tim4 tim8 s)) = (uint tim4 - uint tim8) mod 4096"
proof -
  have "uint (tim4 - tim8) = (uint tim4 - uint tim8) mod 65536" by (simp add: uint_word_ariths)
  then have "(uint (tim4 - tim8) + 4096) mod 4096 = (uint tim4 - uint tim8) mod 4096"
    by (simp add: mod_mod_cancel)
  then show ?thesis by (simp add: read_encoders_def uint_word_of_int)
qed

lemma float_short_int [simp]: "float_short (of_int v) = word_of_int v"
  by (simp add: float_short_def)

lemma clamp_range: "\<bar>max (- 1800) (min 1800 (x :: int))\<bar> \<le> 1800"
  by (auto simp: max_def min_def)

lemma clamp_of_int:
  "(if (of_int x :: rat) > 1800 then 1800 else if (of_int x :: rat) < - 1800 then - 1800 else of_int x) =
    (of_int (max (- 1800) (min 1800 x)) :: rat)"
proof -
  have "(of_int x :: rat) > 1800 \<longleftrightarrow> x > 1800" "(of_int x :: rat) < - 1800 \<longleftrightarrow> x < - 1800"
    using of_int_less_iff[of 1800 x, where 'a = rat] of_int_less_iff[of x "- 1800", where 'a = rat] by simp_all
  then show ?thesis by (auto simp: max_def min_def)
qed

lemma pid_thread_step_ok:
  fixes tim4 tim8 :: u16 and s :: screw and e' :: int and irq :: "nat \<Rightarrow> bool"
  assumes "SeqIntErrBack (pid s) = of_int e'" "\<bar>e'\<bar> \<le> 2048"
  defines "s1 \<equiv> read_encoders tim4 tim8 s"
  defines "e \<equiv> seq_err (Desire_value s) (count_1 s1)"
  defines "v \<equiv> max (- 1800) (min 1800 (4 * e + 50 * (e - e')))"
  shows "\<exists>p. pid_thread_step irq tim4 tim8 s = (Act_delay 4, s1\<lparr>pid := p,
      can := CAN_RoboModule_DRV_Current_Velocity_Mode irq 0 1 6000 (word_of_int v) (can s)\<rparr>) \<and>
    SeqIntErrBack p = of_int e \<and> ResultValue p = of_int v"
    "- 2048 < e" "e \<le> 2048" "(e - (uint (Desire_value s) - (uint tim4 - uint tim8))) mod 4096 = 0"
proof -
  have c: "uint (count_1 s1) < 4096" unfolding s1_def count_1_mod by simp
  note m = seq_err_mod[OF c, of "Desire_value s"]
  show e: "- 2048 < e" "e \<le> 2048" using m(2,3) by (simp_all add: e_def)
  have "(e - (uint (Desire_value s) - (uint tim4 - uint tim8) mod 4096)) mod 4096 = 0"
    using m(1) unfolding e_def s1_def count_1_mod .
  then show "(e - (uint (Desire_value s) - (uint tim4 - uint tim8))) mod 4096 = 0"
    by (metis mod_diff_right_eq)
  have "\<bar>seq_err (Desire_value s) (count_1 s1)\<bar> \<le> 2048" using e by (simp add: e_def)
  note r = SeqIntPID_exact[OF this assms(1,2)]
  have f: "Desire_value s1 = Desire_value s" "pid s1 = pid s" "can s1 = can s"
    by (simp_all add: s1_def read_encoders_def)
  note v = clamp_of_int[of "4 * e + 50 * (e - e')", folded v_def]
  show "\<exists>p. pid_thread_step irq tim4 tim8 s = (Act_delay 4, s1\<lparr>pid := p,
      can := CAN_RoboModule_DRV_Current_Velocity_Mode irq 0 1 6000 (word_of_int v) (can s)\<rparr>) \<and>
    SeqIntErrBack p = of_int e \<and> ResultValue p = of_int v"
  proof (intro exI conjI)
    let ?p = "snd (SeqIntPID 4 0 50 (Desire_value s) (count_1 s1) (pid s))\<lparr>ResultValue := of_int v\<rparr>"
    show "SeqIntErrBack ?p = of_int e" "ResultValue ?p = of_int v" using r(2) by (simp_all add: e_def)
    show "pid_thread_step irq tim4 tim8 s = (Act_delay 4, s1\<lparr>pid := ?p,
      can := CAN_RoboModule_DRV_Current_Velocity_Mode irq 0 1 6000 (word_of_int v) (can s)\<rparr>)"
      using r(1)[folded e_def] unfolding pid_thread_step_def Let_def s1_def[symmetric] f case_prod_unfold
      by (simp only: v float_short_int) (simp add: f)
  qed
qed




section \<open>Keys are reported once\<close>

text \<open>The results of the successive scans of the key thread.\<close>

fun scans :: "(pins \<times> pins) list \<Rightarrow> u8 \<Rightarrow> u8 list" where
  "scans [] up = []"
| "scans ((b, a) # ps) up = (case KEY_Scan 0 b a up of (key, up) \<Rightarrow> key # scans ps up)"

lemma scans_released:
  assumes "j < length ps" "scans ps 0 ! j \<noteq> 0"
  shows "\<exists>k<j. \<not> pressed (fst (ps ! k))"
  using assms
proof (induction ps arbitrary: j)
  case (Cons p ps)
  obtain b a where p: "p = (b, a)" by (cases p)
  show ?case
  proof (cases "pressed b")
    case True
    then have h: "KEY_Scan 0 b a 0 = (0, 0)" by (auto simp: KEY_Scan_def pressed_def)
    with Cons.prems p obtain j' where j: "j = Suc j'" by (cases j) auto
    with Cons.prems Cons.IH[of j'] h p obtain k where "k < j'" "\<not> pressed (fst (ps ! k))" by auto
    then show ?thesis using j by (intro exI[of _ "Suc k"]) simp
  next
    case False
    then have "fst (KEY_Scan 0 b a 0) = 0" by (auto simp: KEY_Scan_def)
    with Cons.prems(2) p have "0 < j" by (cases j) (auto split: prod.splits)
    then show ?thesis using False p by (intro exI[of _ 0]) simp
  qed
qed simp

lemma scans_between:
  assumes "i < j" "j < length ps" "scans ps up ! i \<noteq> 0" "scans ps up ! j \<noteq> 0"
  shows "\<exists>k. i < k \<and> k < j \<and> \<not> pressed (fst (ps ! k))"
  using assms
proof (induction ps arbitrary: i j up)
  case (Cons p ps)
  obtain b a where p: "p = (b, a)" by (cases p)
  obtain key up' where h: "KEY_Scan 0 b a up = (key, up')" by (cases "KEY_Scan 0 b a up")
  obtain j' where j: "j = Suc j'" using Cons.prems(1) by (cases j) auto
  show ?case
  proof (cases i)
    case 0
    then have "key \<noteq> 0" using Cons.prems(3) p h by simp
    then have "up' = 0" using h by (auto simp: KEY_Scan_def Let_def split: if_splits)
    then obtain k where "k < j'" "\<not> pressed (fst (ps ! k))"
      using scans_released[of j' ps] Cons.prems p h j by auto
    then show ?thesis using 0 j by (intro exI[of _ "Suc k"]) simp
  next
    case (Suc i')
    then obtain k where "i' < k" "k < j'" "\<not> pressed (fst (ps ! k))"
      using Cons.IH[of i' j' up'] Cons.prems p h j by auto
    then show ?thesis using Suc j by (intro exI[of _ "Suc k"]) simp
  qed
qed simp

section \<open>Properties of the application\<close>

lemma uint_sint_mod: "(sint w - uint w) mod 4096 = 0" for w :: u16
proof -
  have "uint w = sint w mod 65536" using uint_sint[of w] by (simp add: take_bit_eq_mod)
  then have "uint w mod 4096 = sint w mod 4096" by (simp add: mod_mod_cancel)
  then show ?thesis by (metis mod_0_imp_dvd mod_eq_dvd_iff dvd_imp_mod_0)
qed

lemma sint_word_of_int16: "- 32768 \<le> v \<Longrightarrow> v \<le> 32767 \<Longrightarrow> sint (word_of_int v :: u16) = v"
  using sint_sbintrunc'[of v, where 'a = 16] signed_take_bit_int_eq_self[of 15 v] by simp

text \<open>C34: The position loop commands the motor within its limits. From one step of the control thread to the
  next, with the counters of both encoders as they are read, the error \<open>e\<close> is the difference between
  the target and the angle on the circle of 4096 counts, taken the shorter way round; the velocity
  is \<open>4 e + 50 (e - e')\<close>, with the error \<open>e'\<close> of the step before, cut to 1800 in both directions and
  computed without rounding. With a free mailbox the frame on the bus is command 7 to driver 1 of
  group 0, with the current limit 6000 and this velocity, and the thread then sleeps four ticks.\<close>

theorem pid_thread_commands:
  assumes "SeqIntErrBack (pid s) = of_int e'" "\<bar>e'\<bar> \<le> 2048" "free_mailbox (CAN1 (can s)) = i" "i \<noteq> 4"
    "pid_thread_step irq tim4 tim8 s = (a, s')" "sFIFOMailBox bus 0 = sTxMailBox (CAN1 (can s')) i"
    "CAN_Receive 0 m0 bus = (m, bus')"
  shows "\<exists>e v. - 2048 < e \<and> e \<le> 2048 \<and> (e - (sint (Desire_value s) - (uint tim4 - uint tim8))) mod 4096 = 0 \<and>
    v = max (- 1800) (min 1800 (4 * e + 50 * (e - e'))) \<and> \<bar>v\<bar> \<le> 1800 \<and>
    SeqIntErrBack (pid s') = of_int e \<and> ResultValue (pid s') = of_int v \<and> a = Act_delay 4 \<and>
    IDE m = 0 \<and> StdId m = 0x017 \<and> DLC m = 8 \<and>
    sint (short_of (Data m ! 0) (Data m ! 1)) = 6000 \<and> sint (short_of (Data m ! 2) (Data m ! 3)) = v"
proof -
  note st = pid_thread_step_ok(1)[OF assms(1,2), of irq tim4 tim8] and e = pid_thread_step_ok(2-4)[OF assms(1,2), of tim4 tim8]
  let ?e = "seq_err (Desire_value s) (count_1 (read_encoders tim4 tim8 s))"
  let ?v = "max (- 1800) (min 1800 (4 * ?e + 50 * (?e - e')))"
  let ?dat = "[hi16 6000, lo16 6000, hi16 (word_of_int ?v), lo16 (word_of_int ?v), 0x55, 0x55, 0x55, 0x55] :: u8 list"
  obtain p where p: "a = Act_delay 4" "SeqIntErrBack p = of_int ?e" "ResultValue p = of_int ?v" "pid s' = p"
    "can s' = CAN_RoboModule_DRV_Current_Velocity_Mode irq 0 1 6000 (word_of_int ?v) (can s)"
    using st assms(5) by auto
  have c: "can s' = can_command irq 7 0 1 ?dat (can s)"
    by (simp add: p(5) CAN_RoboModule_DRV_Current_Velocity_Mode_def short_abs_def Let_def)
  have m: "fst (CAN_Receive 0 m0 bus) = m" using assms(7) by simp
  have "command_id 7 0 1 = 0x17" by (simp add: command_id_def)
  then have f: "IDE m = 0" "DLC m = 8" "StdId m = 0x17" "Data m = ?dat"
    using can_command_ok[of 7 0 1 ?dat "can s" i bus irq m0] assms(3,4,6) by (simp_all add: c m)
  have "(?e - (uint (Desire_value s) - (uint tim4 - uint tim8)) - (sint (Desire_value s) - uint (Desire_value s))) mod 4096 = 0"
    using e(3) uint_sint_mod[of "Desire_value s"] by (metis mod_diff_eq diff_zero mod_0)
  then have "(?e - (sint (Desire_value s) - (uint tim4 - uint tim8))) mod 4096 = 0" by (simp add: algebra_simps)
  moreover have "sint (word_of_int ?v :: u16) = ?v" using clamp_range[of "4 * ?e + 50 * (?e - e')"] by (intro sint_word_of_int16) auto
  moreover have "sint (6000 :: u16) = 6000" by simp
  ultimately show ?thesis
    using e(1,2) p f clamp_range by (intro exI[of _ ?e] exI[of _ ?v]) (simp del: sint_numeral)
qed

theorem pid_thread_commands_witness:
  "\<exists>s'. pid_thread_step (\<lambda>_. True) 100 0 (screw_init sample_can) = (Act_delay 4, s') \<and> \<bar>ResultValue (pid s')\<bar> \<le> 1800"
proof -
  let ?s = "screw_init sample_can"
  obtain a s' where r: "pid_thread_step (\<lambda>_. True) 100 0 ?s = (a, s')" by (cases "pid_thread_step (\<lambda>_. True) 100 0 ?s")
  let ?bus = "CAN1 sample_can\<lparr>sFIFOMailBox := sTxMailBox (CAN1 (can s'))\<rparr>"
  obtain m b where m: "CAN_Receive 0 undefined ?bus = (m, b)" by (cases "CAN_Receive 0 undefined ?bus")
  have "SeqIntErrBack (pid ?s) = of_int 0" "free_mailbox (CAN1 (can ?s)) = 0"
    by (simp_all add: screw_init_def pid_init_def sample_can_def free_mailbox_def)
  from pid_thread_commands[OF this(1) _ this(2) _ r _ m] obtain v where "a = Act_delay 4" "ResultValue (pid s') = of_int v" "\<bar>v\<bar> \<le> 1800"
    by auto
  moreover from this(3) have "\<bar>of_int v :: rat\<bar> \<le> 1800" by (metis of_int_abs of_int_le_iff of_int_numeral)
  ultimately show ?thesis using r by simp
qed



end
