(* ===== verification/Spec2Isabelle.thy ===== *)
theory Spec2Isabelle
  imports Sleep Allocator Modbus Screw
begin

text \<open>
  Verification of Project_Screw: the RT-Thread 3.0.4 kernel of the repository (\<^verbatim>\<open>src/\<close>, \<^verbatim>\<open>include/\<close>,
  \<^verbatim>\<open>libcpu/arm/cortex-m4\<close>) and the application of the board \<^verbatim>\<open>bsp/stm32f40x\<close> that runs on it.

  \<^bold>\<open>The program.\<close> The kernel schedules threads by priority from a table of ready queues
  (\<^verbatim>\<open>scheduler.c\<close>, \<^verbatim>\<open>thread.c\<close>), counts ticks and fires timers (\<^verbatim>\<open>clock.c\<close>, \<^verbatim>\<open>timer.c\<close>), and lets threads
  wait for each other on semaphores, mutexes, event sets, mailboxes, message queues (\<^verbatim>\<open>ipc.c\<close>) and
  memory pools (\<^verbatim>\<open>mempool.c\<close>). Objects live in containers (\<^verbatim>\<open>object.c\<close>), memory comes from a first-fit
  heap (\<^verbatim>\<open>mem.c\<close>), and all of it uses intrusive lists (\<^verbatim>\<open>rtservice.h\<close>) and the string and memory services
  of \<^verbatim>\<open>kservice.c\<close>. The application (\<^verbatim>\<open>screw.c\<close>) turns a spindle with a position controller (\<^verbatim>\<open>pid.c\<close>)
  that commands a motor driver over CAN (\<^verbatim>\<open>can.c\<close>) and moves a feed with a stepper motor; \<^verbatim>\<open>master.c\<close>
  is a Modbus master for a second motor driver, which the project file does not compile.

  \<^bold>\<open>State and calls.\<close> The state of the kernel is the record \<open>kernel\<close> of theory \<open>KernelState\<close>: the control
  blocks by address, the queues as lists of threads, the tick, the nesting counters, memory as bytes.
  A kernel function of the name it has in C takes the state and returns the new one in an option;
  \<open>None\<close> is a stop of the system: a failed \<^verbatim>\<open>RT_ASSERT\<close>, a null or dangling pointer, or a loop that does
  not end. A call that may switch to another thread returns \<open>Ret r\<close> when it is done or \<open>Wait w\<close> when
  the caller sleeps; what the caller does when it runs again is the function with the suffix \<open>_cont\<close>.
  Errors are the negative codes of the source. Machine integers are words where they wrap.

  \<^bold>\<open>Theories.\<close>
  \<^item> \<open>RtPrelude\<close>, \<open>Ring\<close>, \<open>MemChain\<close>: types, constants and laws that the components share; the interfaces
    \<open>ordered_insert\<close> (interpreted on the timer list and on the priority queues) and \<open>bounded_fifo\<close>
    (on the mailbox).
  \<^item> \<open>RtList\<close>: the lists of \<^verbatim>\<open>rtservice.h\<close> on a heap of nodes; the interface \<open>list_store\<close> of queues, which
    the pointer lists and, in \<open>Scheduler\<close>, the queues of the model interpret, so that the second are
    an abstraction of the first (C28).
  \<^item> \<open>KService\<close>: \<^verbatim>\<open>rt_memset\<close>, \<^verbatim>\<open>rt_memcpy\<close>, \<^verbatim>\<open>rt_memmove\<close>, the string functions and \<^verbatim>\<open>__rt_ffs\<close> (C30 to C33).
  \<^item> \<open>Mem\<close>, \<open>Heap\<close>, \<open>Allocator\<close>: the heap of \<^verbatim>\<open>mem.c\<close>, its invariant \<open>wf_heap\<close> and the exact outcome of each
    call (C20 to C27); the interface \<open>block_allocator\<close>, which the heap and the memory pool interpret.
  \<^item> \<open>KernelState\<close>, \<open>KObject\<close>, \<open>Scheduler\<close>, \<open>Timer\<close>, \<open>Thread\<close>, \<open>Clock\<close>: \<^verbatim>\<open>rtdef.h\<close>, \<^verbatim>\<open>object.c\<close>, \<^verbatim>\<open>scheduler.c\<close>
    and \<^verbatim>\<open>irq.c\<close>, \<^verbatim>\<open>timer.c\<close>, \<^verbatim>\<open>thread.c\<close> and \<^verbatim>\<open>cpuport.c\<close>, \<^verbatim>\<open>clock.c\<close> and \<^verbatim>\<open>idle.c\<close>; the invariant \<open>wf_kernel\<close> of queues,
    ready bitmap and timers, which every operation keeps.
  \<^item> \<open>IpcCore\<close>, \<open>Semaphore\<close>, \<open>Mutex\<close>, \<open>Event\<close>, \<open>Mailbox\<close>, \<open>MsgQueue\<close>, \<open>MemPool\<close>: \<^verbatim>\<open>ipc.c\<close> and \<^verbatim>\<open>mempool.c\<close>, each
    with its abstract object, its invariant and what each call does to both (C5 to C19).
  \<^item> \<open>IpcLive\<close>, \<open>CallFrame\<close>, \<open>PoolCalls\<close>: the calls return and leave the objects they do not name as they
    are; \<open>sys_ok\<close> is the state in which thread code runs, \<open>calls\<close> that a thread makes a call in it.
  \<^item> \<open>System\<close>, \<open>Sleep\<close>: the running system, with the invariant, progress and time (C2 to C4).
  \<^item> \<open>CanBus\<close>, \<open>Modbus\<close>, \<open>Pid\<close>, \<open>Screw\<close>: the CAN driver with the frame registers of the peripheral library,
    the Modbus master with its port, the controllers in rounded arithmetic, and the threads of the
    application (C34 to C40).
  \<^item> \<open>Sample\<close>: the kernel state of the witnesses. This theory: the properties of the kernel.

  \<^bold>\<open>The running system.\<close> \<open>system_step\<close> lets the running thread make one of the calls of \<open>syscall\<close> (take and
  release of semaphores and mutexes, send and receive of events and mailboxes, yield, delay, and
  resume of the threads in \<open>reg_resumed\<close>), lets a thread that was switched away continue its call, and
  lets the tick interrupt come. A call is atomic up to its switch, as the critical sections of the
  source make it; interrupts come between calls. Timeout functions of the application are a
  parameter \<open>cb\<close>: \<open>callback_ok\<close>, \<open>callback_total\<close> and \<open>callback_sys\<close> say that they return and keep the
  kernel and its objects well formed, and for C4 \<open>callback_leaves\<close> that they leave one thread alone.
  Message queues and memory pools are not calls of \<open>system_step\<close>; their theorems are about one call in
  any state of the running system.

  \<^bold>\<open>Loops and bounds.\<close> Loops whose end depends on data (the first-fit search, list walks, the Modbus
  register loop) are partial functions without fuel: that they end is part of the theorems. Waiting
  times are below \<open>2 ^ 31 - 1\<close>, the limit of the timer; a continuation of a mailbox call must run
  within \<open>2 ^ 31\<close> ticks (\<open>recent\<close>). Heap addresses are below \<open>2 ^ 32\<close>.

  \<^bold>\<open>Simplifications.\<close> The hooks (\<^verbatim>\<open>RT_OBJECT_HOOK_CALL\<close>) are null: the sources of the board set none.
  The headers of heap blocks are kept in a map by their offset and not in the bytes of \<open>ram\<close>, which are
  the payload; a write of a caller outside its block is not modelled. The semaphore of the heap is
  never contended between two calls and left out; the check against use in an interrupt is in the
  functions \<open>k_malloc\<close> and its siblings, which the kernel calls. Floats have no largest value, and a
  piece of an application thread between two blocking calls is atomic.

  \<^bold>\<open>Not modelled.\<close> Parts that only write device registers (clock, pin, timer, display and network set-up,
  \<^verbatim>\<open>Pulse_output\<close>, the drivers under \<^verbatim>\<open>bsp/stm32f40x/drivers\<close> and the rest of the peripheral library) have no
  behaviour without the hardware. \<^verbatim>\<open>rt_kprintf\<close> and \<^verbatim>\<open>rt_vsnprintf\<close> take variable arguments and print.
  \<^verbatim>\<open>device.c\<close>, \<^verbatim>\<open>components.c\<close>, \<^verbatim>\<open>module.c\<close>, \<^verbatim>\<open>signal.c\<close>, \<^verbatim>\<open>slab.c\<close> and \<^verbatim>\<open>memheap.c\<close>, the soft timer thread, and
  everything under \<^verbatim>\<open>components/\<close> (file systems, shell, network stacks, device framework) are outside
  this development: most are not compiled with the options of \<^verbatim>\<open>rtconfig.h\<close>, and the others rest on
  drivers or third-party code. The context switch in assembler is the field \<open>current\<close>; the Modbus slave
  in \<^verbatim>\<open>modbus.c\<close> is commented out in the source; \<^verbatim>\<open>strategy_thread_entry\<close> and \<^verbatim>\<open>display_thread_entry\<close> are not started.
\<close>

section \<open>The scheduler and the running system\<close>

text \<open>C1: The scheduler runs the right thread. When the scheduler is unlocked, a thread runs and
  some thread is ready, \<^verbatim>\<open>rt_schedule\<close> returns, and the thread it makes current is ready, no ready
  thread has a smaller priority number, and it is the first of the ready queue of its priority;
  the threads and the queues are unchanged.\<close>

theorem rt_schedule_runs_highest:
  assumes "wf_sched k" "lock_nest k = 0" "current k \<noteq> None" "tstat k u = RT_THREAD_READY"
    and "\<And>t. must_run k t \<Longrightarrow> stack_ok k t"
  shows "\<exists>k' t. rt_schedule k = Some k' \<and> current k' = Some t \<and> must_run k t \<and>
    thread k' = thread k \<and> lists k' = lists k"
proof -
  obtain k' where k': "rt_schedule k = Some k'" using rt_schedule_progress assms by blast
  then obtain t where "current k' = Some t" "must_run k' t"
    using rt_schedule_must_run assms by blast
  moreover have f: "cpu_frame k k'" using rt_schedule_frame[OF k'] by simp
  ultimately show ?thesis
    using k' must_run_cong[of k' k t] cpu_frameD(1,2)[OF f] by auto
qed

theorem rt_schedule_runs_highest_witness:
  "\<exists>k' t. rt_schedule sample = Some k' \<and> current k' = Some t \<and> must_run sample t \<and>
    thread k' = thread sample \<and> lists k' = lists sample"
  by (rule rt_schedule_runs_highest[of sample 1])
    (use sample_wf_sched sample_stack_ok sample_tstat in \<open>auto simp: sample_def\<close>)

text \<open>C2: The running system keeps its invariant. Threads make any sequence of legal kernel calls on
  the semaphores, mutexes, events and mailboxes of the registry and resume its threads, blocked threads continue their
  calls when they are scheduled again, and the tick interrupt comes in between: in every state
  reached from one that satisfies the system invariant, the kernel is well formed and can go on,
  and every object satisfies its own invariant.\<close>

theorem system_invariant:
  assumes "reachable R idle cb s0 s" "reg_ok R" "callback_ok cb" "callback_total cb" "callback_sys R idle cb"
    "system_ok R idle s0"
  shows "sys_ok idle (sys_kernel s) \<and> (\<forall>a\<in>reg_all R. obj_ok R a (sys_kernel s))"
  using reachable_ok[OF assms] by (auto simp: system_ok_def sys_inv_def objs_ok_def)

theorem system_invariant_witness:
  "(\<exists>s. reachable sample_reg 1 no_callback sample_system s \<and> tick (sys_kernel s) = 1 \<and> sys_ok 1 (sys_kernel s))
     \<and> obj_ok sample_reg 101 sample"
proof
  obtain k' where k': "SysTick_Handler no_callback sample = Some k'" "tick k' = tick sample + 1"
    using SysTick_Handler_sys[OF sample_reg_ok no_callback_ok] system_okD(1)[OF sample_system_ok]
    by (auto simp: sample_system_def)
  let ?s = "sample_system\<lparr>sys_kernel := k'\<rparr>"
  have "reachable sample_reg 1 no_callback sample_system ?s"
    by (rule reachable.move[OF reachable.start system_step.clock_tick]) (simp add: sample_system_def k'(1))
  moreover from this have "sys_ok 1 (sys_kernel ?s)"
    using system_invariant[OF _ sample_reg_ok no_callback_ok sample_system_ok] by blast
  moreover have "tick (sys_kernel ?s) = 1" using k'(2) by (simp add: sample_def)
  ultimately show "\<exists>s. reachable sample_reg 1 no_callback sample_system s \<and> tick (sys_kernel s) = 1 \<and> sys_ok 1 (sys_kernel s)"
    by blast
  show "obj_ok sample_reg 101 sample"
    using system_invariant[OF reachable.start sample_reg_ok no_callback_ok sample_system_ok]
    by (simp add: reg_all_def sample_reg_def sample_system_def)
qed



text \<open>C4: A delay lasts exactly as long as asked for, unless somebody resumes the thread. Let a thread call
  \<^verbatim>\<open>rt_thread_delay(n)\<close> that no other thread resumes with \<^verbatim>\<open>rt_thread_resume\<close> (\<open>t \<notin> reg_resumed R\<close>) and that
  the timeout functions of the application neither resume nor suspend (\<open>callback_leaves\<close>). It sleeps
  through every run of the system with fewer than \<open>n\<close> ticks, whichever of the modelled calls the
  other threads make in it, and the \<open>n\<close>-th tick makes it ready.\<close>

theorem rt_thread_delay_wakes:
  assumes "reg_ok R" "callback_ok cb" "callback_total cb" "callback_sys R idle cb" "callback_leaves t cb"
    "t \<notin> reg_resumed R" "system_ok R idle s" "current (sys_kernel s) = Some t" "t \<noteq> idle" "0 < n" "n < 0x7FFFFFFF"
  shows "\<exists>k. rt_thread_delay n (sys_kernel s) = Some k \<and>
    (\<forall>m s'. sys_run R idle cb \<lparr>sys_kernel = k, sys_pending = (sys_pending s)(t := Some In_delay)\<rparr> m s' \<longrightarrow> m < unat n \<longrightarrow>
       asleep t (tick (sys_kernel s) + n) (sys_kernel s') \<and>
       (Suc m = unat n \<longrightarrow> (\<exists>k'. SysTick_Handler cb (sys_kernel s') = Some k' \<and> tstat k' t = RT_THREAD_READY)))"
proof -
  note R = assms(1) and cb = assms(2-5) and i = system_okD(1)[OF assms(7)]
  have c: "calls idle t (sys_kernel s)" by (rule sys_inv_calls[OF i assms(8,9)])
  note d = callsD[OF c]
  obtain p k where k: "run_call (Delay n) (sys_kernel s) = Some (p, k)" "sys_inv R idle k"
    using run_call_safe[OF R i assms(8,9), of "Delay n"] assms(11) by (auto simp: call_safe_def)
  then have kd: "rt_thread_delay n (sys_kernel s) = Some k" by auto
  let ?s = "\<lparr>sys_kernel = k, sys_pending = (sys_pending s)(t := Some In_delay)\<rparr>"
  have ok: "system_ok R idle ?s" by (rule system_ok_upd[OF assms(7) k(2)]) simp
  have tk: "tick k = tick (sys_kernel s)"
    using rt_thread_sleep_sys[OF c assms(11)] kd by (auto simp: rt_thread_delay_def call_frame_def)
  have "asleep t (tick (sys_kernel s) + n) k"
    using rt_thread_sleep_asleep[OF d(1,4), of n k] kd d(3,4) by (simp add: rt_thread_delay_def run_ready_def)
  then have a: "asleep t (tick (sys_kernel ?s) + n) (sys_kernel ?s)" using tk by simp
  have "asleep t (tick (sys_kernel s) + n) (sys_kernel s') \<and>
      (Suc m = unat n \<longrightarrow> (\<exists>k'. SysTick_Handler cb (sys_kernel s') = Some k' \<and> tstat k' t = RT_THREAD_READY))"
    if "sys_run R idle cb ?s m s'" "m < unat n" for m s'
  proof -
    have o: "system_ok R idle s'" "asleep t (tick (sys_kernel s) + n) (sys_kernel s')"
      "tick (sys_kernel s') = tick (sys_kernel s) + of_nat m"
      using sys_run_asleep[OF R cb assms(6) ok a assms(11) that] tk by simp_all
    have "\<exists>k'. SysTick_Handler cb (sys_kernel s') = Some k' \<and> tstat k' t = RT_THREAD_READY" if m: "Suc m = unat n"
    proof -
      have "of_nat (Suc m) = n" unfolding m by simp
      then have n: "tick (sys_kernel s) + n = tick (sys_kernel s') + 1" using o(3) by (simp add: algebra_simps)
      obtain k' where k': "SysTick_Handler cb (sys_kernel s') = Some k'"
        using SysTick_Handler_sys[OF R cb(1-3) system_okD(1)[OF o(1)]] by blast
      then show ?thesis using SysTick_Handler_asleep(2)[OF R cb system_okD(1)[OF o(1)] o(2) k' n] by blast
    qed
    then show ?thesis using o(2) by blast
  qed
  then show ?thesis using kd by blast
qed

theorem rt_thread_delay_wakes_witness:
  "\<exists>k k'. rt_thread_delay 1 sample = Some k \<and> SysTick_Handler no_callback k = Some k' \<and> tstat k' 2 = RT_THREAD_READY"
proof -
  have s: "sys_kernel sample_system = sample" "current (sys_kernel sample_system) = Some 2"
    by (simp_all add: sample_system_def sample_def)
  have c: "callback_leaves 2 no_callback" by (simp add: callback_leaves_def no_callback_def)
  have u: "2 \<notin> reg_resumed sample_reg" by (simp add: sample_reg_def)
  have n: "(2 :: nat) \<noteq> 1" "(0 :: u32) < 1" "(1 :: u32) < 0x7FFFFFFF" by simp_all
  let ?s = "\<lambda>k. \<lparr>sys_kernel = k, sys_pending = (sys_pending sample_system)(2 := Some In_delay)\<rparr>"
  obtain k where k: "rt_thread_delay 1 (sys_kernel sample_system) = Some k"
    and r: "\<forall>m s'. sys_run sample_reg 1 no_callback (?s k) m s' \<longrightarrow> m < unat (1 :: u32) \<longrightarrow>
      asleep 2 (tick (sys_kernel sample_system) + 1) (sys_kernel s') \<and>
      (Suc m = unat (1 :: u32) \<longrightarrow> (\<exists>k'. SysTick_Handler no_callback (sys_kernel s') = Some k' \<and> tstat k' 2 = RT_THREAD_READY))"
    using rt_thread_delay_wakes[OF sample_reg_ok no_callback_ok c u sample_system_ok s(2) n] by (elim exE conjE) (rule that)
  have "\<exists>k'. SysTick_Handler no_callback (sys_kernel (?s k)) = Some k' \<and> tstat k' 2 = RT_THREAD_READY"
    using r[rule_format, OF sys_run.stay] by simp
  then show ?thesis using k by (simp only: s(1) system.select_convs) blast
qed

section \<open>Semaphores\<close>

text \<open>C5: Taking a semaphore refines the abstract semaphore, a counter with a queue. The call of a
  running thread returns; it takes a token if there is one, fails with a timeout at once if it may
  not wait, and otherwise puts the caller into the queue, by arrival or by priority, and runs
  another thread. No other semaphore changes.\<close>

theorem rt_sem_take_refines:
  assumes "calls idle t k" "a \<noteq> 0" "ipc_flag_ok a k" "time < 0x7FFFFFFF"
  shows "\<exists>res k'. rt_sem_take a time k = Some (res, k') \<and> sys_ok idle k' \<and>
    sem_abs a k' = spec_take (enqueue (ipc_flag a k) k t) (time \<noteq> 0) (sem_abs a k) \<and>
    (\<forall>b. b \<noteq> a \<longrightarrow> sem_abs b k' = sem_abs b k) \<and>
    res = (if sem_value (sems k a) > 0 then Ret RT_EOK else if time = 0 then Ret (- RT_ETIMEOUT) else Wait t) \<and>
    (res = Wait t \<longrightarrow> waiting (Susp a) t k' \<and> current k' \<noteq> Some t)"
proof -
  note d = callsD[OF assms(1)]
  obtain res k' where r: "rt_sem_take a time k = Some (res, k')" "sys_ok idle k'"
    using rt_sem_take_sys[OF assms] by blast
  note o = rt_sem_take_ok[OF d(1,9,3) assms(3) r(1)]
  have res: "res = (if sem_value (sems k a) > 0 then Ret RT_EOK else if time = 0 then Ret (- RT_ETIMEOUT) else Wait t)"
    using r(1) by (cases rule: rt_sem_take_cases) (use d(4) in auto)
  have "res = Wait t \<longrightarrow> waiting (Susp a) t k' \<and> current k' \<noteq> Some t"
    using rt_sem_take_blocks[OF d(1,9,3) assms(3)] r(1) d(8) by blast
  then show ?thesis using r o(2,3) res d(4) by auto
qed

theorem rt_sem_take_refines_witness:
  "\<exists>k'. rt_sem_take 100 7 sample = Some (Wait 2, k') \<and> sem_abs 100 k' = (0, [2]) \<and> current k' \<noteq> Some 2"
  using rt_sem_take_refines[OF sample_calls, of 100 7] sample_flag
  by (auto simp: sem_abs_def spec_take_def enqueue_def) (auto simp: sample_def)

text \<open>C6: Releasing a semaphore refines the abstract semaphore. The call returns; the thread that has
  waited longest at the head of the queue becomes ready and leaves the queue, and without a waiting
  thread the counter grows by one.\<close>

theorem rt_sem_release_refines:
  assumes "calls idle t k"
  shows "\<exists>k'. rt_sem_release a k = Some (RT_EOK, k') \<and> sys_ok idle k' \<and>
    sem_abs a k' = spec_release (sem_abs a k) \<and> (\<forall>b. b \<noteq> a \<longrightarrow> sem_abs b k' = sem_abs b k) \<and>
    (case lists k (Susp a) of [] \<Rightarrow> current k' = current k | u # _ \<Rightarrow> tstat k' u = RT_THREAD_READY)"
proof -
  note d = callsD[OF assms]
  obtain k' where r: "rt_sem_release a k = Some (RT_EOK, k')" "sys_ok idle k'"
    using rt_sem_release_sys[OF assms] by blast
  note o = rt_sem_release_ok[OF d(1) r(1)]
  have "case lists k (Susp a) of [] \<Rightarrow> current k' = current k | u # _ \<Rightarrow> tstat k' u = RT_THREAD_READY"
  proof (cases "lists k (Susp a)")
    case Nil
    then show ?thesis using r(1) by (auto simp: rt_sem_release_def)
  next
    case (Cons u us)
    then have "resume_one_and_schedule (Susp a) k = Some k'"
      using r(1) by (auto simp: rt_sem_release_def resume_one_and_schedule_def bind_eq_Some_conv)
    then show ?thesis using resume_one_ready(1)[OF d(1) wait_queue_Susp(1) _ Cons] Cons by simp
  qed
  then show ?thesis using r o(3,4) by blast
qed

theorem rt_sem_release_refines_witness:
  "\<exists>k'. rt_sem_release 100 sample = Some (RT_EOK, k') \<and> sem_abs 100 k' = (1, []) \<and> current k' = Some 2"
  using rt_sem_release_refines[OF sample_calls, of 100]
  by (auto simp: sem_abs_def spec_release_def sample_def)

section \<open>Mutexes\<close>

text \<open>C7: A mutex has at most one owner, and taking it inherits priority. The call returns. It
  succeeds exactly when the mutex is free or already owned by the caller, which then owns it with
  one more hold; otherwise owner and nesting stay as they are, and a caller that waits is in the
  queue of the mutex while the owner has at least the priority of the caller.\<close>

theorem rt_mutex_take_exclusive:
  assumes "calls idle t k" "a \<noteq> 0" "ipc_flag_ok a k" "time < 0x7FFFFFFF" "mutex_inv a k" "hold (mutexes k a) \<noteq> 0xFF"
  shows "\<exists>res k'. rt_mutex_take a time k = Some (res, k') \<and> sys_ok idle k' \<and> mutex_inv a k' \<and>
    (\<forall>b. b \<noteq> a \<longrightarrow> mutexes k' b = mutexes k b) \<and>
    (if owner (mutexes k a) \<in> {None, Some t}
     then res = Ret RT_EOK \<and> owner (mutexes k' a) = Some t \<and> hold (mutexes k' a) = hold (mutexes k a) + 1
     else mutexes k' a = mutexes k a \<and> res = (if time = 0 then Ret (- RT_ETIMEOUT) else Wait t) \<and>
       (time \<noteq> 0 \<longrightarrow> waiting (Susp a) t k' \<and>
          current_priority (thread k' (the (owner (mutexes k a)))) \<le> current_priority (thread k t)))"
proof -
  note d = callsD[OF assms(1)]
  obtain res k' where r: "rt_mutex_take a time k = Some (res, k')" "sys_ok idle k'"
    using rt_mutex_take_sys[OF assms] by blast
  note o = rt_mutex_take_ok[OF d(1,9,3,4) assms(3,5,6) r(1)]
  have res: "res = Ret RT_EOK \<or> res = (if time = 0 then Ret (- RT_ETIMEOUT) else Wait t)"
    using r(1)
  proof (cases rule: rt_mutex_take_cases)
    case (2 s)
    then show ?thesis using d(4) by (cases rule: mutex_again_cases[OF 2(4)]) simp_all
  qed simp
  show ?thesis
  proof (cases "owner (mutexes k a) \<in> {None, Some t}")
    case True
    then have "res = Ret RT_EOK" using o(6) by blast
    then show ?thesis using r o(2,3,5) True by (intro exI[of _ res] exI[of _ k']) simp
  next
    case False
    then have "res \<noteq> Ret RT_EOK" using o(5) by blast
    then show ?thesis using r o(2,3,6) o(7)[of t] res False by (intro exI[of _ res] exI[of _ k']) auto
  qed
qed

theorem rt_mutex_take_exclusive_witness:
  "\<exists>k'. rt_mutex_take 101 0 sample = Some (Ret RT_EOK, k') \<and> owner (mutexes k' 101) = Some 2 \<and>
    hold (mutexes k' 101) = 1"
proof -
  have m: "hold (mutexes sample 101) = 0" "owner (mutexes sample 101) = None" by (simp_all add: sample_def)
  show ?thesis
    using rt_mutex_take_exclusive[OF sample_calls, of 101 0] sample_flag sample_objs(2)[of 101] m by auto
qed

text \<open>C8: Releasing a mutex. The call returns. Only the owner can release: any other caller gets an
  error and nothing about the mutexes or the queues changes. A nested release only counts down. The
  last release gives the owner back the priority it had when it took the mutex and passes the mutex
  to the thread at the head of the queue, which becomes ready as the new owner, or makes it
  free.\<close>

theorem rt_mutex_release_hand_over:
  assumes "calls idle t k" "mutex_inv a k"
  shows "\<exists>e k'. rt_mutex_release a k = Some (e, k') \<and> sys_ok idle k' \<and> mutex_inv a k' \<and>
    (\<forall>b. b \<noteq> a \<longrightarrow> mutexes k' b = mutexes k b) \<and>
    (if owner (mutexes k a) \<noteq> Some t then e = - RT_ERROR \<and> mutexes k' = mutexes k \<and> lists k' = lists k
     else e = RT_EOK \<and>
       (if hold (mutexes k a) \<noteq> 1
        then owner (mutexes k' a) = Some t \<and> hold (mutexes k' a) = hold (mutexes k a) - 1
        else current_priority (thread k' t) = original_priority (mutexes k a) \<and>
          (case lists k (Susp a) of
             [] \<Rightarrow> owner (mutexes k' a) = None \<and> mutex_value (mutexes k' a) = 1
           | u # us \<Rightarrow> owner (mutexes k' a) = Some u \<and> hold (mutexes k' a) = 1 \<and> lists k' (Susp a) = us)))"
proof -
  note d = callsD[OF assms(1)]
  obtain e k' where r: "rt_mutex_release a k = Some (e, k')" "sys_ok idle k'"
    using rt_mutex_release_sys[OF assms] by blast
  note o = rt_mutex_release_ok[OF d(1,3,4) assms(2) r(1)] and p = rt_mutex_release_priority[OF d(1,4) _ _ r(1)]
  have "owner (mutexes k' a) = Some t \<and> hold (mutexes k' a) = hold (mutexes k a) - 1"
    if "owner (mutexes k a) = Some t" "hold (mutexes k a) \<noteq> 1"
    using r(1) d(4) by (cases rule: rt_mutex_release_cases) (use that in auto)
  then show ?thesis using r o(2,3,5,6,7) p by (intro exI[of _ e] exI[of _ k']) simp
qed

theorem rt_mutex_release_hand_over_witness:
  "(\<exists>k'. rt_mutex_release 101 sample = Some (- RT_ERROR, k') \<and> mutexes k' = mutexes sample) \<and>
   (\<exists>k'. rt_mutex_release 101 (upd_mutex 101 (\<lambda>_. \<lparr>mutex_value = 0, original_priority = 20, hold = 1, owner = Some 2\<rparr>) sample)
     = Some (RT_EOK, k') \<and> owner (mutexes k' 101) = None \<and> current_priority (thread k' 2) = 20)"
proof
  have "owner (mutexes sample 101) \<noteq> Some 2" by (simp add: sample_def)
  then show "\<exists>k'. rt_mutex_release 101 sample = Some (- RT_ERROR, k') \<and> mutexes k' = mutexes sample"
    using rt_mutex_release_hand_over[OF sample_calls sample_objs(2)[of 101]] by auto
next
  let ?k = "upd_mutex 101 (\<lambda>_. \<lparr>mutex_value = 0, original_priority = 20, hold = 1, owner = Some 2\<rparr>) sample"
  have c: "calls 1 2 ?k"
    using callsD[OF sample_calls] by (simp add: calls_def sys_ok_def run_ready_def) (simp add: upd_mutex_def tstat_def)
  have m: "mutexes ?k 101 = \<lparr>mutex_value = 0, original_priority = 20, hold = 1, owner = Some 2\<rparr>"
    and l: "lists ?k (Susp 101) = []" by (simp_all add: upd_mutex_def sample_def)
  have "mutex_inv 101 ?k" by (simp add: mutex_inv_def m)
  from rt_mutex_release_hand_over[OF c this]
  show "\<exists>k'. rt_mutex_release 101 ?k = Some (RT_EOK, k') \<and> owner (mutexes k' 101) = None \<and>
    current_priority (thread k' 2) = 20" using m l by auto
qed

text \<open>C9: Giving the priority back does not reschedule. When the last release of a mutex finds no
  waiting thread, the caller keeps running with its original priority and no other thread changes,
  even if a ready thread is now more urgent than the caller: in the witness thread 2 runs with
  priority 20 although thread 3 is ready with priority 10.\<close>

theorem rt_mutex_release_keeps_running:
  assumes "calls idle t k" "mutex_inv a k" "owner (mutexes k a) = Some t" "hold (mutexes k a) = 1" "lists k (Susp a) = []"
  shows "\<exists>k'. rt_mutex_release a k = Some (RT_EOK, k') \<and> current k' = Some t \<and>
    current_priority (thread k' t) = original_priority (mutexes k a) \<and>
    (\<forall>u. u \<noteq> t \<longrightarrow> thread k' u = thread k u)"
proof -
  note d = callsD[OF assms(1)]
  obtain e k' where r: "rt_mutex_release a k = Some (e, k')" using rt_mutex_release_sys[OF assms(1,2)] by blast
  note o = rt_mutex_release_ok[OF d(1,3,4) assms(2) r] and p = rt_mutex_release_priority[OF d(1,4) assms(3,4) r]
  have w1: "wf_kernel 1 (upd_mutex a (\<lambda>m. m\<lparr>hold := hold m - 1\<rparr>) k)" using d(1) by simp
  obtain k1 where k1: "mutex_restore a t (upd_mutex a (\<lambda>m. m\<lparr>hold := hold m - 1\<rparr>) k) = Some k1"
    and k': "k' = upd_mutex a (\<lambda>m. m\<lparr>mutex_value := mutex_value m + 1, owner := None, original_priority := 0xFF\<rparr>) k1"
    using r d(4)
  proof (cases rule: rt_mutex_release_cases)
    case (pass k1 u us)
    then have "lists k1 (Susp a) = lists k (Susp a)" using mutex_restore_ok(7)[OF w1 pass(4)] by simp
    then show ?thesis using pass(5) assms(5) by simp
  qed (use assms(3,4) that in auto)
  note m = mutex_restore_ok[OF w1 k1]
  show ?thesis using r o(6) p assms(3) m(3) d(4) k' m(5) by auto
qed

theorem rt_mutex_release_keeps_running_witness:
  "\<exists>k'. rt_mutex_release 101 (upd_mutex 101 (\<lambda>_. \<lparr>mutex_value = 0, original_priority = 20, hold = 1, owner = Some 2\<rparr>) sample)
     = Some (RT_EOK, k') \<and> current k' = Some 2 \<and> current_priority (thread k' 2) = 20 \<and>
     tstat k' 3 = RT_THREAD_READY \<and> current_priority (thread k' 3) = 10"
proof -
  let ?k = "upd_mutex 101 (\<lambda>_. \<lparr>mutex_value = 0, original_priority = 20, hold = 1, owner = Some 2\<rparr>) sample"
  have c: "calls 1 2 ?k"
    using callsD[OF sample_calls] by (simp add: calls_def sys_ok_def run_ready_def) (simp add: upd_mutex_def tstat_def)
  have m: "mutexes ?k 101 = \<lparr>mutex_value = 0, original_priority = 20, hold = 1, owner = Some 2\<rparr>"
    and l: "lists ?k (Susp 101) = []" and t3: "thread ?k 3 = ready_thread 10 0x3000"
    by (simp_all add: upd_mutex_def sample_def)
  have i: "mutex_inv 101 ?k" by (simp add: mutex_inv_def m)
  obtain k' where k': "rt_mutex_release 101 ?k = Some (RT_EOK, k')" "current k' = Some 2"
    "current_priority (thread k' 2) = 20" "\<forall>u. u \<noteq> 2 \<longrightarrow> thread k' u = thread ?k u"
    using rt_mutex_release_keeps_running[OF c i _ _ l] m by auto
  then have "thread k' 3 = ready_thread 10 0x3000" using t3 by simp
  then show ?thesis using k' by (intro exI[of _ k']) (simp add: tstat_def ready_thread_def blank_thread_def)
qed

section \<open>Events\<close>

text \<open>C10: Sending events does what the abstract event set says. The call returns; the flags sent are added
  to the set, and in the order of the queue each thread whose condition then holds leaves it, ready,
  with the flags it receives (all it asked for, or those of them that are set) and, if it asked for
  that, takes them out of the set before the next thread is looked at. The threads that go on
  waiting keep their order, none of them has a condition that holds, and the flags left are those of
  the abstract set.\<close>

theorem rt_event_send_wakes:
  assumes "calls idle t k" "a \<noteq> 0" "event_inv a k" "evs \<noteq> 0"
    "spec_send (event_waits k (lists k (Susp a))) (ev_set (events k a) OR evs) = (woken, queue, flags)"
  shows "\<exists>k'. rt_event_send a evs k = Some (RT_EOK, k') \<and> sys_ok idle k' \<and> event_inv a k' \<and>
    ev_set (events k' a) = flags \<and> lists k' (Susp a) = queue \<and>
    (\<forall>u got. (u, got) \<in> set woken \<longrightarrow> tstat k' u = RT_THREAD_READY \<and> event_set (thread k' u) = got) \<and>
    (\<forall>u\<in>set (lists k (Susp a)). if u \<in> set queue then thread k' u = thread k u
       else tstat k' u = RT_THREAD_READY \<and> error (thread k' u) = error (thread k u))"
proof -
  note d = callsD[OF assms(1)]
  obtain e k' where r: "rt_event_send a evs k = Some (e, k')" "sys_ok idle k'"
    using rt_event_send_sys[OF assms(1-3)] by blast
  note o = rt_event_send_ok[OF d(1) r(1) assms(4)] and p = rt_event_send_spec[OF d(1) r(1) assms(4,5)]
  show ?thesis using r o(2,4,5) p by blast
qed

text \<open>Two threads wait: the first for flag 0 or flag 2 and clears what it gets, the second for flag 0 and
  flag 1 together.\<close>

theorem rt_event_send_wakes_witness:
  "spec_send [(4, 0x06, 5), (5, 0x01, 3)] (0 OR 1) = ([(4, 1)], [5], 0) \<and>
   (\<exists>k'. rt_event_send 102 5 sample = Some (RT_EOK, k') \<and> ev_set (events k' 102) = 5 \<and> event_inv 102 k')"
proof -
  have l: "lists sample (Susp 102) = []" "ev_set (events sample 102) = 0" by (simp_all add: sample_def)
  have "spec_send (event_waits sample (lists sample (Susp 102))) (ev_set (events sample 102) OR 5) = ([], [], 5)"
    unfolding l by (simp add: event_waits_def)
  from rt_event_send_wakes[OF sample_calls _ _ _ this] sample_objs(3)[of 102]
  have "\<exists>k'. rt_event_send 102 5 sample = Some (RT_EOK, k') \<and> ev_set (events k' 102) = 5 \<and> event_inv 102 k'" by auto
  moreover have "spec_send [(4, 0x06, 5), (5, 0x01, 3)] (0 OR 1) = ([(4, 1)], [5], 0)"
    by code_simp
  ultimately show ?thesis by blast
qed

text \<open>C11: Receiving events. The call returns; it delivers exactly the requested flags that are set when
  the AND or OR condition holds (clearing them when asked), fails at once when it may not wait, and
  otherwise blocks the caller, whose condition is then false.\<close>

theorem rt_event_recv_delivers:
  assumes "calls idle t k" "a \<noteq> 0" "ipc_flag_ok a k" "timeout < 0x7FFFFFFF"
    "opt AND RT_EVENT_FLAG_AND \<noteq> 0 \<or> opt AND RT_EVENT_FLAG_OR \<noteq> 0" "event_inv a k" "evs \<noteq> 0"
  shows "\<exists>res k'. rt_event_recv a evs opt timeout k = Some (res, k') \<and> sys_ok idle k' \<and> event_inv a k' \<and>
    (if satisfied opt evs (ev_set (events k a))
     then res = Ret (RT_EOK, Some (ev_set (events k a) AND evs)) \<and>
       ev_set (events k' a) = (if opt AND RT_EVENT_FLAG_CLEAR \<noteq> 0 then ev_set (events k a) AND NOT evs
         else ev_set (events k a))
     else events k' a = events k a \<and>
       (if timeout = 0 then res = Ret (- RT_ETIMEOUT, None) else res = Wait t \<and> waiting (Susp a) t k'))"
proof -
  note d = callsD[OF assms(1)]
  obtain res k' where r: "rt_event_recv a evs opt timeout k = Some (res, k')" "sys_ok idle k'" "event_inv a k'"
    using rt_event_recv_sys[OF assms(1-6)] by blast
  note o = rt_event_recv_ok[OF d(1,9,3,4) assms(3,6) r(1)]
  show ?thesis
    using r(1) d(4)
  proof (cases rule: rt_event_recv_cases)
    case block
    let ?k = "upd_thread t (\<lambda>th. th\<lparr>event_set := evs, event_info := opt\<rparr>) k"
    have w: "wf_kernel 1 ?k" by (rule wf_kernel_thread_fields[OF d(1)]) simp_all
    have c: "run_ready ?k" "current ?k = Some t" "ipc_flag_ok a ?k"
      using d(3,4) assms(3) by (simp_all add: run_ready_def tstat_def)
    have "block_current (Susp a) (ipc_flag a ?k) timeout t (upd_thread t (\<lambda>th. th\<lparr>error := RT_EOK\<rparr>) ?k) = Some k'"
      using block(5) by simp
    then have "events k' = events k"
      using ipc_frameD(3)[OF block_self_ok(2)[OF w d(9) c(1,2) wait_queue_Susp(1) c(3)]] by simp
    then show ?thesis using r o(4)[OF block(4)] block(2-4) by (intro exI[of _ res] exI[of _ k']) simp
  next
    case got
    then show ?thesis using r by (intro exI[of _ res] exI[of _ k']) simp
  next
    case none
    then show ?thesis using r by (intro exI[of _ res] exI[of _ k']) simp
  qed (use assms in simp)
qed

theorem rt_event_recv_delivers_witness:
  "\<exists>k'. rt_event_recv 102 5 RT_EVENT_FLAG_OR 0 sample = Some (Ret (- RT_ETIMEOUT, None), k') \<and> event_inv 102 k'"
proof -
  have "\<not> satisfied RT_EVENT_FLAG_OR 5 (ev_set (events sample 102))"
    by (simp add: satisfied_def sample_def)
  then show ?thesis
    using rt_event_recv_delivers[OF sample_calls, of 102 0 RT_EVENT_FLAG_OR 5] sample_flag sample_objs(3)[of 102]
    by auto
qed

section \<open>Mailboxes\<close>

text \<open>C12: Sending to a mailbox. The call returns; with room the mail is appended to the contents,
  without room it fails at once or blocks the caller in the senders' queue, and the contents stay
  as they are.\<close>

theorem rt_mb_send_appends:
  assumes "calls idle t k" "a \<noteq> 0" "ipc_flag_ok a k" "timeout < 0x7FFFFFFF" "mb_ok a k"
  shows "\<exists>res k'. rt_mb_send_wait a v timeout k = Some (res, k') \<and> sys_ok idle k' \<and> mb_ok a k' \<and>
    (if length (mb_contents a k) < mb_capacity a k then res = Ret RT_EOK \<and> mb_contents a k' = mb_contents a k @ [v]
     else mb_contents a k' = mb_contents a k \<and>
       (if timeout = 0 then res = Ret (- RT_EFULL)
        else res = Wait (t, timeout, tick k) \<and> waiting (SuspSender a) t k'))"
proof -
  note d = callsD[OF assms(1)]
  obtain res k' where r: "rt_mb_send_wait a v timeout k = Some (res, k')" "sys_ok idle k'" "mb_ok a k'"
    using rt_mb_send_wait_sys[OF assms] by blast
  have i: "mb_inv a k" using assms(5) by (simp add: mb_ok_def)
  note o = rt_mb_send_wait_ok[OF d(1,9,3) assms(3) i r(1)]
  have "res = Ret RT_EOK \<or> (if timeout = 0 then res = Ret (- RT_EFULL) else res = Wait (t, timeout, tick k))"
    using r(1) d(4) by (auto simp: rt_mb_send_wait_eq split: if_splits elim!: mb_send_loop_cases)
  then show ?thesis using r o(4,5,6) by (auto split: if_splits)
qed

theorem rt_mb_send_appends_witness:
  "\<exists>k'. rt_mb_send_wait 103 9 0 sample = Some (Ret RT_EOK, k') \<and> mb_contents 103 k' = [9]"
proof -
  have "mb_contents 103 sample = []" "mb_capacity 103 sample = 4"
    by (simp_all add: mb_contents_def mb_capacity_def sample_def)
  then show ?thesis
    using rt_mb_send_appends[OF sample_calls, of 103 0 9] sample_flag sample_objs(4)[of 103] by auto
qed

text \<open>C13: Receiving from a mailbox. The call returns; it takes the oldest mail, or fails at once, or
  blocks the caller in the receivers' queue when the mailbox is empty.\<close>

theorem rt_mb_recv_oldest:
  assumes "calls idle t k" "a \<noteq> 0" "ipc_flag_ok a k" "timeout < 0x7FFFFFFF" "mb_ok a k"
  shows "\<exists>res k'. rt_mb_recv a timeout k = Some (res, k') \<and> sys_ok idle k' \<and> mb_ok a k' \<and>
    (case mb_contents a k of
       v # vs \<Rightarrow> res = Ret (RT_EOK, Some v) \<and> mb_contents a k' = vs
     | [] \<Rightarrow> mb_contents a k' = [] \<and>
         (if timeout = 0 then res = Ret (- RT_ETIMEOUT, None)
          else res = Wait (t, timeout, tick k) \<and> waiting (Susp a) t k'))"
proof -
  note d = callsD[OF assms(1)]
  obtain res k' where r: "rt_mb_recv a timeout k = Some (res, k')" "sys_ok idle k'" "mb_ok a k'"
    using rt_mb_recv_sys[OF assms] by blast
  have i: "mb_inv a k" using assms(5) by (simp add: mb_ok_def)
  note o = rt_mb_recv_ok[OF d(1,9,3) assms(3) i r(1)]
  have "(\<exists>v. res = Ret (RT_EOK, v)) \<or>
    (if timeout = 0 then res = Ret (- RT_ETIMEOUT, None) else res = Wait (t, timeout, tick k))"
    using r(1) d(4) by (auto simp: rt_mb_recv_eq split: if_splits elim!: mb_recv_loop_cases)
  then show ?thesis using r o(4,5) by (auto split: if_splits list.splits)
qed

theorem rt_mb_recv_oldest_witness:
  "\<exists>k'. rt_mb_recv 103 5 sample = Some (Wait (2, 5, 0), k') \<and> waiting (Susp 103) 2 k'"
proof -
  have "mb_contents 103 sample = []" "tick sample = 0"
    by (simp_all add: mb_contents_def sample_def)
  then show ?thesis
    using rt_mb_recv_oldest[OF sample_calls, of 103 5] sample_flag sample_objs(4)[of 103] by auto
qed

section \<open>Message queues\<close>

text \<open>C14: Sending a message. The call returns; a message that is too long is refused, a full queue
  reports so, and otherwise the bytes of the caller's buffer become the last message, taking one
  slot from the free list, while the messages before it stay as they are, and the first waiting
  receiver leaves the queue and is ready, with its error code as it was.\<close>

theorem rt_mq_send_queues:
  assumes "calls idle t k" "a \<noteq> 0" "b \<noteq> 0" "sz \<noteq> 0" "mq_ok a q f k" "outside_pool a b sz k"
  shows "\<exists>e k'. rt_mq_send a b sz k = Some (e, k') \<and> sys_ok idle k' \<and>
    (if unat (mq_msg_size (mqueues k a)) < sz then e = - RT_ERROR \<and> k' = k
     else case f of
       [] \<Rightarrow> e = - RT_EFULL \<and> k' = k
     | x # f' \<Rightarrow> e = RT_EOK \<and> mq_rep a (q @ [x]) f' k' \<and>
         (\<exists>msg. mq_contents a (q @ [x]) k' = mq_contents a q k @ [msg] \<and>
            take sz msg = map (\<lambda>i. kram k (b + i)) [0..<sz]) \<and>
         lists k' (Susp a) = tl (lists k (Susp a)) \<and>
         (\<forall>u us. lists k (Susp a) = u # us \<longrightarrow> tstat k' u = RT_THREAD_READY \<and> error (thread k' u) = error (thread k u)))"
proof -
  obtain e k' where r: "rt_mq_send a b sz k = Some (e, k')" "sys_ok idle k'" using rt_mq_send_sys(1)[OF assms] by blast
  note w = callsD(1)[OF assms(1)] and m = mq_okD(1)[OF assms(5)]
  have "lists k' (Susp a) = tl (lists k (Susp a)) \<and>
    (\<forall>u us. lists k (Susp a) = u # us \<longrightarrow> tstat k' u = RT_THREAD_READY \<and> error (thread k' u) = error (thread k u))"
    if "f = x # f'" "\<not> unat (mq_msg_size (mqueues k a)) < sz" for x f'
    using rt_mq_send_wakes[OF w m[unfolded that(1)], of sz b e k'] that(2) r(1) by auto
  then show ?thesis using r rt_mq_send_ok(3)[OF w m assms(6) r(1)] by (cases f) (auto split: if_splits)
qed

theorem rt_mq_send_queues_witness:
  "\<exists>k'. rt_mq_send 105 0x100 3 sample_mq = Some (RT_EOK, k') \<and> mq_rep 105 [0x5000] [] k'"
proof -
  have "unat (mq_msg_size (mqueues sample_mq 105)) = 8" "outside_pool 105 0x100 3 sample_mq"
    by (simp_all add: sample_mq_def outside_pool_def apart_def)
  then show ?thesis using rt_mq_send_queues[OF sample_mq_calls _ _ _ sample_mq_ok, of "0x100" 3] by auto
qed

text \<open>C15: An urgent message overtakes the others: as \<open>rt_mq_send_queues\<close>, with the message becoming the
  first of the queue, and the first waiting receiver is woken likewise.\<close>

theorem rt_mq_urgent_overtakes:
  assumes "calls idle t k" "a \<noteq> 0" "b \<noteq> 0" "sz \<noteq> 0" "mq_ok a q f k" "outside_pool a b sz k"
  shows "\<exists>e k'. rt_mq_urgent a b sz k = Some (e, k') \<and> sys_ok idle k' \<and>
    (if unat (mq_msg_size (mqueues k a)) < sz then e = - RT_ERROR \<and> k' = k
     else case f of
       [] \<Rightarrow> e = - RT_EFULL \<and> k' = k
     | x # f' \<Rightarrow> e = RT_EOK \<and> mq_rep a (x # q) f' k' \<and>
         (\<exists>msg. mq_contents a (x # q) k' = msg # mq_contents a q k \<and>
            take sz msg = map (\<lambda>i. kram k (b + i)) [0..<sz]) \<and>
         lists k' (Susp a) = tl (lists k (Susp a)) \<and>
         (\<forall>u us. lists k (Susp a) = u # us \<longrightarrow> tstat k' u = RT_THREAD_READY \<and> error (thread k' u) = error (thread k u)))"
proof -
  obtain e k' where r: "rt_mq_urgent a b sz k = Some (e, k')" "sys_ok idle k'" using rt_mq_send_sys(2)[OF assms] by blast
  note w = callsD(1)[OF assms(1)] and m = mq_okD(1)[OF assms(5)]
  have "lists k' (Susp a) = tl (lists k (Susp a)) \<and>
    (\<forall>u us. lists k (Susp a) = u # us \<longrightarrow> tstat k' u = RT_THREAD_READY \<and> error (thread k' u) = error (thread k u))"
    if "f = x # f'" "\<not> unat (mq_msg_size (mqueues k a)) < sz" for x f'
    using rt_mq_send_wakes[OF w m[unfolded that(1)], of sz b e k'] that(2) r(1) by auto
  then show ?thesis using r rt_mq_urgent_ok(3)[OF w m assms(6) r(1)] by (cases f) (auto split: if_splits)
qed

theorem rt_mq_urgent_overtakes_witness:
  "\<exists>k'. rt_mq_urgent 105 0x100 3 sample_mq = Some (RT_EOK, k') \<and> mq_rep 105 [0x5000] [] k'"
proof -
  have "unat (mq_msg_size (mqueues sample_mq 105)) = 8" "outside_pool 105 0x100 3 sample_mq"
    by (simp_all add: sample_mq_def outside_pool_def apart_def)
  then show ?thesis using rt_mq_urgent_overtakes[OF sample_mq_calls _ _ _ sample_mq_ok, of "0x100" 3] by auto
qed

text \<open>C16: Receiving a message. The call returns; the first message, cut to the size of the buffer, is in
  the caller's buffer and its slot is free again, the other messages stay as they are; with an
  empty queue the call fails at once or blocks the caller.\<close>

theorem rt_mq_recv_first:
  assumes "calls idle t k" "a \<noteq> 0" "b \<noteq> 0" "sz \<noteq> 0" "ipc_flag_ok a k" "timeout < 0x7FFFFFFF" "mq_ok a q f k"
    "outside_pool a b sz k" "stacks_apart b sz k"
  shows "\<exists>res k'. rt_mq_recv a b sz timeout k = Some (res, k') \<and> sys_ok idle k' \<and>
    (case q of
       [] \<Rightarrow> mq_rep a [] f k' \<and>
         (if timeout = 0 then res = Ret (- RT_ETIMEOUT) else res = Wait (t, timeout, tick k) \<and> waiting (Susp a) t k')
     | x # q' \<Rightarrow> res = Ret RT_EOK \<and> mq_rep a q' (x # f) k' \<and> mq_contents a q' k' = tl (mq_contents a q k) \<and>
         map (\<lambda>i. kram k' (b + i)) [0..<min sz (unat (mq_msg_size (mqueues k a)))] = take sz (hd (mq_contents a q k)))"
proof -
  note d = callsD[OF assms(1)] and m = mq_okD(1)[OF assms(7)]
  obtain res k' where r: "rt_mq_recv a b sz timeout k = Some (res, k')" "sys_ok idle k'"
    using rt_mq_recv_sys[OF assms] by blast
  note o = rt_mq_recv_ok(3)[OF d(1,9,3) assms(5) m assms(8) r(1)]
  show ?thesis
  proof (cases q)
    case Nil
    then have "mq_entry (mqueues k a) = 0" using mq_entry_zero[OF m] by simp
    then have "res = (if timeout = 0 then Ret (- RT_ETIMEOUT) else Wait (t, timeout, tick k))"
      using r(1) d(4) by (auto simp: rt_mq_recv_def mq_recv_loop_def rt_thread_self_def Let_def bind_eq_Some_conv split: if_splits)
    then show ?thesis using r o Nil by (intro exI[of _ res] exI[of _ k']) simp
  qed (use r o in auto)
qed

theorem rt_mq_recv_first_witness:
  "\<exists>k'. rt_mq_recv 105 0x100 8 9 sample_mq = Some (Wait (2, 9, 0), k') \<and> waiting (Susp 105) 2 k'"
proof -
  have "ipc_flag_ok 105 sample_mq" using sample_flag[of 105] by (simp add: sample_mq_def ipc_flag_def upd_ram_def upd_mq_def)
  moreover have "outside_pool 105 0x100 8 sample_mq" by (simp add: sample_mq_def outside_pool_def apart_def)
  moreover have "stacks_apart 0x100 8 sample" by (auto simp: stacks_apart_def apart_def sample_simps)
  then have "stacks_apart 0x100 8 sample_mq" by (simp add: sample_mq_def)
  moreover have "tick sample_mq = 0" by (simp add: sample_mq_def upd_ram_def upd_mq_def sample_def)
  ultimately show ?thesis
    using rt_mq_recv_first[OF sample_mq_calls _ _ _ _ _ sample_mq_ok, of "0x100" 8 9] by auto
qed

section \<open>Memory pools\<close>

text \<open>C17: Allocating from a memory pool. The call returns; a free block is handed out that was not in
  use before, and becomes the only new block in use; an exhausted pool fails at once or blocks the
  caller.\<close>

theorem rt_mp_alloc_fresh:
  assumes "calls idle t k" "time < 0x7FFFFFFF" "mp_ok a f k"
  shows "\<exists>res k'. rt_mp_alloc a time k = Some (res, k') \<and> sys_ok idle k' \<and>
    (case f of
       x # f' \<Rightarrow> res = Ret (x + 4) \<and> mp_rep a f' k' \<and> x + 4 \<notin> mp_used a f k \<and>
         mp_used a f' k' = Set.insert (x + 4) (mp_used a f k)
     | [] \<Rightarrow> mp_rep a [] k' \<and> mp_used a [] k' = mp_used a [] k \<and>
         (if time = 0 then res = Ret 0 else (\<exists>st. res = Wait (t, time, st)) \<and> waiting (Susp a) t k'))"
proof -
  note d = callsD[OF assms(1)] and m = mp_okD[OF assms(3)]
  obtain res k' where r: "mp_alloc_loop a time k = Some (res, k')" "sys_ok idle k'"
    using mp_alloc_loop_sys[OF assms] by blast
  note o = mp_alloc_loop_ok(3)[OF d(1,9,3) m(1,2) r(1)]
  show ?thesis
  proof (cases f)
    case Nil
    then have z: "block_free_count (mempools k a) = 0" using mp_repD(2)[OF m(1)] by simp
    have "if time = 0 then res = Ret 0 else \<exists>st. res = Wait (t, time, st)"
      using r(1) z d(4) by (auto simp: mp_alloc_loop_def rt_thread_self_def Let_def bind_eq_Some_conv split: if_splits)
    then show ?thesis using r o Nil by (auto simp: rt_mp_alloc_def)
  qed (use r o in \<open>auto simp: rt_mp_alloc_def\<close>)
qed

theorem rt_mp_alloc_fresh_witness:
  "\<exists>k'. rt_mp_alloc 106 5 sample_mp = Some (Ret 0x6010, k') \<and> mp_used 106 [] k' = {0x6010, 0x6004}"
  using rt_mp_alloc_fresh[OF sample_mp_calls _ sample_mp_ok(1), of 5] by (auto simp: sample_mp_rep)

text \<open>C18: Freeing a block of a memory pool. The call returns; the block is free again and no other
  changes hands; a waiting thread becomes ready.\<close>

theorem rt_mp_free_returns:
  assumes "calls idle t k" "mp_ok a f k" "x + 4 \<in> mp_used a f k"
  shows "\<exists>k'. rt_mp_free (x + 4) k = Some k' \<and> sys_ok idle k' \<and> mp_rep a (x # f) k' \<and> mp_waiters_ok a k' \<and>
    mp_used a (x # f) k' = mp_used a f k - {x + 4} \<and> lists k' (Susp a) = tl (lists k (Susp a)) \<and>
    (\<forall>u us. lists k (Susp a) = u # us \<longrightarrow> tstat k' u = RT_THREAD_READY)"
proof -
  note d = callsD[OF assms(1)] and m = mp_okD[OF assms(2)]
  obtain k' where r: "rt_mp_free (x + 4) k = Some k'" "sys_ok idle k'" using rt_mp_free_sys[OF assms] by blast
  note o = rt_mp_free_ok[OF d(1) m(1,2) assms(3) r(1)]
  show ?thesis using r o(3-7) by blast
qed

theorem rt_mp_free_returns_witness:
  "\<exists>k'. rt_mp_free (0x6000 + 4) sample_mp = Some k' \<and> mp_rep 106 [0x6000, 0x600C] k' \<and>
     mp_used 106 [0x6000, 0x600C] k' = {}"
  using rt_mp_free_returns[OF sample_mp_calls sample_mp_ok(1), of "0x6000"] by (auto simp: sample_mp_rep)

text \<open>C19: A waiting time that runs out corrupts the pool. A thread waits for a block of an exhausted
  pool, its time runs out, it leaves the queue, and when it runs again its call returns no block; but
  then the pool still counts it as waiting, and the next \<^verbatim>\<open>rt_mp_free\<close> takes the head of the empty queue
  for a thread, an undefined step at which the model stops.\<close>

theorem rt_mp_timeout_stale_count:
  assumes "calls idle t k" "time < 0x7FFFFFFF" "time \<noteq> 0" "mp_ok a [] k" "lists k (Susp a) = []" "x + 4 \<in> mp_used a [] k"
  shows "\<exists>w k1 k2 k3. rt_mp_alloc a time k = Some (Wait w, k1) \<and> rt_thread_timeout t k1 = Some k2 \<and>
    rt_mp_alloc_cont a w (k2\<lparr>current := Some t\<rparr>) = Some (Ret 0, k3) \<and>
    lists k3 (Susp a) = [] \<and> suspend_thread_count (mempools k3 a) = 1 \<and> rt_mp_free (x + 4) k3 = None"
proof -
  note d = callsD[OF assms(1)] and m = mp_okD[OF assms(4)]
  obtain res k1 where r: "mp_alloc_loop a time k = Some (res, k1)" "sys_ok idle k1"
    using mp_alloc_loop_sys[OF assms(1,2,4)] by blast
  have "block_free_count (mempools k a) = 0" using mp_repD(2)[OF m(1)] by simp
  then obtain st where res: "res = Wait (t, time, st)"
    using r(1) d(4) assms(3) by (auto simp: mp_alloc_loop_def rt_thread_self_def Let_def bind_eq_Some_conv split: if_splits)
  then have "waiting (Susp a) t k1" using mp_alloc_loop_ok(3)[OF d(1,9,3) m(1,2) r(1)] by simp
  then have "tstat k1 t = RT_THREAD_SUSPEND" by (simp add: waiting_def)
  then obtain k2 where k2: "rt_thread_timeout t k1 = Some k2"
    using rt_thread_timeout_progress sys_okD(1,2)[OF r(2)] by blast
  note o = rt_mp_free_after_timeout[OF d(1,9,3) m(1,2) assms(5) r(1)[unfolded res] k2 assms(6) refl]
  show ?thesis using r(1) res k2 o unfolding rt_mp_alloc_def by blast
qed

theorem rt_mp_timeout_stale_count_witness:
  "\<exists>w k1 k2 k3. rt_mp_alloc 107 5 sample_mp = Some (Wait w, k1) \<and> rt_thread_timeout 2 k1 = Some k2 \<and>
    rt_mp_alloc_cont 107 w (k2\<lparr>current := Some 2\<rparr>) = Some (Ret 0, k3) \<and>
    lists k3 (Susp 107) = [] \<and> suspend_thread_count (mempools k3 107) = 1 \<and> rt_mp_free (0x7000 + 4) k3 = None"
  by (rule rt_mp_timeout_stale_count[OF sample_mp_calls _ _ sample_mp_ok(2)])
    (simp_all add: sample_mp_rep, simp add: sample_mp_def sample_def upd_mp_def upd_ram_def)

section \<open>The system heap\<close>

text \<open>C27: The heap starts well formed: \<^verbatim>\<open>rt_system_heap_init\<close> turns every region with room for two
  headers and the smallest block into one free block that fills the aligned region, with nothing
  handed out.\<close>

theorem rt_system_heap_init_empty:
  assumes "b + 3 < 2 ^ 32" "e < 2 ^ 32" "align4 b + 36 \<le> align_down4 e" "used_mem h = 0"
  shows "wf_heap (rt_system_heap_init b e h) [0] \<and> heap_allocs (rt_system_heap_init b e h) [0] = {} \<and>
    heap_ptr (rt_system_heap_init b e h) = align4 b \<and>
    heap_ptr (rt_system_heap_init b e h) + heap_end (rt_system_heap_init b e h) + 12 = align_down4 e"
  using rt_system_heap_init_ok[OF assms] by simp

theorem rt_system_heap_init_empty_witness:
  "wf_heap (rt_system_heap_init 0x1001 0x2003 empty_heap) [0] \<and> heap_ptr (rt_system_heap_init 0x1001 0x2003 empty_heap) = 0x1004"
  using rt_system_heap_init_empty[of "0x1001" "0x2003" empty_heap]
  by (simp add: align4_def align_down4_def add32_def empty_heap_def)

text \<open>C20: \<^verbatim>\<open>rt_malloc\<close> is first fit. On a well-formed heap the call returns; it hands out the lowest free
  block at or above \<^verbatim>\<open>lfree\<close> that is large enough and ends the search in time, at an aligned address,
  cuts off what is left when that can hold a block of its own, keeps the heap well formed and every
  other region untouched; without such a block it returns no memory and changes nothing.\<close>

theorem rt_malloc_first_fit:
  assumes "wf_heap h xs" "0 < sz" "sz + 3 < 2 ^ 32"
  shows "if \<exists>x\<in>set xs. malloc_fits h (malloc_size sz) x
    then \<exists>x h' xs'. x \<in> set xs \<and> malloc_fits h (malloc_size sz) x \<and>
      (\<forall>y\<in>set xs. malloc_fits h (malloc_size sz) y \<longrightarrow> x \<le> y) \<and>
      rt_malloc sz h = Some (heap_ptr h + x + 12, h') \<and> 4 dvd heap_ptr h + x + 12 \<and> wf_heap h' xs' \<and> ram h' = ram h \<and>
      heap_allocs h' xs' = Set.insert (heap_ptr h + x + 12,
        if malloc_size sz + 24 \<le> hnext (blk h x) - x - 12 then malloc_size sz else hnext (blk h x) - x - 12) (heap_allocs h xs)
    else rt_malloc sz h = Some (0, h)"
proof (cases "\<exists>x\<in>set xs. malloc_fits h (malloc_size sz) x")
  case True
  obtain x h' xs' where x: "x \<in> set xs" "malloc_fits h (malloc_size sz) x"
    "\<And>y. y \<in> set xs \<Longrightarrow> malloc_fits h (malloc_size sz) y \<Longrightarrow> x \<le> y"
    "rt_malloc sz h = Some (heap_ptr h + x + 12, h')" "wf_heap h' xs'" "same_heap h h'"
    and a: "heap_allocs h' xs' = Set.insert (heap_ptr h + x + 12,
      if splits (malloc_size sz) x h then malloc_size sz else hnext (blk h x) - x - 12) (heap_allocs h xs)"
    by (rule rt_malloc_some[OF assms True]) blast
  have "4 dvd heap_ptr h + x + 12"
    by (rule heap_allocs_in_heap(4)[OF wf_heapD(1)[OF x(5)]]) (use a in blast)
  moreover have "ram h' = ram h" using x(6) by (simp add: same_heap_def)
  ultimately show ?thesis unfolding if_P[OF True] using x(1-5) a unfolding splits_def by blast
next
  case False
  then show ?thesis unfolding if_not_P[OF False] using rt_malloc_none[OF assms] by blast
qed

theorem rt_malloc_first_fit_witness:
  "\<exists>h' xs'. rt_malloc 5 sample_heap = Some (0x100C, h') \<and> wf_heap h' xs' \<and> heap_allocs h' xs' = {(0x100C, 12)}"
proof -
  have m: "malloc_size 5 = 12" by (simp add: malloc_size_def align4_def align_down4_def add32_def)
  have f: "\<exists>x\<in>set [0]. malloc_fits sample_heap (malloc_size 5) x"
    by (simp add: malloc_fits_def m sample_heap_simps)
  have n: "0 < (5 :: nat)" "5 + 3 < (2 ^ 32 :: nat)" by simp_all
  show ?thesis using rt_malloc_first_fit[OF sample_heap_ok(1) n] unfolding if_P[OF f]
    by (auto simp: m sample_heap_simps sample_heap_ok(2))
qed

text \<open>C25: When \<^verbatim>\<open>rt_malloc\<close> finds nothing. As long as \<^verbatim>\<open>lfree\<close> is the lowest free block, a request is
  refused only if every free block is too small for it, or fits exactly and is the last one of the
  heap: the search stops one block short.\<close>

theorem rt_malloc_refuses:
  assumes "wf_heap h xs" "lfree_lowest h xs" "0 < sz" "sz + 3 < 2 ^ 32"
  shows "(\<exists>h'. rt_malloc sz h = Some (0, h')) \<longleftrightarrow>
    (\<forall>x\<in>set xs. used (blk h x) = 0 \<longrightarrow> hnext (blk h x) - x - 12 < malloc_size sz \<or>
       hnext (blk h x) = heap_end h \<and> hnext (blk h x) - x - 12 = malloc_size sz)"
proof -
  note d = wf_heapD[OF assms(1)]
  have b: "x + 16 \<le> hnext (blk h x)" "hnext (blk h x) \<le> mem_size_aligned h + 12" if "x \<in> set xs" for x
    using hblocks_bounds[OF heap_chainD(2)[OF d(1)] that] heap_frameD(1)[OF heap_chainD(1)[OF d(1)]] by auto
  have "(\<exists>h'. rt_malloc sz h = Some (0, h')) \<longleftrightarrow> (\<forall>x\<in>set xs. \<not> malloc_fits h (malloc_size sz) x)"
  proof (cases "\<exists>x\<in>set xs. malloc_fits h (malloc_size sz) x")
    case True
    obtain x h' where "rt_malloc sz h = Some (heap_ptr h + x + 12, h')" by (rule rt_malloc_some[OF assms(1,3,4) True])
    then show ?thesis using True by auto
  qed (use rt_malloc_none[OF assms(1,3,4)] in blast)
  also have "\<dots> \<longleftrightarrow> (\<forall>x\<in>set xs. used (blk h x) = 0 \<longrightarrow> hnext (blk h x) - x - 12 < malloc_size sz \<or>
       hnext (blk h x) = heap_end h \<and> hnext (blk h x) - x - 12 = malloc_size sz)"
  proof (rule ball_cong[OF refl])
    fix x assume x: "x \<in> set xs"
    have "lfree h \<le> x" if "used (blk h x) = 0" using assms(2) x that by (simp add: lfree_lowest_def)
    moreover have "heap_end h = mem_size_aligned h + 12" by (rule heap_frameD(1)[OF heap_chainD(1)[OF d(1)]])
    ultimately show "(\<not> malloc_fits h (malloc_size sz) x) = (used (blk h x) = 0 \<longrightarrow> hnext (blk h x) - x - 12 < malloc_size sz \<or>
       hnext (blk h x) = heap_end h \<and> hnext (blk h x) - x - 12 = malloc_size sz)"
      using b[OF x] unfolding malloc_fits_def by auto
  qed
  finally show ?thesis .
qed

theorem rt_malloc_refuses_witness: "\<exists>h'. rt_malloc 4072 sample_heap = Some (0, h')"
proof -
  have m: "malloc_size 4072 = 4072" by (simp add: malloc_size_def align4_def align_down4_def add32_def)
  have n: "0 < (4072 :: nat)" "4072 + 3 < (2 ^ 32 :: nat)" by simp_all
  show ?thesis unfolding rt_malloc_refuses[OF sample_heap_ok(1,3) n] by (simp add: m sample_heap_simps)
qed

text \<open>C21: What \<^verbatim>\<open>rt_malloc\<close> hands out is new memory and \<^verbatim>\<open>rt_free\<close> takes it back: the region lies apart
  from every region in use, and freeing it returns and leaves the regions as they were.\<close>

theorem rt_malloc_free_restores:
  assumes "heap_rep h R" "0 < sz" "sz + 3 < 2 ^ 32" "rt_malloc sz h = Some (p, h')" "p \<noteq> 0"
  shows "(\<forall>q m. (q, m) \<in> R \<longrightarrow> apart p sz q m) \<and> (\<exists>h''. rt_free p h' = Some h'' \<and> heap_rep h'' R)"
proof -
  have v: "malloc_valid sz" using assms(2,3) by (simp add: malloc_valid_def)
  obtain n where n: "malloc_asks sz n" "\<And>q m. (q, m) \<in> R \<Longrightarrow> apart p n q m"
    by (rule sys_heap.alloc_fresh[OF assms(1) v assms(4,5)]) blast
  have "apart p sz q m" if "(q, m) \<in> R" for q m using n(1) n(2)[OF that] by (auto simp: apart_def malloc_asks_def)
  then show ?thesis using sys_heap.alloc_release[OF assms(1) v assms(4,5)] by blast
qed

theorem rt_malloc_free_restores_witness:
  "\<exists>p h' h''. rt_malloc 5 sample_heap = Some (p, h') \<and> rt_free p h' = Some h'' \<and> heap_rep h'' {}"
proof -
  have r: "heap_rep sample_heap {}" using sample_heap_ok(1,2) unfolding heap_rep_def by metis
  have m: "malloc_size 5 = 12" by (simp add: malloc_size_def align4_def align_down4_def add32_def)
  have f: "\<exists>x\<in>set [0]. malloc_fits sample_heap (malloc_size 5) x"
    by (simp add: malloc_fits_def m sample_heap_simps)
  obtain x h' where h: "rt_malloc 5 sample_heap = Some (heap_ptr sample_heap + x + 12, h')"
    by (rule rt_malloc_some[OF sample_heap_ok(1) _ _ f]) simp_all
  then show ?thesis using rt_malloc_free_restores[OF r _ _ h] by auto
qed

text \<open>C22: \<^verbatim>\<open>rt_free\<close> keeps the heap well formed, merging the block with its free neighbours so that no
  two free blocks follow each other, takes exactly this region back and lowers the count of used
  bytes by the block and its header.\<close>

theorem rt_free_merges:
  assumes "wf_heap h xs" "(p, n) \<in> heap_allocs h xs"
  shows "\<exists>h' xs'. rt_free p h = Some h' \<and> wf_heap h' xs' \<and> no_holes (blk h') xs' \<and>
    heap_allocs h' xs' = heap_allocs h xs - {(p, n)} \<and> used_mem h' + n + 12 = used_mem h \<and> ram h' = ram h"
proof -
  obtain h' xs' where r: "rt_free p h = Some h'" "wf_heap h' xs'" "same_heap h h'"
    "heap_allocs h' xs' = heap_allocs h xs - {(p, n)}" by (rule rt_free_ok[OF assms])
  have "used_mem h' + n + 12 = used_mem h" by (rule rt_free_used[OF assms r(1)])
  then show ?thesis using r wf_heapD(2)[OF r(2)] by (auto simp: same_heap_def)
qed

theorem rt_free_merges_witness:
  "\<exists>h' xs'. rt_free 0x100C sample_full = Some h' \<and> wf_heap h' xs' \<and> heap_allocs h' xs' = {} \<and> used_mem h' = 0"
proof -
  have "(0x100C, 4072) \<in> heap_allocs sample_full [0]" "used_mem sample_full = 4084" by (simp_all add: sample_full_ok) (simp add: sample_full_def)
  then show ?thesis using rt_free_merges[OF sample_full_ok(1), of "0x100C" 4072] by (auto simp: sample_full_ok(2))
qed

text \<open>C23: \<^verbatim>\<open>rt_realloc\<close> of a block in use returns. Either it returns no memory and changes nothing, or the
  block it returns is large enough, takes the place of the old one among the regions in use and
  holds the old contents as far as both reach.\<close>

theorem rt_realloc_moves:
  assumes "wf_heap h xs" "(p, n) \<in> heap_allocs h xs" "0 < ns" "ns + 3 < 2 ^ 32"
  shows "\<exists>q h'. rt_realloc p ns h = Some (q, h') \<and>
    (q = 0 \<and> h' = h \<or> q \<noteq> 0 \<and> (\<exists>m xs'. ns \<le> m \<and> wf_heap h' xs' \<and>
       heap_allocs h' xs' = Set.insert (q, m) (heap_allocs h xs - {(p, n)}) \<and>
       (\<forall>i<min n ns. ram h' (q + i) = ram h (p + i))))"
  by (rule rt_realloc_ok[OF assms(1,2)]) (use assms(3,4) in \<open>simp add: malloc_valid_def\<close>)

theorem rt_realloc_moves_witness:
  "\<exists>q h'. rt_realloc 0x100C 100 sample_full = Some (q, h') \<and>
    (q = 0 \<and> h' = sample_full \<or> (\<forall>i<100. ram h' (q + i) = ram sample_full (0x100C + i)))"
proof -
  have "(0x100C, 4072) \<in> heap_allocs sample_full [0]" by (simp add: sample_full_ok)
  from rt_realloc_moves[OF sample_full_ok(1) this, of 100] show ?thesis by auto
qed

text \<open>C24: Shrinking can hide memory. When no free block is known, \<^verbatim>\<open>rt_realloc\<close> to a much smaller size
  returns and the count of used bytes drops, but \<^verbatim>\<open>lfree\<close> stays at the end of the heap: every
  later \<^verbatim>\<open>rt_malloc\<close> finds nothing.\<close>

theorem rt_realloc_hides_memory:
  assumes "wf_heap h xs" "(p, n) \<in> heap_allocs h xs" "lfree h = heap_end h" "0 < ns" "ns + 3 < 2 ^ 32" "align4 ns + 24 < n"
  shows "\<exists>h'. rt_realloc p ns h = Some (p, h') \<and> used_mem h' = used_mem h - (n - align4 ns) \<and>
    (\<forall>sz. 0 < sz \<and> sz + 3 < 2 ^ 32 \<longrightarrow> rt_malloc sz h' = Some (0, h'))"
  using rt_realloc_no_lfree[OF assms(1-3) _ assms(6)] assms(4,5) by (simp add: malloc_valid_def)

theorem rt_realloc_hides_memory_witness:
  "\<exists>h'. rt_realloc 0x100C 100 sample_full = Some (0x100C, h') \<and> used_mem h' = 112 \<and> rt_malloc 50 h' = Some (0, h')"
proof -
  have a: "(0x100C, 4072) \<in> heap_allocs sample_full [0]" by (simp add: sample_full_ok)
  have n: "align4 100 = 100" "used_mem sample_full = 4084"
    by (simp_all add: align4_def align_down4_def add32_def sample_full_def)
  show ?thesis using rt_realloc_hides_memory[OF sample_full_ok(1) a sample_full_ok(3), of 100] n by auto
qed

text \<open>C26: \<^verbatim>\<open>rt_calloc\<close> multiplies in 32 bits. On a well-formed heap the call hands out a cleared block exactly
  when \<^verbatim>\<open>rt_malloc\<close> has room for the product modulo \<open>2 ^ 32\<close>, and then changes no byte of the regions in
  use; the block holds the objects asked for when the product fits into 32 bits, and is too small
  for them when it does not.\<close>

theorem rt_calloc_clears:
  assumes "wf_heap h xs" "n = cnt * sz mod 2 ^ 32" "0 < n" "n + 3 < 2 ^ 32"
  shows "if \<exists>x\<in>set xs. malloc_fits h (malloc_size n) x
    then \<exists>p m h' xs'. rt_calloc cnt sz h = Some (p, h') \<and> p \<noteq> 0 \<and> wf_heap h' xs' \<and>
      heap_allocs h' xs' = Set.insert (p, m) (heap_allocs h xs) \<and> (\<forall>i<n. ram h' (p + i) = 0) \<and>
      (\<forall>q l i. (q, l) \<in> heap_allocs h xs \<longrightarrow> i < l \<longrightarrow> ram h' (q + i) = ram h (q + i)) \<and>
      (if cnt * sz < 2 ^ 32 then cnt * sz \<le> m else m < cnt * sz)
    else rt_calloc cnt sz h = Some (0, h)"
proof (cases "\<exists>x\<in>set xs. malloc_fits h (malloc_size n) x")
  case True
  obtain p m h' xs' where r: "rt_calloc cnt sz h = Some (p, h')" "p \<noteq> 0" "n \<le> m" "m < n + 40" "wf_heap h' xs'"
    "heap_allocs h' xs' = Set.insert (p, m) (heap_allocs h xs)" "\<forall>i<n. ram h' (p + i) = 0"
    "\<forall>q l i. (q, l) \<in> heap_allocs h xs \<longrightarrow> i < l \<longrightarrow> ram h' (q + i) = ram h (q + i)"
    using rt_calloc_ok[OF assms True] by blast
  have "n + 2 ^ 32 \<le> cnt * sz" if "\<not> cnt * sz < 2 ^ 32"
  proof -
    have "1 \<le> cnt * sz div 2 ^ 32" using that div_le_mono[of "2 ^ 32" "cnt * sz" "2 ^ 32"] by simp
    then have "1 * 2 ^ 32 \<le> cnt * sz div 2 ^ 32 * 2 ^ 32" by (rule mult_le_mono1)
    then show ?thesis using div_mult_mod_eq[of "cnt * sz" "2 ^ 32"] assms(2) by linarith
  qed
  then have "if cnt * sz < 2 ^ 32 then cnt * sz \<le> m else m < cnt * sz"
    using r(3,4) assms(2) by (cases "cnt * sz < 2 ^ 32") auto
  then show ?thesis unfolding if_P[OF True] using r by blast
next
  case False
  then show ?thesis unfolding if_not_P[OF False] by (rule rt_calloc_none[OF assms])
qed

theorem rt_calloc_clears_witness:
  "\<exists>p m h' xs'. rt_calloc 0x10000001 16 sample_heap = Some (p, h') \<and> p \<noteq> 0 \<and>
     heap_allocs h' xs' = {(p, m)} \<and> m < 0x10000001 * 16 \<and> ram h' (p + 15) = 0"
proof -
  have m: "malloc_size 16 = 16" by (simp add: malloc_size_def align4_def align_down4_def add32_def)
  have f: "\<exists>x\<in>set [0]. malloc_fits sample_heap (malloc_size 16) x"
    by (simp add: malloc_fits_def m sample_heap_simps)
  have n: "16 = 0x10000001 * 16 mod (2 ^ 32 :: nat)" "0 < (16 :: nat)" "16 + 3 < (2 ^ 32 :: nat)" by simp_all
  obtain p m h' xs' where r: "rt_calloc 0x10000001 16 sample_heap = Some (p, h')" "p \<noteq> 0"
    "heap_allocs h' xs' = Set.insert (p, m) (heap_allocs sample_heap [0])" "\<forall>i<16. ram h' (p + i) = 0"
    "if 0x10000001 * 16 < (2 ^ 32 :: nat) then 0x10000001 * 16 \<le> m else m < 0x10000001 * 16"
    using rt_calloc_clears[OF sample_heap_ok(1) n] unfolding if_P[OF f] by blast
  have "m < 0x10000001 * 16" using r(5) by simp
  moreover have "ram h' (p + 15) = 0" using r(4) by simp
  ultimately show ?thesis using r(1-3) unfolding sample_heap_ok(2) by blast
qed

section \<open>Objects and queues\<close>

text \<open>C28: The thread queues of the model are what the intrusive lists hold. Where the list nodes in
  memory represent the queues, removing a node with \<^verbatim>\<open>rt_list_remove\<close> and linking an unlinked one with
  \<^verbatim>\<open>rt_list_insert_before\<close> represent the queues after the model's operations.\<close>

theorem queues_refine_lists:
  assumes "ptr_rep h (lists k)" "wf_queues k"
  shows "ptr_rep (rt_list_remove (Tlist t) h) (lists (tl_unlink t k)) \<and>
    (tlist (thread k t) = None \<longrightarrow>
       ptr_rep (rt_list_insert_before (Head q) (Tlist t) h) (lists (tl_push q t k)) \<and>
       (\<forall>u. tlist (thread k u) \<noteq> None \<longrightarrow>
          ptr_rep (rt_list_insert_before (Tlist u) (Tlist t) h) (lists (tl_insert u t k))))"
proof -
  have k: "k_rep k (lists k)" using assms(2) by (simp add: k_rep_def)
  have un: "lists (tl_unlink t k) = (\<lambda>q. removeAll t (lists k q))"
    using kq.rep_unlink[OF k, of t] by (simp add: k_rep_def)
  have "ptr_rep (rt_list_insert_before (Tlist u) (Tlist t) h) (lists (tl_insert u t k))"
    if t: "unqueued t (lists k)" and u: "tlist (thread k u) = Some r" for u r
  proof -
    obtain xs ys where r: "lists k r = xs @ u # ys"
      using u wf_queuesD(2)[OF assms(2)] split_list by metis
    show ?thesis
      using ptr_queues.rep_insert[OF assms(1) t r] kq.rep_insert[OF k t r] by (simp add: k_rep_def ptr_insert_def)
  qed
  moreover have "ptr_rep (rt_list_insert_before (Head q) (Tlist t) h) (lists (tl_push q t k))"
    if t: "unqueued t (lists k)"
    using ptr_queues.rep_push[OF assms(1) t] kq.rep_push[OF k t, of q] by (simp add: k_rep_def ptr_push_def)
  ultimately show ?thesis
    using ptr_queues.rep_unlink[OF assms(1), of t] un wf_queues_unqueued[OF assms(2), of t]
    by (auto simp: ptr_unlink_def)
qed

theorem queues_refine_lists_witness:
  "ptr_rep (rt_list_insert_before (Head Defunct) (Tlist 7) empty_nodes)
     (lists (tl_push Defunct 7 (sample\<lparr>thread := (\<lambda>_. blank_thread), lists := (\<lambda>_. [])\<rparr>)))"
proof -
  let ?k = "sample\<lparr>thread := (\<lambda>_. blank_thread), lists := (\<lambda>_. [])\<rparr>"
  have "ptr_rep empty_nodes (lists ?k)"
    by (simp add: ptr_rep_def queues_disjoint_def dlist_def empty_nodes_def)
  moreover have "wf_queues ?k" by (simp add: wf_queues_def blank_thread_def)
  ultimately show ?thesis using queues_refine_lists[of empty_nodes ?k 7 Defunct] by (simp add: blank_thread_def)
qed

text \<open>C29: An object is found under the name it was initialised with. Initialising an object of a known
  class that is in no container returns, and looking the name up in its class then finds this
  object, also when the name is longer than the name field.\<close>

theorem rt_object_init_find:
  assumes "calls idle t k" "rt_object_get_information ty \<noteq> None" "\<not> obj_linked i k" "0 \<in> set name"
  shows "\<exists>k1 k2. rt_object_init i ty name k = Some k1 \<and> rt_object_find (Some name) ty k1 = Some (Some i, k2)"
proof -
  note d = callsD[OF assms(1)]
  have len: "length (obj_name (objects k i)) = RT_NAME_MAX"
    using wf_kernelD(3)[OF d(1)] by (simp add: wf_objects_def)
  obtain nm where nm: "rt_strncpy (obj_name (objects k i)) name RT_NAME_MAX = Some nm"
    "rt_strncmp nm name RT_NAME_MAX = Some 0"
    using strncpy_strncmp[OF assms(4) len] by blast
  let ?k0 = "upd_object i (\<lambda>b. b\<lparr>obj_type := ty OR RT_Object_Class_Static, obj_name := nm\<rparr>) k"
  let ?k1 = "?k0\<lparr>containers := (containers k)(ty := i # containers k ty)\<rparr>"
  have k1: "rt_object_init i ty name k = Some ?k1"
    using assms(2,3) nm(1) by (simp add: rt_object_init_def obj_link_def Let_def) (simp add: upd_object_def)
  have "obj_search (rt_enter_critical ?k1) name (i # containers k ty) = Some (Some i)"
    using nm(2) by (simp add: upd_object_def rt_enter_critical_def)
  then have s: "obj_search (rt_enter_critical ?k1) name (containers (rt_enter_critical ?k1) ty) = Some (Some i)"
    by (simp add: rt_enter_critical_def)
  have f: "lock_nest ?k1 = 0" "interrupt_nest ?k1 = 0"
    using d(7,8) rt_object_init_frame(8,9)[OF k1] by simp_all
  have w: "wf_sched ?k1"
    by (rule wf_sched_cong[OF wf_kernelD(1)[OF d(1)]]) (simp_all add: upd_object_def)
  have l: "stacks_ok ?k1"
    by (rule stacks_ok_cong[of k]) (use d(2) in \<open>simp_all add: live_def upd_object_def tstat_def\<close>)
  have "tstat ?k1 idle = RT_THREAD_READY" "current ?k1 \<noteq> None"
    using d(4,6) by (simp_all add: tstat_def upd_object_def)
  then obtain k2 where "rt_schedule ?k1 = Some k2"
    using rt_schedule_progress[OF w] l by (auto simp: stacks_ok_def must_run_def)
  moreover have "(rt_enter_critical ?k1)\<lparr>lock_nest := 0\<rparr> = ?k1"
    using f(1) by (simp add: rt_enter_critical_def)
  ultimately have "rt_exit_critical (rt_enter_critical ?k1) = Some k2"
    using f(1) by (simp add: rt_exit_critical_def Let_def) (simp add: rt_enter_critical_def)
  moreover have "ty \<le> RT_Object_Class_Unknown"
    using assms(2) by (auto simp: rt_object_get_information_def rt_object_container_def split: if_splits)
  ultimately have "rt_object_find (Some name) ty ?k1 = Some (Some i, k2)"
    using assms(2) s f(2)
    by (simp add: rt_object_find_def RT_DEBUG_NOT_IN_INTERRUPT_def rt_interrupt_get_nest_def Let_def)
  then show ?thesis using k1 by blast
qed

theorem rt_object_init_find_witness:
  "\<exists>k1 k2. rt_object_init (Obj 100) 1 [0x61, 0x62, 0x63, 0x64, 0x65, 0x66, 0x67, 0x68, 0x69, 0] sample = Some k1 \<and>
     rt_object_find (Some [0x61, 0x62, 0x63, 0x64, 0x65, 0x66, 0x67, 0x68, 0x69, 0]) 1 k1 = Some (Some (Obj 100), k2)"
  by (rule rt_object_init_find[OF sample_calls])
    (simp_all add: rt_object_get_information_def rt_object_container_def obj_linked_def sample_def)

section \<open>Service functions\<close>

text \<open>C30: \<^verbatim>\<open>__rt_ffs\<close>, on which the scheduler relies, gives the position of the lowest set bit counted
  from one, and zero for a word without one.\<close>

theorem rt_ffs_lowest:
  "if v = 0 then rt_ffs v = 0 else \<exists>i<32. rt_ffs v = Suc i \<and> bit v i \<and> (\<forall>j<i. \<not> bit v j)"
proof (cases "v = 0")
  case False
  then show ?thesis
    using rt_ffs_lowest_set[OF False] by (auto simp: lowest_set_def intro!: exI[of _ "rt_ffs v - 1"])
qed simp

theorem rt_ffs_lowest_witness: "rt_ffs 0x80000400 = 11"
proof -
  obtain i where i: "rt_ffs 0x80000400 = Suc i" "bit (0x80000400 :: u32) i" "\<forall>j<i. \<not> bit (0x80000400 :: u32) j"
    using rt_ffs_lowest[of "0x80000400"] by auto
  have b: "bit (0x80000400 :: u32) 10" "\<forall>j<10. \<not> bit (0x80000400 :: u32) j"
    by (simp, simp add: numeral_eq_Suc less_Suc_eq)
  have "i = 10" using i(2,3) b by (metis linorder_neqE_nat)
  then show ?thesis using i(1) by simp
qed

text \<open>C31: \<^verbatim>\<open>rt_memset\<close>, which writes words where it can, stores the low byte of its argument in exactly
  the given number of bytes, for every address and count.\<close>

theorem rt_memset_stores: "rt_memset s c n m = (\<lambda>x. if s \<le> x \<and> x < s + n then ucast (c AND 0xFF) else m x)"
  using rt_memset_fill[of s c n m] by (simp add: byte_fill_def)

text \<open>C32: \<^verbatim>\<open>rt_memmove\<close> copies correctly for every overlap of source and destination, and the word copy
  of \<^verbatim>\<open>rt_memcpy\<close> agrees with it whenever the destination does not start inside the source.\<close>

theorem rt_memmove_copies:
  "rt_memmove d s n m = (\<lambda>x. if d \<le> x \<and> x < d + n then m (s + (x - d)) else m x) \<and>
   (d \<le> s \<or> s + n \<le> d \<longrightarrow> rt_memcpy d s n m = rt_memmove d s n m)"
  using rt_memmove_byte_copy[of d s n m] rt_memcpy_byte_copy[of d s n m] by (simp add: byte_copy_def)

theorem rt_memmove_copies_witness: "rt_memcpy 8 9 3 of_nat = rt_memmove 8 9 3 of_nat \<and> rt_memcpy 8 9 3 of_nat 8 = 9"
  using rt_memmove_copies[of 8 9 3 of_nat] by simp

text \<open>C33: A name that \<^verbatim>\<open>rt_strncpy\<close> has copied compares equal to its source with \<^verbatim>\<open>rt_strncmp\<close>, and the
  copy is the string cut to the length of the field and filled up with zeros.\<close>

theorem rt_strncpy_compares:
  assumes "0 \<in> set src" "length dst = n"
  shows "\<exists>d. rt_strncpy dst src n = Some d \<and> rt_strncmp d src n = Some 0 \<and>
    d = take n (cstr src) @ replicate (n - length (cstr src)) 0"
  using strncpy_strncmp[OF assms] rt_strncpy_cstr[OF assms(1), of n dst] assms(2) by simp

theorem rt_strncpy_compares_witness:
  "\<exists>d. rt_strncpy [1, 1, 1, 1] [0x61, 0x62, 0] 4 = Some d \<and> rt_strncmp d [0x61, 0x62, 0] 4 = Some 0 \<and>
    d = [0x61, 0x62, 0, 0]"
proof -
  have c: "cstr [0x61, 0x62, 0] = [0x61, 0x62]" by (simp add: cstr_def)
  have "replicate (4 - length [0x61, 0x62 :: u8]) (0 :: u8) = [0, 0]" by (simp add: numeral_eq_Suc)
  then show ?thesis
    using rt_strncpy_compares[of "[0x61, 0x62, 0]" "[1, 1, 1, 1]" 4] by (simp add: c)
qed

end
